(* ===== verification/CCANN_Prelude.thy ===== *)
theory CCANN_Prelude
  imports Main "HOL-Library.Word"
begin

text \<open>
  Shared vocabulary of the development: the faults of the C++ code, the fixed-width views of
  natural numbers, the rounding macros of \<^verbatim>\<open>include/utils.h\<close>, the sentinels of
  \<^verbatim>\<open>include/ssd_index.h\<close>, and generic lemmas about lists and maps that several components use.
  The collections \<open>width_simps\<close>, \<open>layout_simps\<close>, \<open>alloc_simps\<close> and \<open>pm_simps\<close> carry the
  component proofs.
\<close>

named_theorems width_simps "truncation to 32 and 64 bits"
named_theorems layout_simps "address arithmetic of the graph file"
named_theorems alloc_simps "page layout and location allocator"
named_theorems pm_simps "persistent memory"

section \<open>Faults\<close>

text \<open>
  How a C++ call can fail to return: \<open>Trap\<close> is \<^verbatim>\<open>crash()\<close> (\<^verbatim>\<open>__builtin_trap\<close>),
  \<open>Exit\<close> is \<^verbatim>\<open>exit(-1)\<close>, \<open>Assert_failed\<close> an \<^verbatim>\<open>assert\<close> (the build leaves
  \<^verbatim>\<open>NDEBUG\<close> off), \<open>Throws\<close> an uncaught \<^verbatim>\<open>std::invalid_argument\<close>, and \<open>Undefined\<close> an
  access outside an array, which C++ leaves undefined.
\<close>

datatype fault = Trap | Exit | Assert_failed | Throws | Undefined

type_synonym 'a outcome = "fault + 'a"

definition and_then :: "'a outcome \<Rightarrow> ('a \<Rightarrow> 'b outcome) \<Rightarrow> 'b outcome" where
  "and_then r f = (case r of Inl e \<Rightarrow> Inl e | Inr a \<Rightarrow> f a)"

lemma and_then_simps [simp]:
  "and_then (Inl e) f = Inl e"
  "and_then (Inr a) f = f a"
  by (simp_all add: and_then_def)

lemma and_then_eq_Inr: "and_then r f = Inr b \<longleftrightarrow> (\<exists>a. r = Inr a \<and> f a = Inr b)"
  by (cases r) auto

lemma and_then_assoc: "and_then (and_then r f) h = and_then r (\<lambda>a. and_then (f a) h)"
  by (cases r) auto

text \<open>A computation that may also run for ever (\<^term>\<open>None\<close>).\<close>

type_synonym 'a run = "'a outcome option"

definition bind_run :: "'a run \<Rightarrow> ('a \<Rightarrow> 'b run) \<Rightarrow> 'b run" where
  "bind_run r f = (case r of None \<Rightarrow> None | Some (Inl e) \<Rightarrow> Some (Inl e) | Some (Inr a) \<Rightarrow> f a)"

lemma bind_run_simps [simp]:
  "bind_run None f = None"
  "bind_run (Some (Inl e)) f = Some (Inl e)"
  "bind_run (Some (Inr a)) f = f a"
  by (simp_all add: bind_run_def)

lemma bind_run_eq_Some_Inr:
  "bind_run r f = Some (Inr b) \<longleftrightarrow> (\<exists>a. r = Some (Inr a) \<and> f a = Some (Inr b))"
  by (auto simp: bind_run_def split: option.splits sum.splits)

section \<open>Fixed-width numbers\<close>

text \<open>
  Identifiers and locations are natural numbers; where the code stores one in a
  \<^verbatim>\<open>uint32_t\<close> the model truncates it with \<open>u32\<close>.
\<close>

definition u32 :: "nat \<Rightarrow> nat" where
  "u32 n = n mod 2 ^ 32"

lemma u32_bound [simp]: "u32 n < 4294967296"
  by (simp add: u32_def)

lemma u32_small [width_simps]: "n < 4294967296 \<Longrightarrow> u32 n = n"
  by (simp add: u32_def)

lemma u32_le: "u32 n \<le> n"
  by (simp add: u32_def)

text \<open>\<^verbatim>\<open>kInvalidID\<close>, \<^verbatim>\<open>kAllocatedID\<close> and \<^verbatim>\<open>kMaxElemInAPage\<close> of \<^verbatim>\<open>SSDIndex\<close>.\<close>

definition kInvalidID :: nat where
  "kInvalidID = 4294967295"

definition kAllocatedID :: nat where
  "kAllocatedID = 4294967294"

definition kMaxElemInAPage :: nat where
  "kMaxElemInAPage = 16"

lemma sentinels_distinct [simp]:
  "kInvalidID \<noteq> kAllocatedID" "kAllocatedID \<noteq> kInvalidID"
  by (simp_all add: kInvalidID_def kAllocatedID_def)

section \<open>Rounding macros\<close>

text \<open>
  \<^verbatim>\<open>ROUND_UP\<close> sends 0 to \<^verbatim>\<open>Y\<close>, not to 0: the macro tests \<^verbatim>\<open>X == 0\<close> first.
\<close>

definition SECTOR_LEN :: nat where
  "SECTOR_LEN = 4096"

definition DIV_ROUND_UP :: "nat \<Rightarrow> nat \<Rightarrow> nat" where
  "DIV_ROUND_UP x y = x div y + (if x mod y \<noteq> 0 then 1 else 0)"

definition round_up' :: "nat \<Rightarrow> nat \<Rightarrow> nat" where
  "round_up' x y = (x div y + (if x mod y \<noteq> 0 then 1 else 0)) * y"

definition ROUND_UP :: "nat \<Rightarrow> nat \<Rightarrow> nat" where
  "ROUND_UP x y = (if x = 0 then y else round_up' x y)"

definition ROUND_DOWN :: "nat \<Rightarrow> nat \<Rightarrow> nat" where
  "ROUND_DOWN x y = x div y * y"

definition IS_ALIGNED :: "nat \<Rightarrow> nat \<Rightarrow> bool" where
  "IS_ALIGNED x y = (x mod y = 0)"

lemma SECTOR_LEN_pos [simp]: "0 < SECTOR_LEN"
  by (simp add: SECTOR_LEN_def)

lemma round_up'_DIV: "round_up' x y = DIV_ROUND_UP x y * y"
  by (simp add: round_up'_def DIV_ROUND_UP_def)

lemma DIV_ROUND_UP_bounds:
  assumes "0 < y"
  shows "x \<le> DIV_ROUND_UP x y * y" and "DIV_ROUND_UP x y * y < x + y"
proof -
  define q r where qr: "q = x div y * y" "r = x mod y"
  have "q + r = x" and "r < y" and "DIV_ROUND_UP x y * y = q + (if r \<noteq> 0 then y else 0)"
    using assms by (simp_all add: qr DIV_ROUND_UP_def add_mult_distrib)
  then show "x \<le> DIV_ROUND_UP x y * y" and "DIV_ROUND_UP x y * y < x + y"
    using assms by auto
qed

lemmas DIV_ROUND_UP_ge = DIV_ROUND_UP_bounds(1)
lemmas DIV_ROUND_UP_less = DIV_ROUND_UP_bounds(2)

lemma ROUND_UP_aligned: "IS_ALIGNED (ROUND_UP x y) y"
  by (simp add: IS_ALIGNED_def ROUND_UP_def round_up'_def)

lemma ROUND_UP_ge: "0 < y \<Longrightarrow> x \<le> ROUND_UP x y"
  using DIV_ROUND_UP_ge [of y x] by (simp add: ROUND_UP_def round_up'_DIV)

lemma ROUND_UP_pos: "0 < y \<Longrightarrow> 0 < ROUND_UP x y"
  using ROUND_UP_ge [of y x] by (cases "x = 0") (auto simp: ROUND_UP_def)

lemma ROUND_UP_div: "0 < y \<Longrightarrow> ROUND_UP x y div y = (if x = 0 then 1 else DIV_ROUND_UP x y)"
  by (simp add: ROUND_UP_def round_up'_DIV)

section \<open>Lists\<close>

lemma list_update_Cons_numeral [simp]:
  "(x # xs)[numeral k := v] = x # xs[pred_numeral k := v]"
  by (simp add: numeral_eq_Suc)

lemma less_DIV_ROUND_UP: "0 < y \<Longrightarrow> i < DIV_ROUND_UP x y \<longleftrightarrow> i * y < x"
proof -
  assume y: "0 < y"
  have b: "x \<le> DIV_ROUND_UP x y * y" "DIV_ROUND_UP x y * y < x + y" using DIV_ROUND_UP_bounds[OF y] by auto
  show ?thesis
  proof
    assume "i < DIV_ROUND_UP x y"
    then have "Suc i * y \<le> DIV_ROUND_UP x y * y" by (intro mult_le_mono1) simp
    then show "i * y < x" using b by simp
  next
    assume "i * y < x"
    then have "i * y < DIV_ROUND_UP x y * y" using b(1) by (rule order_less_le_trans)
    then show "i < DIV_ROUND_UP x y" using mult_less_cancel2 by blast
  qed
qed

lemma map_of_zip_notin: "i \<notin> set is \<Longrightarrow> map_of (zip is ls) i = None"
  by (auto simp: map_of_eq_None_iff dest: set_zip_leftD)

lemma zip_snoc_same: "length is = length ls \<Longrightarrow> zip is (ls @ [l]) = zip is ls"
  by (induction "is" ls rule: list_induct2) auto

lemma map_of_zip_swap:
  assumes "distinct xs" "distinct ys" "length xs = length ys"
  shows "map_of (zip xs ys) x = Some y \<longleftrightarrow> map_of (zip ys xs) y = Some x"
proof -
  have "(x, y) \<in> set (zip xs ys) \<longleftrightarrow> (y, x) \<in> set (zip ys xs)" by (auto simp: in_set_zip)
  then show ?thesis using assms by (simp add: map_of_eq_Some_iff)
qed

lemma map_of_zip_Some: "i \<in> set is \<Longrightarrow> length is = length ls \<Longrightarrow> \<exists>l. map_of (zip is ls) i = Some l"
  by (simp add: map_of_zip_is_Some[symmetric])

lemma map_of_zip_in: "map_of (zip is ls) i = Some l \<Longrightarrow> i \<in> set is \<and> l \<in> set ls"
  by (meson map_of_SomeD set_zip_leftD set_zip_rightD)

lemma find_in_set: "find Q xs = Some x \<Longrightarrow> x \<in> set xs \<and> Q x"
  by (induction xs) (auto split: if_splits)

lemma upt_4: "[0..<4] = [0, 1, 2, 3]"
  by (simp add: numeral_eq_Suc)

lemma take_nth_update_inj:
  "i < length xs \<Longrightarrow> j < length xs \<Longrightarrow> (xs[i := v]) ! j = (if i = j then v else xs ! j)"
  by simp

lemma list_all_update: "list_all P xs \<Longrightarrow> P v \<Longrightarrow> list_all P (xs[i := v])"
  by (induction xs arbitrary: i) (auto split: nat.split)

lemma distinct_append_disjoint:
  "distinct xs \<Longrightarrow> distinct ys \<Longrightarrow> set xs \<inter> set ys = {} \<Longrightarrow> distinct (xs @ ys)"
  by simp

end
