(* ===== verification/Cuckoo_Map.thy ===== *)
theory Cuckoo_Map
  imports CCANN_Prelude
begin

text \<open>
  The public operations of \<^verbatim>\<open>libcuckoo::cuckoohash_map\<close>
  (\<^verbatim>\<open>include/libcuckoo/cuckoohash_map.hh\<close>) as the index uses them. A table is the partial
  function from keys to mapped values that its buckets hold; each call holds the locks of the
  two candidate buckets of its key, so it is one atomic step on that function. A functor that
  mutates the mapped value and reports a result is a function returning both.

  The locale \<open>concurrent_map\<close> is the interface the other components rely on; it is interpreted
  on these definitions.
\<close>

datatype UpsertContext = NEWLY_INSERTED | ALREADY_EXISTED

definition find_fn :: "('k \<rightharpoonup> 'v) \<Rightarrow> 'k \<Rightarrow> 'v option" where
  "find_fn m k = m k"

definition update_fn :: "('k \<rightharpoonup> 'v) \<Rightarrow> 'k \<Rightarrow> ('v \<Rightarrow> 'v) \<Rightarrow> bool \<times> ('k \<rightharpoonup> 'v)" where
  "update_fn m k fn = (case m k of Some v \<Rightarrow> (True, m(k \<mapsto> fn v)) | None \<Rightarrow> (False, m))"

text \<open>The functor's boolean asks for the element to be erased.\<close>

definition erase_fn :: "('k \<rightharpoonup> 'v) \<Rightarrow> 'k \<Rightarrow> ('v \<Rightarrow> 'v \<times> bool) \<Rightarrow> bool \<times> ('k \<rightharpoonup> 'v)" where
  "erase_fn m k fn =
     (case m k of
        Some v \<Rightarrow> (case fn v of (v', del) \<Rightarrow> (True, if del then m(k := None) else m(k \<mapsto> v')))
      | None \<Rightarrow> (False, m))"

text \<open>
  \<^verbatim>\<open>uprase_fn\<close> with a functor that takes the context: it is invoked on the value that was found
  or on the newly constructed one (\<open>val\<close>). The result tells whether a new key was inserted.
\<close>

definition uprase_fn ::
  "('k \<rightharpoonup> 'v) \<Rightarrow> 'k \<Rightarrow> ('v \<Rightarrow> UpsertContext \<Rightarrow> 'v \<times> bool) \<Rightarrow> 'v \<Rightarrow> bool \<times> ('k \<rightharpoonup> 'v)" where
  "uprase_fn m k fn val =
     (let (ok, v, ctx) = (case m k of Some v \<Rightarrow> (False, v, ALREADY_EXISTED)
                                    | None \<Rightarrow> (True, val, NEWLY_INSERTED));
          (v', del) = fn v ctx
      in (ok, if del then m(k := None) else m(k \<mapsto> v')))"

text \<open>\<^verbatim>\<open>upsert\<close> with a functor that takes the context.\<close>

definition upsert_ctx ::
  "('k \<rightharpoonup> 'v) \<Rightarrow> 'k \<Rightarrow> ('v \<Rightarrow> UpsertContext \<Rightarrow> 'v) \<Rightarrow> 'v \<Rightarrow> bool \<times> ('k \<rightharpoonup> 'v)" where
  "upsert_ctx m k fn val = uprase_fn m k (\<lambda>v ctx. (fn v ctx, False)) val"

text \<open>\<^verbatim>\<open>upsert\<close> with a functor that takes the context and also sets a captured variable.\<close>

definition upsert_out ::
  "('k \<rightharpoonup> 'v) \<Rightarrow> 'k \<Rightarrow> ('v \<Rightarrow> UpsertContext \<Rightarrow> 'r \<times> 'v) \<Rightarrow> 'v \<Rightarrow> 'r \<times> ('k \<rightharpoonup> 'v)" where
  "upsert_out m k fn val =
     (let (v, ctx) = (case m k of Some v \<Rightarrow> (v, ALREADY_EXISTED) | None \<Rightarrow> (val, NEWLY_INSERTED))
      in (fst (fn v ctx), snd (upsert_ctx m k (\<lambda>v ctx. snd (fn v ctx)) val)))"

text \<open>
  \<^verbatim>\<open>upsert\<close> with a functor of one argument: \<^verbatim>\<open>InvokeUpraseFn\<close> does not call it on a newly
  inserted value.
\<close>

definition upsert_one :: "('k \<rightharpoonup> 'v) \<Rightarrow> 'k \<Rightarrow> ('v \<Rightarrow> 'v) \<Rightarrow> 'v \<Rightarrow> bool \<times> ('k \<rightharpoonup> 'v)" where
  "upsert_one m k fn val =
     uprase_fn m k (\<lambda>v ctx. (if ctx = ALREADY_EXISTED then fn v else v, False)) val"

definition cuckoo_insert :: "('k \<rightharpoonup> 'v) \<Rightarrow> 'k \<Rightarrow> 'v \<Rightarrow> bool \<times> ('k \<rightharpoonup> 'v)" where
  "cuckoo_insert m k val = upsert_one m k (\<lambda>v. v) val"

definition insert_or_assign :: "('k \<rightharpoonup> 'v) \<Rightarrow> 'k \<Rightarrow> 'v \<Rightarrow> bool \<times> ('k \<rightharpoonup> 'v)" where
  "insert_or_assign m k val = upsert_one m k (\<lambda>_. val) val"

definition cuckoo_erase :: "('k \<rightharpoonup> 'v) \<Rightarrow> 'k \<Rightarrow> bool \<times> ('k \<rightharpoonup> 'v)" where
  "cuckoo_erase m k = erase_fn m k (\<lambda>v. (v, True))"

text \<open>\<^verbatim>\<open>find\<close> without an output argument traps on a missing key.\<close>

definition cuckoo_find :: "('k \<rightharpoonup> 'v) \<Rightarrow> 'k \<Rightarrow> 'v outcome" where
  "cuckoo_find m k = (case m k of Some v \<Rightarrow> Inr v | None \<Rightarrow> Inl Trap)"

lemma snd_insert_or_assign [simp]: "snd (insert_or_assign m k v) = m(k \<mapsto> v)"
  by (simp add: insert_or_assign_def upsert_one_def uprase_fn_def split: option.split)

lemma snd_cuckoo_insert: "snd (cuckoo_insert m k v) = (if k \<in> dom m then m else m(k \<mapsto> v))"
  by (auto simp: cuckoo_insert_def upsert_one_def uprase_fn_def split: option.split)

lemma snd_cuckoo_erase [simp]: "snd (cuckoo_erase m k) = m(k := None)"
  by (auto simp: cuckoo_erase_def erase_fn_def split: option.split)

lemma snd_upsert_ctx:
  "snd (upsert_ctx m k fn val) =
     m(k \<mapsto> (case m k of Some v \<Rightarrow> fn v ALREADY_EXISTED | None \<Rightarrow> fn val NEWLY_INSERTED))"
  by (simp add: upsert_ctx_def uprase_fn_def split: option.split)

lemma upsert_out_Some: "m k = Some v \<Longrightarrow>
    upsert_out m k fn val = (fst (fn v ALREADY_EXISTED), m(k \<mapsto> snd (fn v ALREADY_EXISTED)))"
  by (simp add: upsert_out_def snd_upsert_ctx)

lemma upsert_out_None: "m k = None \<Longrightarrow>
    upsert_out m k fn val = (fst (fn val NEWLY_INSERTED), m(k \<mapsto> snd (fn val NEWLY_INSERTED)))"
  by (simp add: upsert_out_def snd_upsert_ctx)

lemma snd_update_fn:
  "snd (update_fn m k fn) = (case m k of Some v \<Rightarrow> m(k \<mapsto> fn v) | None \<Rightarrow> m)"
  by (simp add: update_fn_def split: option.split)

section \<open>The interface of a concurrent map\<close>

locale concurrent_map =
  fixes lookup :: "'m \<Rightarrow> 'k \<Rightarrow> 'v option"
    and assign :: "'m \<Rightarrow> 'k \<Rightarrow> 'v \<Rightarrow> 'm"
    and remove :: "'m \<Rightarrow> 'k \<Rightarrow> 'm"
  assumes lookup_assign: "lookup (assign m k v) k' = (if k' = k then Some v else lookup m k')"
    and lookup_remove: "lookup (remove m k) k' = (if k' = k then None else lookup m k')"
begin

text \<open>Writing a batch of entries in order: the last write to a key wins, other keys are kept.\<close>

fun assign_all :: "'m \<Rightarrow> ('k \<times> 'v) list \<Rightarrow> 'm" where
  "assign_all m [] = m"
| "assign_all m ((k, v) # kvs) = assign_all (assign m k v) kvs"

lemma lookup_assign_all_other: "k \<notin> fst ` set kvs \<Longrightarrow> lookup (assign_all m kvs) k = lookup m k"
  by (induction m kvs rule: assign_all.induct) (auto simp: lookup_assign)

lemma lookup_assign_all_last:
  "k \<notin> fst ` set kvs' \<Longrightarrow> lookup (assign_all m (kvs @ (k, v) # kvs')) k = Some v"
  by (induction m kvs rule: assign_all.induct) (auto simp: lookup_assign lookup_assign_all_other)

lemma lookup_assign_all_distinct:
  "distinct (map fst kvs) \<Longrightarrow> (k, v) \<in> set kvs \<Longrightarrow> lookup (assign_all m kvs) k = Some v"
proof (induction m kvs rule: assign_all.induct)
  case (2 m k' v' kvs)
  then show ?case
    by (cases "(k, v) = (k', v')") (auto simp: lookup_assign_all_other lookup_assign)
qed simp

end

interpretation cuckoo: concurrent_map
  "find_fn" "\<lambda>m k v. snd (insert_or_assign m k v)" "\<lambda>m k. snd (cuckoo_erase m k)"
  by unfold_locales (simp_all add: find_fn_def)

end
