(* ===== verification/Lock_Table.thy ===== *)
theory Lock_Table
  imports Cuckoo_Map "HOL-Library.Multiset"
begin

unbundle bit_operations_syntax

text \<open>
  \<^verbatim>\<open>include/v2/lock_table.h\<close>: the sparse table of reader-writer locks that the index keeps per
  page and per vector, its RAII guards, and the dense striped table with its 32-bit hash.

  A \<^verbatim>\<open>pthread_rwlock_t\<close> is the number of its readers and whether a writer holds it; the
  \<^verbatim>\<open>try\<close> operations return 0 or \<^verbatim>\<open>EBUSY\<close>, as POSIX says. The spin loops of \<^verbatim>\<open>rdlock\<close> and
  \<^verbatim>\<open>wrlock\<close> run against an environment that says what the other threads did to the table
  between two attempts; \<open>None\<close> is a loop that never ends.

  The step relation \<open>lock_step\<close> interleaves the calls of any number of threads; its reachable
  states satisfy \<open>lock_inv\<close>, from which mutual exclusion and the absence of leaked entries follow.
\<close>

section \<open>POSIX reader-writer locks\<close>

record rwlock =
  readers :: nat
  writer :: bool

definition EBUSY :: nat where
  "EBUSY = 16"

definition rwlock_init :: rwlock where
  "rwlock_init = \<lparr>readers = 0, writer = False\<rparr>"

definition pthread_rwlock_tryrdlock :: "rwlock \<Rightarrow> nat \<times> rwlock" where
  "pthread_rwlock_tryrdlock l =
     (if writer l then (EBUSY, l) else (0, l\<lparr>readers := Suc (readers l)\<rparr>))"

definition pthread_rwlock_trywrlock :: "rwlock \<Rightarrow> nat \<times> rwlock" where
  "pthread_rwlock_trywrlock l =
     (if writer l \<or> 0 < readers l then (EBUSY, l) else (0, l\<lparr>writer := True\<rparr>))"

definition pthread_rwlock_unlock :: "rwlock \<Rightarrow> rwlock" where
  "pthread_rwlock_unlock l =
     (if writer l then l\<lparr>writer := False\<rparr> else l\<lparr>readers := readers l - 1\<rparr>)"

section \<open>The sparse lock table\<close>

type_synonym 'k slt = "'k \<rightharpoonup> rwlock \<times> int"

text \<open>The functor both \<^verbatim>\<open>try\<close> calls pass to \<^verbatim>\<open>upsert\<close>: a new key gets a fresh lock.\<close>

definition try_functor ::
  "(rwlock \<Rightarrow> nat \<times> rwlock) \<Rightarrow> rwlock \<times> int \<Rightarrow> UpsertContext \<Rightarrow> nat \<times> (rwlock \<times> int)" where
  "try_functor trylock v ctx =
     (let v = (if ctx = NEWLY_INSERTED then (rwlock_init, 0) else v);
          (ret, l) = trylock (fst v)
      in (ret, if ret = 0 then (l, snd v + 1) else (l, snd v)))"

definition tryrdlock :: "'k slt \<Rightarrow> 'k \<Rightarrow> nat \<times> 'k slt" where
  "tryrdlock t k = upsert_out t k (try_functor pthread_rwlock_tryrdlock) (rwlock_init, 0)"

definition trywrlock :: "'k slt \<Rightarrow> 'k \<Rightarrow> nat \<times> 'k slt" where
  "trywrlock t k = upsert_out t k (try_functor pthread_rwlock_trywrlock) (rwlock_init, 0)"

text \<open>
  \<^verbatim>\<open>unlock\<close>: a missing key is left alone (\<^verbatim>\<open>erase_fn\<close> does not call the functor), a zero count
  traps, the last holder's entry is erased.
\<close>

definition unlock :: "'k slt \<Rightarrow> 'k \<Rightarrow> 'k slt outcome" where
  "unlock t k =
     (case t k of
        None \<Rightarrow> Inr t
      | Some v \<Rightarrow>
          if snd v = 0 then Inl Trap
          else Inr (snd (erase_fn t k
                 (\<lambda>v. ((pthread_rwlock_unlock (fst v), snd v - 1), snd v - 1 = 0)))))"

definition slt_size :: "'k slt \<Rightarrow> nat" where
  "slt_size t = card (dom t)"

text \<open>
  The spin loops. \<open>env i\<close> is what the other threads do to the table after attempt \<open>i\<close>; the
  counter is reset after the time-out message, so it stays bounded.
\<close>

definition next_cnt :: "nat \<Rightarrow> nat" where
  "next_cnt cnt = (if cnt + 1 > 50000000 then 0 else cnt + 1)"

partial_function (option) spin_lock ::
  "('k slt \<Rightarrow> 'k \<Rightarrow> nat \<times> 'k slt) \<Rightarrow> (nat \<Rightarrow> 'k slt \<Rightarrow> 'k slt) \<Rightarrow> nat \<Rightarrow> nat \<Rightarrow> 'k slt \<Rightarrow> 'k \<Rightarrow> 'k slt option" where
  "spin_lock trylock env i cnt t k =
     (let (ret, t') = trylock t k
      in if ret = 0 then Some t' else spin_lock trylock env (Suc i) (next_cnt cnt) (env i t') k)"

definition rdlock :: "(nat \<Rightarrow> 'k slt \<Rightarrow> 'k slt) \<Rightarrow> 'k slt \<Rightarrow> 'k \<Rightarrow> 'k slt option" where
  "rdlock env t k = spin_lock tryrdlock env 0 0 t k"

definition wrlock :: "(nat \<Rightarrow> 'k slt \<Rightarrow> 'k slt) \<Rightarrow> 'k slt \<Rightarrow> 'k \<Rightarrow> 'k slt option" where
  "wrlock env t k = spin_lock trywrlock env 0 0 t k"

text \<open>
  \<^verbatim>\<open>SparseReadLockGuard\<close> and \<^verbatim>\<open>SparseWriteLockGuard\<close>: the lock is held around a scope and
  released when the scope ends.
\<close>

definition with_read_guard ::
  "(nat \<Rightarrow> 'k slt \<Rightarrow> 'k slt) \<Rightarrow> 'k slt \<Rightarrow> 'k \<Rightarrow> ('k slt \<Rightarrow> 'k slt) \<Rightarrow> 'k slt outcome option" where
  "with_read_guard env t k scope = map_option (\<lambda>t'. unlock (scope t') k) (rdlock env t k)"

definition with_write_guard ::
  "(nat \<Rightarrow> 'k slt \<Rightarrow> 'k slt) \<Rightarrow> 'k slt \<Rightarrow> 'k \<Rightarrow> ('k slt \<Rightarrow> 'k slt) \<Rightarrow> 'k slt outcome option" where
  "with_write_guard env t k scope = map_option (\<lambda>t'. unlock (scope t') k) (wrlock env t k)"

section \<open>The striped lock table and its hash\<close>

type_synonym w32 = "32 word"

definition hash_c1 :: w32 where
  "hash_c1 = 0xcc9e2d51"

definition hash_c2 :: w32 where
  "hash_c2 = 0x1b873593"

definition fmix :: "w32 \<Rightarrow> w32" where
  "fmix h =
     (let h = h XOR drop_bit 16 h;
          h = h * 0x85ebca6b;
          h = h XOR drop_bit 13 h;
          h = h * 0xc2b2ae35
      in h XOR drop_bit 16 h)"

definition Rotate32 :: "w32 \<Rightarrow> nat \<Rightarrow> w32" where
  "Rotate32 val shift =
     (if shift = 0 then val else drop_bit shift val OR push_bit (32 - shift) val)"

definition Mur :: "w32 \<Rightarrow> w32 \<Rightarrow> w32" where
  "Mur a h =
     (let a = a * hash_c1;
          a = Rotate32 a 17;
          a = a * hash_c2;
          h = h XOR a;
          h = Rotate32 h 19
      in h * 5 + 0xe6546b64)"

text \<open>The loop of \<^verbatim>\<open>Hash32Len0to4\<close>: each byte is sign-extended to 32 bits.\<close>

fun hash_bytes :: "w32 \<Rightarrow> w32 \<Rightarrow> 8 word list \<Rightarrow> w32 \<times> w32" where
  "hash_bytes b c [] = (b, c)"
| "hash_bytes b c (v # s) =
     (let b = b * hash_c1 + signed v in hash_bytes b (c XOR b) s)"

definition Hash32Len0to4 :: "8 word list \<Rightarrow> w32" where
  "Hash32Len0to4 s =
     (let (b, c) = hash_bytes 0 9 s in fmix (Mur b (Mur (of_nat (length s)) c)))"

text \<open>The four bytes of a \<^verbatim>\<open>uint32_t\<close> in memory order (little endian).\<close>

definition bytes_of_u32 :: "w32 \<Rightarrow> 8 word list" where
  "bytes_of_u32 x = [ucast x, ucast (drop_bit 8 x), ucast (drop_bit 16 x), ucast (drop_bit 24 x)]"

definition Hash :: "w32 \<Rightarrow> w32" where
  "Hash x = Hash32Len0to4 (bytes_of_u32 x)"

text \<open>\<^verbatim>\<open>LockTable::pos\<close>: a 64-bit key is truncated by the call to \<^verbatim>\<open>Hash(uint32_t)\<close>.\<close>

definition pos :: "nat \<Rightarrow> nat \<Rightarrow> nat" where
  "pos sz key = unat (Hash (of_nat key)) mod sz"

definition LockTable_init :: "nat \<Rightarrow> rwlock list" where
  "LockTable_init sz = replicate sz rwlock_init"

definition LockTable_tryrdlock :: "rwlock list \<Rightarrow> nat \<Rightarrow> bool \<times> rwlock list" where
  "LockTable_tryrdlock ls key =
     (let i = pos (length ls) key; (ret, l) = pthread_rwlock_tryrdlock (ls ! i)
      in (ret = 0, ls[i := l]))"

definition LockTable_trywrlock :: "rwlock list \<Rightarrow> nat \<Rightarrow> bool \<times> rwlock list" where
  "LockTable_trywrlock ls key =
     (let i = pos (length ls) key; (ret, l) = pthread_rwlock_trywrlock (ls ! i)
      in (ret = 0, ls[i := l]))"

definition LockTable_unlock :: "rwlock list \<Rightarrow> nat \<Rightarrow> rwlock list" where
  "LockTable_unlock ls key =
     (let i = pos (length ls) key in ls[i := pthread_rwlock_unlock (ls ! i)])"

text \<open>The blocking calls return the lock they took; \<open>None\<close> is a call that has to wait.\<close>

definition LockTable_rdlock :: "rwlock list \<Rightarrow> nat \<Rightarrow> (nat \<times> rwlock list) option" where
  "LockTable_rdlock ls key =
     (case LockTable_tryrdlock ls key of
        (ok, ls') \<Rightarrow> if ok then Some (pos (length ls) key, ls') else None)"

definition LockTable_wrlock :: "rwlock list \<Rightarrow> nat \<Rightarrow> (nat \<times> rwlock list) option" where
  "LockTable_wrlock ls key =
     (case LockTable_trywrlock ls key of
        (ok, ls') \<Rightarrow> if ok then Some (pos (length ls) key, ls') else None)"

text \<open>
  \<^verbatim>\<open>LockGuard\<close> holds a pointer to a lock or null; moving it overwrites the pointer of the
  target, the destructor unlocks.
\<close>

definition LockGuard_move :: "nat option \<Rightarrow> nat option \<Rightarrow> nat option \<times> nat option" where
  "LockGuard_move lhs rhs = (rhs, None)"

definition LockGuard_destroy :: "rwlock list \<Rightarrow> nat option \<Rightarrow> rwlock list \<times> nat option" where
  "LockGuard_destroy ls g =
     (case g of Some i \<Rightarrow> (ls[i := pthread_rwlock_unlock (ls ! i)], None) | None \<Rightarrow> (ls, None))"

section \<open>Interleavings of the lock calls\<close>

datatype lock_mode = Rd | Wr

text \<open>A table together with the locks that the threads hold.\<close>

record ('t, 'k) lock_sys =
  table :: "'k slt"
  held :: "('t \<times> 'k \<times> lock_mode) multiset"

definition lock_sys_init :: "('t, 'k) lock_sys" where
  "lock_sys_init = \<lparr>table = Map.empty, held = {#}\<rparr>"

text \<open>
  One call of one thread: a \<^verbatim>\<open>try\<close> call that succeeds or fails (every iteration of a spin loop
  is one of these), or the release of a lock by a thread that holds it.
\<close>

inductive lock_step :: "('t, 'k) lock_sys \<Rightarrow> ('t, 'k) lock_sys \<Rightarrow> bool" where
  rd_ok: "tryrdlock (table s) k = (0, t') \<Longrightarrow>
    lock_step s (s\<lparr>table := t', held := add_mset (th, k, Rd) (held s)\<rparr>)"
| rd_busy: "tryrdlock (table s) k = (ret, t') \<Longrightarrow> ret \<noteq> 0 \<Longrightarrow> lock_step s (s\<lparr>table := t'\<rparr>)"
| wr_ok: "trywrlock (table s) k = (0, t') \<Longrightarrow>
    lock_step s (s\<lparr>table := t', held := add_mset (th, k, Wr) (held s)\<rparr>)"
| wr_busy: "trywrlock (table s) k = (ret, t') \<Longrightarrow> ret \<noteq> 0 \<Longrightarrow> lock_step s (s\<lparr>table := t'\<rparr>)"
| release: "(th, k, m) \<in># held s \<Longrightarrow> unlock (table s) k = Inr t' \<Longrightarrow>
    lock_step s (s\<lparr>table := t', held := held s - {#(th, k, m)#}\<rparr>)"

inductive lock_reach :: "('t, 'k) lock_sys \<Rightarrow> bool" where
  lr_init: "lock_reach lock_sys_init"
| lr_step: "lock_reach s \<Longrightarrow> lock_step s s' \<Longrightarrow> lock_reach s'"

definition holders :: "('t \<times> 'k \<times> lock_mode) multiset \<Rightarrow> 'k \<Rightarrow> lock_mode \<Rightarrow> nat" where
  "holders h k m = size (filter_mset (\<lambda>x. snd x = (k, m)) h)"

text \<open>The entry that \<open>r\<close> readers and \<open>w\<close> writers leave in the table.\<close>

definition entry_of :: "nat \<Rightarrow> nat \<Rightarrow> (rwlock \<times> int) option" where
  "entry_of r w =
     (if r + w = 0 then None else Some (\<lparr>readers = r, writer = (w = 1)\<rparr>, int (r + w)))"

definition lock_inv :: "('t, 'k) lock_sys \<Rightarrow> bool" where
  "lock_inv s = (\<forall>k. table s k = entry_of (holders (held s) k Rd) (holders (held s) k Wr)
     \<and> holders (held s) k Wr \<le> 1 \<and> (holders (held s) k Wr = 1 \<longrightarrow> holders (held s) k Rd = 0))"

section \<open>The calls on a well-formed entry\<close>

lemmas try_defs = tryrdlock_def trywrlock_def try_functor_def pthread_rwlock_tryrdlock_def
  pthread_rwlock_trywrlock_def rwlock_init_def EBUSY_def

lemma tryrdlock_entry:
  assumes "t k = entry_of r w" "w \<le> 1" "w = 1 \<longrightarrow> r = 0"
  shows "tryrdlock t k = (if w = 1 then (EBUSY, t) else (0, t(k := entry_of (Suc r) w)))"
proof (cases "t k")
  case None
  then have "r = 0" "w = 0" using assms by (auto simp: entry_of_def split: if_splits)
  then show ?thesis by (simp add: try_defs upsert_out_None None entry_of_def)
next
  case (Some v)
  then have "v = (\<lparr>readers = r, writer = (w = 1)\<rparr>, int (r + w))"
    using assms by (auto simp: entry_of_def split: if_splits)
  then show ?thesis using Some assms
    by (auto simp: try_defs upsert_out_Some[of t k] entry_of_def fun_upd_idem)
qed

lemma trywrlock_entry:
  assumes "t k = entry_of r w" "w \<le> 1"
  shows "trywrlock t k = (if w = 1 \<or> 0 < r then (EBUSY, t) else (0, t(k := entry_of r 1)))"
proof (cases "t k")
  case None
  then have "r = 0" "w = 0" using assms by (auto simp: entry_of_def split: if_splits)
  then show ?thesis by (simp add: try_defs upsert_out_None None entry_of_def)
next
  case (Some v)
  then have "v = (\<lparr>readers = r, writer = (w = 1)\<rparr>, int (r + w))" and "0 < r + w"
    using assms by (auto simp: entry_of_def split: if_splits)
  then show ?thesis using Some assms
    by (auto simp: try_defs upsert_out_Some[of t k] entry_of_def fun_upd_idem)
qed

lemma unlock_rd_entry:
  assumes "t k = entry_of (Suc r) 0"
  shows "unlock t k = Inr (t(k := entry_of r 0))"
  using assms by (auto simp: unlock_def entry_of_def erase_fn_def pthread_rwlock_unlock_def)

lemma unlock_wr_entry:
  assumes "t k = entry_of 0 1"
  shows "unlock t k = Inr (t(k := entry_of 0 0))"
  using assms by (auto simp: unlock_def entry_of_def erase_fn_def pthread_rwlock_unlock_def)

lemma holders_add:
  "holders (add_mset (th, k, m) h) k' m' = holders h k' m' + (if k' = k \<and> m' = m then 1 else 0)"
  by (auto simp: holders_def)

lemma holders_remove:
  assumes "(th, k, m) \<in># h"
  shows "holders h k' m' = holders (h - {#(th, k, m)#}) k' m' + (if k' = k \<and> m' = m then 1 else 0)"
  using holders_add[of th k m "h - {#(th, k, m)#}" k' m'] assms by simp

lemma ex_lock_mode: "(\<exists>m. P m) \<longleftrightarrow> P Rd \<or> P Wr"
  by (metis lock_mode.exhaust)

lemma holders_set: "0 < holders h k m \<longleftrightarrow> (\<exists>th. (th, k, m) \<in># h)"
  by (force simp: holders_def filter_mset_eq_mempty_iff simp flip: nonempty_has_size)

lemma holders_pos: "(th, k, m) \<in># h \<Longrightarrow> 0 < holders h k m"
  using holders_remove[of th k m h k m] by simp

section \<open>The invariant of the interleavings\<close>

lemma lock_invD:
  assumes "lock_inv s"
  shows "table s k = entry_of (holders (held s) k Rd) (holders (held s) k Wr)"
    and "holders (held s) k Wr \<le> 1"
    and "holders (held s) k Wr = 1 \<longrightarrow> holders (held s) k Rd = 0"
  using assms by (auto simp: lock_inv_def)

lemma lock_inv_init: "lock_inv lock_sys_init"
  by (simp add: lock_inv_def lock_sys_init_def holders_def entry_of_def)

lemma unlock_held:
  assumes inv: "lock_inv s" and h: "(th, k, m) \<in># held s"
  shows "unlock (table s) k = Inr ((table s)(k :=
           entry_of (holders (held s - {#(th, k, m)#}) k Rd) (holders (held s - {#(th, k, m)#}) k Wr)))"
proof (cases m)
  case Rd
  then obtain r where "holders (held s) k Rd = Suc r" using holders_pos[OF h] gr0_implies_Suc by blast
  then show ?thesis using lock_invD[OF inv, of k] holders_remove[OF h, of k] Rd
    by (auto simp: unlock_rd_entry le_Suc_eq)
next
  case Wr
  then have "holders (held s) k Wr = 1" "holders (held s) k Rd = 0"
    using lock_invD[OF inv, of k] holders_pos[OF h] by auto
  then show ?thesis using lock_invD[OF inv, of k] holders_remove[OF h, of k] Wr
    by (auto simp: unlock_wr_entry)
qed

lemma tryrdlock_inv:
  assumes "lock_inv s"
  shows "tryrdlock (table s) k =
    (if holders (held s) k Wr = 1 then (EBUSY, table s)
     else (0, (table s)(k := entry_of (Suc (holders (held s) k Rd)) (holders (held s) k Wr))))"
  by (rule tryrdlock_entry) (use lock_invD[OF assms] in auto)

lemma trywrlock_inv:
  assumes "lock_inv s"
  shows "trywrlock (table s) k =
    (if holders (held s) k Wr = 1 \<or> 0 < holders (held s) k Rd then (EBUSY, table s)
     else (0, (table s)(k := entry_of (holders (held s) k Rd) 1)))"
  by (rule trywrlock_entry) (use lock_invD[OF assms] in auto)

lemma lock_inv_release:
  assumes inv: "lock_inv s" and h: "(th, k, m) \<in># held s" and u: "unlock (table s) k = Inr t'"
  shows "lock_inv (s\<lparr>table := t', held := held s - {#(th, k, m)#}\<rparr>)"
proof -
  let ?h = "held s - {#(th, k, m)#}"
  have t': "t' = (table s)(k := entry_of (holders ?h k Rd) (holders ?h k Wr))"
    using unlock_held[OF inv h] u by simp
  have eq: "holders (held s) k' m' = holders ?h k' m' + (if k' = k \<and> m' = m then 1 else 0)" for k' m'
    by (rule holders_remove[OF h])
  have "table (s\<lparr>table := t', held := ?h\<rparr>) k' = entry_of (holders ?h k' Rd) (holders ?h k' Wr)" for k'
    using lock_invD(1)[OF inv, of k'] eq[of k' Rd] eq[of k' Wr] by (auto simp: t')
  moreover have "holders ?h k' Wr \<le> 1 \<and> (holders ?h k' Wr = 1 \<longrightarrow> holders ?h k' Rd = 0)" for k'
    using lock_invD(2,3)[OF inv, of k'] eq[of k' Rd] eq[of k' Wr] by (auto split: if_splits)
  ultimately show ?thesis by (simp add: lock_inv_def)
qed

lemma lock_inv_step:
  assumes "lock_step s s'" "lock_inv s"
  shows "lock_inv s'"
  using assms
proof (induction rule: lock_step.induct)
  case (rd_ok s k t' th)
  have t': "t' = (table s)(k := entry_of (Suc (holders (held s) k Rd)) (holders (held s) k Wr))"
    and w: "holders (held s) k Wr = 0"
    using tryrdlock_inv[OF rd_ok(2), of k] rd_ok(1) lock_invD(2)[OF rd_ok(2), of k]
    by (auto simp: EBUSY_def split: if_splits)
  show ?case using lock_invD[OF rd_ok(2)] w by (auto simp: lock_inv_def holders_add t')
next
  case (rd_busy s k ret t')
  then show ?case using tryrdlock_inv[OF rd_busy(3), of k] by (auto split: if_splits)
next
  case (wr_ok s k t' th)
  have t': "t' = (table s)(k := entry_of (holders (held s) k Rd) 1)"
    and w: "holders (held s) k Wr = 0" "holders (held s) k Rd = 0"
    using trywrlock_inv[OF wr_ok(2), of k] wr_ok(1) lock_invD(2)[OF wr_ok(2), of k]
    by (auto simp: EBUSY_def split: if_splits)
  show ?case using lock_invD[OF wr_ok(2)] w by (auto simp: lock_inv_def holders_add t')
next
  case (wr_busy s k ret t')
  then show ?case using trywrlock_inv[OF wr_busy(3), of k] by (auto split: if_splits)
next
  case (release th k m s t')
  then show ?case by (intro lock_inv_release)
qed

lemma lock_reach_inv: "lock_reach s \<Longrightarrow> lock_inv s"
  by (induction rule: lock_reach.induct) (auto intro: lock_inv_init lock_inv_step)

section \<open>Mutual exclusion and the life of an entry\<close>

text \<open>
  C14. Whatever the interleaving of the lock calls, a thread that holds the write lock of a key is
  its only holder: no other thread, and not even the same one, holds that key in any mode.
\<close>

theorem lock_table_mutual_exclusion:
  assumes "lock_reach s" and "(th, k, Wr) \<in># held s"
  shows "(th', k, m) \<notin># held s - {#(th, k, Wr)#}"
proof
  let ?h = "held s - {#(th, k, Wr)#}"
  assume "(th', k, m) \<in># ?h"
  then have "0 < holders ?h k m" by (rule holders_pos)
  then show False
    using lock_invD(2,3)[OF lock_reach_inv[OF assms(1)], of k] holders_remove[OF assms(2), of k Rd]
      holders_remove[OF assms(2), of k Wr] by (cases m) auto
qed

lemma lock_reach_one_writer:
  "lock_reach (\<lparr>table = [7 \<mapsto> (\<lparr>readers = 0, writer = True\<rparr>, 1)], held = {#(1, 7, Wr)#}\<rparr>
     :: (nat, nat) lock_sys)"
proof -
  have "trywrlock (table (lock_sys_init :: (nat, nat) lock_sys)) 7 =
      (0, [7 \<mapsto> (\<lparr>readers = 0, writer = True\<rparr>, 1)])"
    by (simp add: lock_sys_init_def try_defs upsert_out_None)
  from lock_step.wr_ok[OF this, of 1] show ?thesis
    using lr_step[OF lr_init] by (fastforce simp: lock_sys_init_def)
qed

theorem lock_table_mutual_exclusion_witness:
  "(2, 7, Rd) \<notin># held (\<lparr>table = [7 \<mapsto> (\<lparr>readers = 0, writer = True\<rparr>, 1)], held = {#(1, 7, Wr)#}\<rparr>
     :: (nat, nat) lock_sys) - {#(1, 7, Wr)#}"
  using lock_table_mutual_exclusion[OF lock_reach_one_writer, of 1 7 2 Rd] by simp

text \<open>
  C27. The table holds an entry for exactly the keys that some thread holds, and the release of a
  held lock always succeeds: the count is never found at zero, so \<^verbatim>\<open>unlock\<close> does not trap.
\<close>

theorem lock_table_no_leak:
  assumes "lock_reach s"
  shows "dom (table s) = (fst \<circ> snd) ` set_mset (held s)
    \<and> (\<forall>th k m. (th, k, m) \<in># held s \<longrightarrow> (\<exists>t'. unlock (table s) k = Inr t'))"
proof (intro conjI allI impI)
  have inv: "lock_inv s" using assms by (rule lock_reach_inv)
  have "k \<in> dom (table s) \<longleftrightarrow> 0 < holders (held s) k Rd \<or> 0 < holders (held s) k Wr" for k
    by (simp add: lock_invD(1)[OF inv] entry_of_def domIff)
  then have dom: "k \<in> dom (table s) \<longleftrightarrow> (\<exists>th m. (th, k, m) \<in># held s)" for k
    by (auto simp: holders_set ex_lock_mode)
  show "dom (table s) = (fst \<circ> snd) ` set_mset (held s)"
  proof (rule set_eqI)
    fix k
    have "(\<exists>th m. (th, k, m) \<in># held s) \<longleftrightarrow> k \<in> (fst \<circ> snd) ` set_mset (held s)"
      by (auto simp: image_iff Bex_def)
    then show "k \<in> dom (table s) \<longleftrightarrow> k \<in> (fst \<circ> snd) ` set_mset (held s)" using dom by simp
  qed
  show "\<exists>t'. unlock (table s) k = Inr t'" if "(th, k, m) \<in># held s" for th k m
    using unlock_held[OF inv that] by blast
qed

theorem lock_table_no_leak_witness:
  "dom [7 \<mapsto> (\<lparr>readers = 0, writer = True\<rparr>, 1 :: int)] = {7 :: nat}
   \<and> (\<exists>t'. unlock [7 :: nat \<mapsto> (\<lparr>readers = 0, writer = True\<rparr>, 1)] 7 = Inr t')"
  using lock_table_no_leak[OF lock_reach_one_writer] by simp

section \<open>The spin loops return\<close>

text \<open>The table before attempt \<open>n\<close>, when all the attempts before it failed.\<close>

fun attempt_state ::
  "('k slt \<Rightarrow> 'k \<Rightarrow> nat \<times> 'k slt) \<Rightarrow> (nat \<Rightarrow> 'k slt \<Rightarrow> 'k slt) \<Rightarrow> 'k slt \<Rightarrow> 'k \<Rightarrow> nat \<Rightarrow> 'k slt" where
  "attempt_state trylock env t k 0 = t"
| "attempt_state trylock env t k (Suc n) =
     env n (snd (trylock (attempt_state trylock env t k n) k))"

lemma spin_lock_returns_from:
  assumes "fst (trylock (attempt_state trylock env t k (i + d)) k) = 0"
    and "\<And>j. j < d \<Longrightarrow> fst (trylock (attempt_state trylock env t k (i + j)) k) \<noteq> 0"
  shows "spin_lock trylock env i cnt (attempt_state trylock env t k i) k =
           Some (snd (trylock (attempt_state trylock env t k (i + d)) k))"
  using assms
proof (induction d arbitrary: i cnt)
  case 0
  then show ?case by (subst spin_lock.simps) (simp add: case_prod_unfold)
next
  case (Suc d)
  have "spin_lock trylock env (Suc i) (next_cnt cnt) (attempt_state trylock env t k (Suc i)) k =
      Some (snd (trylock (attempt_state trylock env t k (Suc i + d)) k))"
    using Suc.prems(2)[of "Suc j" for j] by (intro Suc.IH) (use Suc.prems(1) in auto)
  then show ?case using Suc.prems(2)[of 0]
    by (subst spin_lock.simps) (simp add: case_prod_unfold)
qed

lemma spin_lock_only_if:
  assumes "spin_lock trylock env i cnt s k = Some y" "s = attempt_state trylock env t k i"
  shows "\<exists>n. fst (trylock (attempt_state trylock env t k n) k) = 0"
proof -
  let ?P = "\<lambda>trylock env i (cnt :: nat) s k (y :: 'a slt). s = attempt_state trylock env t k i \<longrightarrow>
    (\<exists>n. fst (trylock (attempt_state trylock env t k n) k) = (0 :: nat))"
  have "?P trylock env i cnt s k y"
  proof (rule spin_lock.raw_induct[of ?P, OF _ assms(1)])
    fix spin trylock env i cnt s k y
    assume IH: "\<And>trylock env i cnt s k y. spin trylock env i cnt s k = Some y \<Longrightarrow> ?P trylock env i cnt s k y"
      and run: "(let (ret, t') = trylock s k
        in if ret = 0 then Some t' else spin trylock env (Suc i) (next_cnt cnt) (env i t') k) = Some y"
    show "?P trylock env i cnt s k y"
    proof (cases "fst (trylock s k) = 0")
      case True
      then show ?thesis by blast
    next
      case False
      then have "spin trylock env (Suc i) (next_cnt cnt) (env i (snd (trylock s k))) k = Some y"
        using run by (simp add: case_prod_unfold Let_def)
      from IH[OF this] show ?thesis by simp
    qed
  qed
  then show ?thesis using assms(2) by simp
qed

text \<open>
  The spin loop of \<^verbatim>\<open>wrlock\<close> returns exactly when some attempt finds the lock free, and then
  with the table of the first such attempt; if no attempt ever does, it never returns.
\<close>

lemma wrlock_returns:
  "wrlock env t k =
     (if \<exists>n. fst (trywrlock (attempt_state trywrlock env t k n) k) = 0
      then Some (snd (trywrlock (attempt_state trywrlock env t k
             (LEAST n. fst (trywrlock (attempt_state trywrlock env t k n) k) = 0)) k))
      else None)"
proof -
  define P where "P = (\<lambda>n. fst (trywrlock (attempt_state trywrlock env t k n) k) = 0)"
  have "spin_lock trywrlock env 0 0 t k =
      Some (snd (trywrlock (attempt_state trywrlock env t k (Least P)) k))" if "\<exists>n. P n"
    using spin_lock_returns_from[of trywrlock env t k 0 "Least P" 0] LeastI_ex[OF that]
      not_less_Least[of _ P] by (simp add: P_def)
  moreover have "spin_lock trywrlock env 0 0 t k = None" if "\<not> (\<exists>n. P n)"
  proof (rule ccontr)
    assume "spin_lock trywrlock env 0 0 t k \<noteq> None"
    then obtain y where "spin_lock trywrlock env 0 0 t k = Some y" by blast
    from spin_lock_only_if[OF this, of t] that show False by (simp add: P_def)
  qed
  ultimately show ?thesis unfolding wrlock_def P_def by simp
qed

end
