(* ===== verification/Conc_Queue.thy ===== *)
theory Conc_Queue
  imports CCANN_Prelude
begin

text \<open>
  \<^verbatim>\<open>include/concurrent_queue.h\<close>: a FIFO queue behind one mutex. Each operation holds the mutex
  for its whole body, so it is one atomic step on the list of queued elements; \<^verbatim>\<open>pop\<close> of an empty
  queue returns the configured \<^verbatim>\<open>null_T\<close> instead of blocking. The wait and notify calls only
  delay the caller and change nothing.

  The locale \<open>fifo_queue\<close> is the contract its clients use: the loop \<^verbatim>\<open>while ((x = q.pop()) != null)\<close>
  of the allocator and of the commit thread is analysed once there.
\<close>

record 'a ConcurrentQueue =
  cq_items :: "'a list"
  null_T :: 'a

definition cq_new :: "'a \<Rightarrow> 'a ConcurrentQueue" where
  "cq_new nullT = \<lparr>cq_items = [], null_T = nullT\<rparr>"

definition cq_size :: "'a ConcurrentQueue \<Rightarrow> nat" where
  "cq_size q = length (cq_items q)"

definition cq_empty :: "'a ConcurrentQueue \<Rightarrow> bool" where
  "cq_empty q = (cq_size q = 0)"

definition cq_push :: "'a ConcurrentQueue \<Rightarrow> 'a \<Rightarrow> 'a ConcurrentQueue" where
  "cq_push q new_val = q\<lparr>cq_items := cq_items q @ [new_val]\<rparr>"

fun cq_insert :: "'a ConcurrentQueue \<Rightarrow> 'a list \<Rightarrow> 'a ConcurrentQueue" where
  "cq_insert q [] = q"
| "cq_insert q (x # xs) = cq_insert (cq_push q x) xs"

definition cq_pop :: "'a ConcurrentQueue \<Rightarrow> 'a \<times> 'a ConcurrentQueue" where
  "cq_pop q =
     (case cq_items q of
        [] \<Rightarrow> (null_T q, q)
      | x # xs \<Rightarrow> (x, q\<lparr>cq_items := xs\<rparr>))"

section \<open>The contract of a queue\<close>

locale fifo_queue =
  fixes items :: "'q \<Rightarrow> 'a list"
    and push :: "'q \<Rightarrow> 'a \<Rightarrow> 'q"
    and pop :: "'q \<Rightarrow> 'a \<times> 'q"
    and null :: "'q \<Rightarrow> 'a"
  assumes items_push: "items (push q x) = items q @ [x]"
    and null_push: "null (push q x) = null q"
    and pop_empty: "items q = [] \<Longrightarrow> pop q = (null q, q)"
    and pop_nonempty: "items q = x # xs \<Longrightarrow> fst (pop q) = x \<and> items (snd (pop q)) = xs \<and> null (snd (pop q)) = null q"
begin

text \<open>The loop that pops until the null element; it gives the elements handled and the queue left.\<close>

function drain :: "'q \<Rightarrow> 'a list \<times> 'q" where
  "drain q =
     (if items q = [] then ([], snd (pop q))
      else if fst (pop q) = null q then ([], snd (pop q))
      else let (xs, q') = drain (snd (pop q)) in (fst (pop q) # xs, q'))"
  by auto
termination
proof (relation "measure (length \<circ> items)")
  fix q assume "items q \<noteq> []"
  then obtain x xs where "items q = x # xs" by (cases "items q") auto
  then show "(snd (pop q), q) \<in> measure (length \<circ> items)" using pop_nonempty[of q x xs] by simp
qed simp

declare drain.simps [simp del]

lemma drain_items:
  "null q \<notin> set (items q) \<Longrightarrow> fst (drain q) = items q \<and> items (snd (drain q)) = []"
proof (induction "items q" arbitrary: q)
  case Nil
  then show ?case by (subst (1 2) drain.simps) (simp add: pop_empty)
next
  case (Cons x xs)
  have "fst (pop q) = x" "items (snd (pop q)) = xs" "null (snd (pop q)) = null q"
    using pop_nonempty[of q x xs] Cons.hyps(2) by auto
  then show ?case using Cons.hyps(1)[of "snd (pop q)"] Cons.prems Cons.hyps(2)[symmetric]
    by (subst (1 2) drain.simps) (auto simp: case_prod_unfold Let_def)
qed

lemma push_pop_order:
  "items q = xs \<Longrightarrow> items (fold (\<lambda>x q. push q x) ys q) = xs @ ys"
  by (induction ys arbitrary: q xs) (auto simp: items_push)

end

interpretation cq: fifo_queue cq_items cq_push cq_pop null_T
  by unfold_locales (auto simp: cq_push_def cq_pop_def split: list.splits)

section \<open>Operations as list operations\<close>

lemma cq_push_simps [simp]:
  "cq_items (cq_push q x) = cq_items q @ [x]" "null_T (cq_push q x) = null_T q"
  by (simp_all add: cq_push_def)

lemma cq_insert_items: "cq_items (cq_insert q xs) = cq_items q @ xs \<and> null_T (cq_insert q xs) = null_T q"
  by (induction q xs rule: cq_insert.induct) auto

lemma cq_pop_Nil: "cq_items q = [] \<Longrightarrow> cq_pop q = (null_T q, q)"
  by (simp add: cq_pop_def)

lemma cq_pop_Cons: "cq_items q = x # xs \<Longrightarrow> cq_pop q = (x, q\<lparr>cq_items := xs\<rparr>)"
  by (simp add: cq_pop_def)

text \<open>
  Everything that is put into the queue, one by one or as a batch, comes out in the order it
  went in, and the loop that pops until the null element then leaves the queue empty.
\<close>

lemma queue_fifo:
  assumes "null_T q \<notin> set xs \<union> set ys" and "cq_items q = []"
  shows "fst (cq.drain (cq_insert (fold (\<lambda>x q. cq_push q x) xs q) ys)) = xs @ ys
    \<and> cq_items (snd (cq.drain (cq_insert (fold (\<lambda>x q. cq_push q x) xs q) ys))) = []"
proof -
  let ?q = "cq_insert (fold (\<lambda>x q. cq_push q x) xs q) ys"
  have "null_T (fold (\<lambda>x q. cq_push q x) xs q) = null_T q" by (induction xs arbitrary: q) auto
  then have "cq_items ?q = xs @ ys" "null_T ?q = null_T q"
    using cq.push_pop_order[OF assms(2), of xs] by (simp_all add: cq_insert_items)
  then show ?thesis using cq.drain_items[of ?q] assms(1) by simp
qed

lemma queue_fifo_witness:
  "fst (cq.drain (cq_insert (fold (\<lambda>x q. cq_push q x) [3, 1] (cq_new 0)) [2, 2 :: nat])) = [3, 1, 2, 2]"
  using queue_fifo[of "cq_new (0 :: nat)" "[3, 1]" "[2, 2]"] by (simp add: cq_new_def)

end
