(* ===== verification/Disk_Layout.thy ===== *)
theory Disk_Layout
  imports CCANN_Prelude
begin

text \<open>
  The layout of the graph file (\<^verbatim>\<open>include/ssd_index.h\<close>): sector 0 holds the metadata, a node record
  is \<^verbatim>\<open>[COORD(T)][NNBRS][NBR_ID(_u32)]\<close>, and either \<^verbatim>\<open>nnodes_per_sector\<close> records share a sector
  or (\<^verbatim>\<open>nnodes_per_sector == 0\<close>) a record takes several sectors. A location is the index of a record
  slot. Addresses are unbounded naturals here; the code computes them in 64 bits.
\<close>

record geom =
  data_dim :: nat
  elem_size :: nat
  max_node_len :: nat
  nnodes_per_sector :: nat

definition offset_to_node_coords :: "nat \<Rightarrow> nat" where
  "offset_to_node_coords node_buf = node_buf"

definition offset_to_node_nhood :: "geom \<Rightarrow> nat \<Rightarrow> nat" where
  "offset_to_node_nhood g node_buf = node_buf + data_dim g * elem_size g"

definition loc_sector_no :: "geom \<Rightarrow> nat \<Rightarrow> nat" where
  "loc_sector_no g loc =
     1 + (if nnodes_per_sector g > 0 then loc div nnodes_per_sector g
          else loc * DIV_ROUND_UP (max_node_len g) SECTOR_LEN)"

definition u_loc_offset :: "geom \<Rightarrow> nat \<Rightarrow> nat" where
  "u_loc_offset g loc =
     (let sector_no = loc_sector_no g loc;
          sector_off = (if nnodes_per_sector g = 0 then 0
                        else (loc mod nnodes_per_sector g) * max_node_len g)
      in sector_no * SECTOR_LEN + sector_off)"

definition u_loc_offset_nbr :: "geom \<Rightarrow> nat \<Rightarrow> nat" where
  "u_loc_offset_nbr g loc = loc * max_node_len g + data_dim g * elem_size g"

definition offset_to_loc :: "geom \<Rightarrow> nat \<Rightarrow> nat \<Rightarrow> nat" where
  "offset_to_loc g sector_buf loc =
     sector_buf + (if nnodes_per_sector g = 0 then 0
                   else (loc mod nnodes_per_sector g) * max_node_len g)"

definition sector_to_loc :: "geom \<Rightarrow> nat \<Rightarrow> nat \<Rightarrow> nat" where
  "sector_to_loc g sector_no sector_off = (sector_no - 1) * nnodes_per_sector g + sector_off"

text \<open>
  A geometry as \<^verbatim>\<open>load\<close> accepts it: records are not empty and the records of a sector fit in it.
\<close>

definition geom_ok :: "geom \<Rightarrow> bool" where
  "geom_ok g \<longleftrightarrow> 0 < max_node_len g \<and> nnodes_per_sector g * max_node_len g \<le> SECTOR_LEN"

text \<open>A geometry with several records per sector, at most as many as a \<^verbatim>\<open>PageArr\<close> holds.\<close>

definition geom_paged :: "geom \<Rightarrow> bool" where
  "geom_paged g \<longleftrightarrow> geom_ok g \<and> 0 < nnodes_per_sector g \<and> nnodes_per_sector g \<le> kMaxElemInAPage"

section \<open>Slots of a page\<close>

lemma sector_to_loc_inv [layout_simps]:
  "0 < nnodes_per_sector g \<Longrightarrow>
     sector_to_loc g (loc_sector_no g loc) (loc mod nnodes_per_sector g) = loc"
  by (simp add: sector_to_loc_def loc_sector_no_def)

lemma loc_sector_no_of_slot [layout_simps]:
  "\<lbrakk>0 < p; i < nnodes_per_sector g\<rbrakk> \<Longrightarrow> loc_sector_no g (sector_to_loc g p i) = p"
  by (simp add: sector_to_loc_def loc_sector_no_def)

lemma loc_mod_of_slot [layout_simps]:
  "i < nnodes_per_sector g \<Longrightarrow> sector_to_loc g p i mod nnodes_per_sector g = i"
  by (simp add: sector_to_loc_def)

lemma loc_sector_no_pos [layout_simps]: "0 < loc_sector_no g loc"
  by (simp add: loc_sector_no_def)

lemma loc_sector_no_mono: "l \<le> l' \<Longrightarrow> loc_sector_no g l \<le> loc_sector_no g l'"
  by (simp add: loc_sector_no_def div_le_mono)

lemma loc_sector_no_less:
  assumes "0 < nnodes_per_sector g" "l < l'" "l' mod nnodes_per_sector g = 0"
  shows "loc_sector_no g l < loc_sector_no g l'"
proof -
  obtain q where l': "l' = q * nnodes_per_sector g" 
    using assms(3) by (metis mod_eq_0_iff_dvd dvd_def mult.commute)
  then have "l div nnodes_per_sector g < q" using assms(1,2) by (simp add: div_less_iff_less_mult)
  then show ?thesis using assms(1) by (simp add: loc_sector_no_def l')
qed

lemma loc_sector_no_bound:
  "loc_sector_no g loc \<le> loc + 1" if "0 < nnodes_per_sector g"
  using that by (simp add: loc_sector_no_def)

section \<open>Records do not overlap\<close>

lemma u_loc_offset_sector:
  assumes "geom_ok g" "0 < nnodes_per_sector g"
  shows "u_loc_offset g loc + max_node_len g \<le> (loc_sector_no g loc + 1) * SECTOR_LEN"
proof -
  have "Suc (loc mod nnodes_per_sector g) * max_node_len g \<le> nnodes_per_sector g * max_node_len g"
    using assms(2) by (intro mult_le_mono1) (simp add: Suc_leI)
  then show ?thesis using assms by (simp add: u_loc_offset_def Let_def geom_ok_def)
qed

lemma u_loc_offset_large:
  assumes "geom_ok g" "nnodes_per_sector g = 0"
  shows "u_loc_offset g loc + max_node_len g \<le> u_loc_offset g (Suc loc)"
  using DIV_ROUND_UP_ge[of SECTOR_LEN "max_node_len g"] assms SECTOR_LEN_pos
  by (simp add: u_loc_offset_def Let_def loc_sector_no_def algebra_simps)

lemma u_loc_offset_step:
  assumes "geom_ok g"
  shows "u_loc_offset g loc + max_node_len g \<le> u_loc_offset g (Suc loc)"
proof (cases "nnodes_per_sector g = 0")
  case True
  then show ?thesis using u_loc_offset_large[OF assms] by simp
next
  case False
  show ?thesis
  proof (cases "Suc loc mod nnodes_per_sector g = 0")
    case True
    have "loc_sector_no g loc < loc_sector_no g (Suc loc)"
      using loc_sector_no_less[of g loc "Suc loc"] True False by simp
    then have "(loc_sector_no g loc + 1) * SECTOR_LEN \<le> loc_sector_no g (Suc loc) * SECTOR_LEN"
      by (intro mult_le_mono1) simp
    then show ?thesis using u_loc_offset_sector[OF assms, of loc] False
      by (simp add: u_loc_offset_def Let_def)
  next
    case F: False
    then have "Suc loc mod nnodes_per_sector g = Suc (loc mod nnodes_per_sector g)"
      "loc_sector_no g (Suc loc) = loc_sector_no g loc"
      using False by (auto simp: mod_Suc div_Suc loc_sector_no_def split: if_splits)
    then show ?thesis using False by (simp add: u_loc_offset_def Let_def)
  qed
qed

lemma u_loc_offset_less:
  assumes "geom_ok g" "l < l'"
  shows "u_loc_offset g l + max_node_len g \<le> u_loc_offset g l'"
  using assms(2)
proof (induction l' rule: less_induct)
  case (less l')
  then obtain k where k: "l' = Suc k" by (cases l') auto
  show ?case
  proof (cases "l = k")
    case True
    then show ?thesis using u_loc_offset_step[OF assms(1)] k by simp
  next
    case False
    then have "u_loc_offset g l + max_node_len g \<le> u_loc_offset g k" using less k by simp
    then show ?thesis using u_loc_offset_step[OF assms(1), of k] k by simp
  qed
qed

text \<open>
  C28. The byte ranges of the records at two different locations never overlap and none of them
  touches the metadata sector, whether records share sectors or span several; and where records share
  sectors, a record ends inside the sector it starts in.
\<close>

theorem node_records_disjoint:
  assumes "geom_ok g" and "l \<noteq> l'"
  shows "{u_loc_offset g l ..< u_loc_offset g l + max_node_len g}
           \<inter> {u_loc_offset g l' ..< u_loc_offset g l' + max_node_len g} = {}
    \<and> SECTOR_LEN \<le> u_loc_offset g l
    \<and> (0 < nnodes_per_sector g \<longrightarrow>
         (u_loc_offset g l + max_node_len g - 1) div SECTOR_LEN = loc_sector_no g l)"
proof (intro conjI impI)
  show "{u_loc_offset g l ..< u_loc_offset g l + max_node_len g}
      \<inter> {u_loc_offset g l' ..< u_loc_offset g l' + max_node_len g} = {}"
    using u_loc_offset_less[OF assms(1), of l l'] u_loc_offset_less[OF assms(1), of l' l] assms(2)
    by (cases "l < l'") auto
  show "SECTOR_LEN \<le> u_loc_offset g l"
    by (simp add: u_loc_offset_def Let_def loc_sector_no_def)
  assume n: "0 < nnodes_per_sector g"
  have "loc_sector_no g l * SECTOR_LEN \<le> u_loc_offset g l" by (simp add: u_loc_offset_def Let_def)
  moreover have "0 < max_node_len g" using assms(1) by (simp add: geom_ok_def)
  ultimately show "(u_loc_offset g l + max_node_len g - 1) div SECTOR_LEN = loc_sector_no g l"
    using u_loc_offset_sector[OF assms(1) n, of l] SECTOR_LEN_pos
    by (intro div_nat_eqI) (simp_all add: mult.commute)
qed

theorem node_records_disjoint_witness:
  "{4096 ..< 4740 :: nat} \<inter> {8836 ..< 9480} = {}
   \<and> u_loc_offset \<lparr>data_dim = 128, elem_size = 1, max_node_len = 644, nnodes_per_sector = 6\<rparr> 7 = 8836"
  using node_records_disjoint[of "\<lparr>data_dim = 128, elem_size = 1, max_node_len = 644, nnodes_per_sector = 6\<rparr>" 0 7]
  by (simp add: geom_ok_def u_loc_offset_def loc_sector_no_def SECTOR_LEN_def)

end
