(* ===== verification/Allocator.thy ===== *)
theory Allocator
  imports Cuckoo_Map Conc_Queue Disk_Layout
begin

text \<open>
  The slot allocator of the graph file (\<^verbatim>\<open>include/ssd_index.h\<close>): \<^verbatim>\<open>page_layout\<close> maps a page to the
  ids stored in its slots, \<^verbatim>\<open>empty_pages\<close> queues pages whose slots are all free, \<^verbatim>\<open>cur_loc\<close> is the
  end of the file. A free slot holds \<^verbatim>\<open>kInvalidID\<close>, a slot handed out and not yet published holds
  \<^verbatim>\<open>kAllocatedID\<close>. Every operation below runs under \<^verbatim>\<open>alloc_lock\<close>, so it is one step on the state.

  The slot arithmetic divides by \<^verbatim>\<open>nnodes_per_sector\<close> and indexes a 16-entry array: the lemmas are
  about geometries with \<open>geom_paged\<close>, the ones for which the code is defined.
\<close>

type_synonym PageArr = "nat list"

record alloc_state =
  page_layout :: "nat \<rightharpoonup> PageArr"
  empty_pages :: "nat ConcurrentQueue"
  cur_loc :: nat

text \<open>The compile-time switches \<^verbatim>\<open>ANN_LARGE\<close> and \<^verbatim>\<open>NO_POLLUTE_ORIGINAL\<close>, and \<^verbatim>\<open>init_num_pts\<close>.\<close>

record alloc_config =
  ann_large :: bool
  no_pollute_original :: bool
  init_num_pts :: nat

definition kIndexSizeFactor :: nat where
  "kIndexSizeFactor = 2"

definition default_config :: alloc_config where
  "default_config = \<lparr>ann_large = False, no_pollute_original = False, init_num_pts = 0\<rparr>"

section \<open>Reading and writing a slot\<close>

definition loc2id :: "geom \<Rightarrow> alloc_state \<Rightarrow> nat \<Rightarrow> nat" where
  "loc2id g s loc =
     (let loc = u32 loc; page = u32 (loc_sector_no g loc); offset = u32 (loc mod nnodes_per_sector g)
      in case find_fn (page_layout s) page of Some v \<Rightarrow> v ! offset | None \<Rightarrow> kInvalidID)"

text \<open>A newly inserted page starts as a zeroed array whose first \<^verbatim>\<open>nnodes_per_sector\<close> slots are freed.\<close>

definition free_slots :: "geom \<Rightarrow> PageArr \<Rightarrow> PageArr" where
  "free_slots g v = fold (\<lambda>i v. v[i := kInvalidID]) [0..<nnodes_per_sector g] v"

definition PageArr_zero :: PageArr where
  "PageArr_zero = replicate kMaxElemInAPage 0"

definition set_loc2id :: "geom \<Rightarrow> alloc_state \<Rightarrow> nat \<Rightarrow> nat \<Rightarrow> alloc_state" where
  "set_loc2id g s loc vid =
     (let loc = u32 loc; page = u32 (loc_sector_no g loc); offset = u32 (loc mod nnodes_per_sector g)
      in s\<lparr>page_layout := snd (upsert_ctx (page_layout s) page
             (\<lambda>v ctx. (if ctx = NEWLY_INSERTED then free_slots g v else v)[offset := vid]) PageArr_zero)\<rparr>)"

definition page_is_empty :: "geom \<Rightarrow> PageArr \<Rightarrow> bool" where
  "page_is_empty g v = list_all (\<lambda>i. v ! i = kInvalidID) [0..<nnodes_per_sector g]"

text \<open>
  \<^verbatim>\<open>erase_loc2id\<close> passes a one-argument functor to \<^verbatim>\<open>upsert\<close>: on a page that is not in the table
  it is not called, and a zeroed array is inserted.
\<close>

definition erase_loc2id :: "geom \<Rightarrow> alloc_state \<Rightarrow> nat \<Rightarrow> alloc_state" where
  "erase_loc2id g s loc =
     (let loc = u32 loc; page = u32 (loc_sector_no g loc); offset = u32 (loc mod nnodes_per_sector g)
      in s\<lparr>page_layout := snd (upsert_one (page_layout s) page (\<lambda>v. v[offset := kInvalidID]) PageArr_zero),
           empty_pages :=
             (case page_layout s page of
                Some v \<Rightarrow> if page_is_empty g (v[offset := kInvalidID])
                          then cq_push (empty_pages s) page else empty_pages s
              | None \<Rightarrow> empty_pages s)\<rparr>)"

text \<open>\<^verbatim>\<open>new_ids[i]\<close> for \<^verbatim>\<open>i < new_locs.size()\<close>: out of range when there are fewer ids than locations.\<close>

definition erase_and_set_loc ::
  "geom \<Rightarrow> alloc_state \<Rightarrow> nat list \<Rightarrow> nat list \<Rightarrow> nat list \<Rightarrow> alloc_state outcome" where
  "erase_and_set_loc g s old_locs new_locs new_ids =
     (if length new_ids < length new_locs then Inl Undefined
      else Inr (fold (\<lambda>l s. erase_loc2id g s l) old_locs
                  (fold (\<lambda>(l, i) s. set_loc2id g s l i) (zip new_locs new_ids) s)))"

section \<open>Allocation\<close>

text \<open>
  Rule 1 on one page: every slot must be free, the slots are taken until \<open>n\<close> locations are
  collected. The counter \<^verbatim>\<open>cur\<close> of the code is the length of \<^verbatim>\<open>ret\<close>.
\<close>

fun take_empty_page :: "geom \<Rightarrow> nat \<Rightarrow> nat \<Rightarrow> nat list \<Rightarrow> PageArr \<Rightarrow> nat list \<Rightarrow> (PageArr \<times> nat list) outcome" where
  "take_empty_page g n page [] v ret = Inr (v, ret)"
| "take_empty_page g n page (i # is) v ret =
     (if v ! i \<noteq> kInvalidID then Inl Trap
      else let v = v[i := kAllocatedID]; ret = ret @ [sector_to_loc g page i]
           in if length ret = n then Inr (v, ret) else take_empty_page g n page is v ret)"

text \<open>
  The loop of rule 1; the boolean says that the allocation is complete. The queue's null element is
  \<^verbatim>\<open>kInvalidID\<close>, so popping it ends the loop, and so does an exhausted queue.
\<close>

function alloc_rule1 ::
  "geom \<Rightarrow> alloc_config \<Rightarrow> nat \<Rightarrow> alloc_state \<Rightarrow> nat list \<Rightarrow> (bool \<times> alloc_state \<times> nat list) outcome" where
  "alloc_rule1 g c n s ret =
     (let (empty_page, q) = cq_pop (empty_pages s); s' = s\<lparr>empty_pages := q\<rparr>
      in if cq_items (empty_pages s) = [] \<or> empty_page = kInvalidID then Inr (False, s', ret)
         else if no_pollute_original c \<and> empty_page < loc_sector_no g (init_num_pts c)
         then alloc_rule1 g c n s' ret
         else case page_layout s empty_page of
             None \<Rightarrow> if length ret = n then Inr (True, s', ret) else alloc_rule1 g c n s' ret
           | Some v \<Rightarrow>
               (case take_empty_page g n empty_page [0..<nnodes_per_sector g] v ret of
                  Inl e \<Rightarrow> Inl e
                | Inr (v', ret') \<Rightarrow>
                    let s'' = s'\<lparr>page_layout := snd (update_fn (page_layout s') empty_page (\<lambda>_. v'))\<rparr>
                    in if length ret' = n then Inr (True, s'', ret') else alloc_rule1 g c n s'' ret'))"
  by pat_completeness auto
termination
  by (relation "measure (\<lambda>(g, c, n, s, ret). length (cq_items (empty_pages s)))")
    (auto simp: cq_pop_def split: list.splits)

declare alloc_rule1.simps [simp del]

text \<open>Rule 2 on one page: the number of holes, and taking them until \<open>n\<close> locations are collected.\<close>

definition count_holes :: "geom \<Rightarrow> PageArr \<Rightarrow> nat" where
  "count_holes g v = length (filter (\<lambda>i. v ! i = kInvalidID) [0..<nnodes_per_sector g])"

fun take_holes :: "geom \<Rightarrow> nat \<Rightarrow> nat \<Rightarrow> nat list \<Rightarrow> PageArr \<Rightarrow> nat list \<Rightarrow> PageArr \<times> nat list" where
  "take_holes g n page [] v ret = (v, ret)"
| "take_holes g n page (i # is) v ret =
     (if v ! i = kInvalidID
      then let v = v[i := kAllocatedID]; ret = ret @ [sector_to_loc g page i]
           in if length ret = n then (v, ret) else take_holes g n page is v ret
      else take_holes g n page is v ret)"

definition alloc_threshold :: "geom \<Rightarrow> alloc_config \<Rightarrow> nat" where
  "alloc_threshold g c =
     (if ann_large c then 1 else (nnodes_per_sector g + kIndexSizeFactor - 1) div kIndexSizeFactor)"

text \<open>The loop of rule 2 over the hint pages; \<open>need\<close> is \<^verbatim>\<open>page_need_to_read\<close>.\<close>

fun alloc_rule2 ::
  "geom \<Rightarrow> alloc_config \<Rightarrow> nat \<Rightarrow> nat list \<Rightarrow> alloc_state \<Rightarrow> nat list \<Rightarrow> nat set
     \<Rightarrow> bool \<times> alloc_state \<times> nat list \<times> nat set" where
  "alloc_rule2 g c n [] s ret need = (False, s, ret, need)"
| "alloc_rule2 g c n (p # ps) s ret need =
     (if no_pollute_original c \<and> p < loc_sector_no g (init_num_pts c)
      then alloc_rule2 g c n ps s ret need
      else let (s', ret', need') =
             (case page_layout s (u32 p) of
                None \<Rightarrow> (s, ret, need)
              | Some v \<Rightarrow>
                  let cnt = count_holes g v
                  in if cnt < alloc_threshold g c then (s, ret, need)
                     else let (v', ret') = take_holes g n p [0..<nnodes_per_sector g] v ret
                          in (s\<lparr>page_layout := snd (update_fn (page_layout s) (u32 p) (\<lambda>_. v'))\<rparr>, ret',
                              if cnt < nnodes_per_sector g then insert p need else need))
           in if length ret' = n then (True, s', ret', need') else alloc_rule2 g c n ps s' ret' need')"

text \<open>
  Rule 3: new space at the end of the file, whose end stays aligned to a page. \<^verbatim>\<open>remaining\<close> is a
  signed integer.
\<close>

definition align_loc :: "geom \<Rightarrow> nat \<Rightarrow> nat" where
  "align_loc g l =
     (if l mod nnodes_per_sector g \<noteq> 0 then l + (nnodes_per_sector g - l mod nnodes_per_sector g) else l)"

definition alloc_rule3 :: "geom \<Rightarrow> nat \<Rightarrow> alloc_state \<Rightarrow> nat list \<Rightarrow> alloc_state \<times> nat list" where
  "alloc_rule3 g n s ret =
     (let remaining = int n - int (length ret); new = map (\<lambda>i. cur_loc s + i) [0..<nat remaining];
          s' = fold (\<lambda>l s. set_loc2id g s l kAllocatedID) new s
      in (s'\<lparr>cur_loc := align_loc g (nat (int (cur_loc s) + remaining))\<rparr>, ret @ new))"

definition alloc_loc ::
  "geom \<Rightarrow> alloc_config \<Rightarrow> alloc_state \<Rightarrow> nat \<Rightarrow> nat list \<Rightarrow> nat set
     \<Rightarrow> (nat list \<times> nat set \<times> alloc_state) outcome" where
  "alloc_loc g c s n hint_pages need =
     and_then (alloc_rule1 g c n s []) (\<lambda>(done, s, ret).
       if done then Inr (ret, need, s)
       else case alloc_rule2 g c n hint_pages s ret need of
           (done, s, ret, need) \<Rightarrow>
             if done then Inr (ret, need, s)
             else case alloc_rule3 g n s ret of (s, ret) \<Rightarrow> Inr (ret, need, s))"

section \<open>The slots of the file and the allocator's invariant\<close>

text \<open>The abstract view of the layout table: what every location of the file holds.\<close>

definition slots :: "geom \<Rightarrow> alloc_state \<Rightarrow> nat \<Rightarrow> nat" where
  "slots g s l =
     (case page_layout s (loc_sector_no g l) of
        Some v \<Rightarrow> v ! (l mod nnodes_per_sector g) | None \<Rightarrow> kInvalidID)"

definition pages_ok :: "geom \<Rightarrow> nat \<Rightarrow> (nat \<rightharpoonup> PageArr) \<Rightarrow> bool" where
  "pages_ok g e m \<longleftrightarrow> (\<forall>p v. m p = Some v \<longrightarrow>
     length v = kMaxElemInAPage \<and> 0 < p \<and> p < loc_sector_no g e)"

definition queue_ok :: "geom \<Rightarrow> alloc_state \<Rightarrow> bool" where
  "queue_ok g s \<longleftrightarrow> null_T (empty_pages s) = kInvalidID \<and> distinct (cq_items (empty_pages s))
     \<and> (\<forall>p\<in>set (cq_items (empty_pages s)). \<exists>v. page_layout s p = Some v \<and> page_is_empty g v)"

definition alloc_inv :: "geom \<Rightarrow> alloc_state \<Rightarrow> bool" where
  "alloc_inv g s \<longleftrightarrow> pages_ok g (cur_loc s) (page_layout s) \<and> queue_ok g s
     \<and> cur_loc s mod nnodes_per_sector g = 0 \<and> cur_loc s < kInvalidID"

text \<open>From \<open>s\<close> to \<open>s'\<close> exactly the free slots \<open>new\<close> were taken.\<close>

definition claims :: "geom \<Rightarrow> alloc_state \<Rightarrow> alloc_state \<Rightarrow> nat list \<Rightarrow> bool" where
  "claims g s s' new \<longleftrightarrow> distinct new \<and> (\<forall>l\<in>set new. slots g s l = kInvalidID)
     \<and> slots g s' = (\<lambda>l. if l \<in> set new then kAllocatedID else slots g s l)"

lemma claims_refl: "slots g s' = slots g s \<Longrightarrow> claims g s s' []"
  by (simp add: claims_def)

lemma claims_trans:
  assumes "claims g s s1 a" "claims g s1 s2 b"
  shows "claims g s s2 (a @ b)"
proof -
  have "l \<notin> set a \<and> slots g s l = kInvalidID" if "l \<in> set b" for l
    using assms that sentinels_distinct by (auto simp: claims_def split: if_splits)
  then show ?thesis using assms by (auto simp: claims_def fun_eq_iff)
qed

lemma slots_live_bound:
  assumes "alloc_inv g s" "slots g s l \<noteq> kInvalidID"
  shows "l < cur_loc s"
proof (rule ccontr)
  assume "\<not> l < cur_loc s"
  then have "loc_sector_no g (cur_loc s) \<le> loc_sector_no g l" by (intro loc_sector_no_mono) simp
  then have "page_layout s (loc_sector_no g l) = None"
    using assms(1) by (cases "page_layout s (loc_sector_no g l)")
      (fastforce simp: alloc_inv_def pages_ok_def)+
  then show False using assms(2) by (simp add: slots_def)
qed

section \<open>Writing one slot\<close>

lemma u32_loc_facts:
  assumes "geom_paged g" "l < kInvalidID"
  shows "u32 l = l" "u32 (loc_sector_no g l) = loc_sector_no g l"
    "u32 (l mod nnodes_per_sector g) = l mod nnodes_per_sector g"
    "l mod nnodes_per_sector g < kMaxElemInAPage"
proof -
  have n: "0 < nnodes_per_sector g" "nnodes_per_sector g \<le> kMaxElemInAPage"
    using assms(1) by (auto simp: geom_paged_def)
  have "loc_sector_no g l \<le> kInvalidID" using loc_sector_no_bound[OF n(1), of l] assms(2) by simp
  then show "u32 (loc_sector_no g l) = loc_sector_no g l" by (intro u32_small) (simp add: kInvalidID_def)
  show "u32 l = l" using assms(2) by (intro u32_small) (simp add: kInvalidID_def)
  show *: "l mod nnodes_per_sector g < kMaxElemInAPage" using n by (meson mod_less_divisor order_less_le_trans)
  then show "u32 (l mod nnodes_per_sector g) = l mod nnodes_per_sector g"
    by (intro u32_small) (simp add: kMaxElemInAPage_def)
qed

lemma loc2id_slots: "geom_paged g \<Longrightarrow> l < kInvalidID \<Longrightarrow> loc2id g s l = slots g s l"
  by (simp add: loc2id_def slots_def find_fn_def u32_loc_facts split: option.split)

lemma free_slots_nth:
  assumes "nnodes_per_sector g \<le> length v"
  shows "length (free_slots g v) = length v"
    "i < nnodes_per_sector g \<Longrightarrow> free_slots g v ! i = kInvalidID"
proof -
  have "length (fold (\<lambda>i v. v[i := kInvalidID]) [0..<n] v) = length v
      \<and> (\<forall>i<n. fold (\<lambda>i v. v[i := kInvalidID]) [0..<n] v ! i = kInvalidID)" if "n \<le> length v" for n
    using that by (induction n) (auto simp: nth_list_update less_Suc_eq)
  from this[OF assms] show "length (free_slots g v) = length v"
    "i < nnodes_per_sector g \<Longrightarrow> free_slots g v ! i = kInvalidID"
    by (auto simp: free_slots_def)
qed

lemma same_slot:
  "\<lbrakk>loc_sector_no g l = loc_sector_no g l'; 0 < nnodes_per_sector g;
    l mod nnodes_per_sector g = l' mod nnodes_per_sector g\<rbrakk> \<Longrightarrow> l = l'"
  by (metis sector_to_loc_inv)

text \<open>The layout table after \<open>x\<close> is written at location \<open>l\<close> of a page that has the array \<open>v\<close>.\<close>

lemma slots_page_update:
  assumes "geom_paged g" "length v = kMaxElemInAPage"
    and "\<And>i. i < nnodes_per_sector g \<Longrightarrow>
           v ! i = slots g s (sector_to_loc g (loc_sector_no g l) i)"
  shows "slots g (s\<lparr>page_layout := (page_layout s)(loc_sector_no g l \<mapsto> v[l mod nnodes_per_sector g := x])\<rparr>)
     = (slots g s)(l := x)"
proof
  fix l'
  have n: "0 < nnodes_per_sector g" "nnodes_per_sector g \<le> kMaxElemInAPage"
    using assms(1) by (auto simp: geom_paged_def)
  have "l mod nnodes_per_sector g < length v"
    using n assms(2) by (metis mod_less_divisor order_less_le_trans)
  then show "slots g (s\<lparr>page_layout := (page_layout s)(loc_sector_no g l \<mapsto> v[l mod nnodes_per_sector g := x])\<rparr>) l'
     = ((slots g s)(l := x)) l'"
  proof (cases "loc_sector_no g l' = loc_sector_no g l")
    case True
    then have "v ! (l' mod nnodes_per_sector g) = slots g s l'"
      using assms(3)[of "l' mod nnodes_per_sector g"] n sector_to_loc_inv[OF n(1), of l'] by simp
    then show ?thesis using True same_slot[of g l l'] n \<open>l mod nnodes_per_sector g < length v\<close>
      by (auto simp: slots_def nth_list_update)
  next
    case False
    then show ?thesis by (auto simp: slots_def)
  qed
qed

lemma slots_of_page:
  assumes "0 < nnodes_per_sector g" "0 < p" "i < nnodes_per_sector g"
  shows "slots g s (sector_to_loc g p i) = (case page_layout s p of Some v \<Rightarrow> v ! i | None \<Rightarrow> kInvalidID)"
  using assms by (simp add: slots_def layout_simps split: option.split)

lemma set_loc2id_page:
  assumes "geom_paged g" "l < kInvalidID"
  shows "set_loc2id g s l x = s\<lparr>page_layout := (page_layout s)(loc_sector_no g l \<mapsto>
    (case page_layout s (loc_sector_no g l) of Some v \<Rightarrow> v | None \<Rightarrow> free_slots g PageArr_zero)
      [l mod nnodes_per_sector g := x])\<rparr>"
  using u32_loc_facts[OF assms] by (simp add: set_loc2id_def snd_upsert_ctx Let_def split: option.split)

lemma slots_set_loc2id:
  assumes "geom_paged g" "pages_ok g e (page_layout s)" "l < kInvalidID"
  shows "slots g (set_loc2id g s l x) = (slots g s)(l := x)"
proof -
  let ?p = "loc_sector_no g l"
  let ?v = "case page_layout s ?p of Some v \<Rightarrow> v | None \<Rightarrow> free_slots g PageArr_zero"
  have n: "0 < nnodes_per_sector g" "nnodes_per_sector g \<le> length PageArr_zero"
    using assms(1) by (auto simp: geom_paged_def PageArr_zero_def)
  have "length ?v = kMaxElemInAPage"
    using assms(2) free_slots_nth(1)[OF n(2)]
    by (auto simp: pages_ok_def PageArr_zero_def split: option.split)
  moreover have "?v ! i = slots g s (sector_to_loc g ?p i)" if "i < nnodes_per_sector g" for i
    using that n slots_of_page[OF n(1) loc_sector_no_pos that] free_slots_nth(2)[OF n(2) that]
    by (simp split: option.split)
  ultimately show ?thesis
    using slots_page_update[OF assms(1), of ?v s l x] set_loc2id_page[OF assms(1,3)] by simp
qed

lemma set_loc2id_frame [simp]:
  "empty_pages (set_loc2id g s l x) = empty_pages s" "cur_loc (set_loc2id g s l x) = cur_loc s"
  by (simp_all add: set_loc2id_def Let_def)

lemma pages_ok_set_loc2id:
  assumes "geom_paged g" "pages_ok g e (page_layout s)" "l < kInvalidID" "loc_sector_no g l < loc_sector_no g e"
  shows "pages_ok g e (page_layout (set_loc2id g s l x))"
proof -
  have "length (free_slots g PageArr_zero) = kMaxElemInAPage"
    using assms(1) free_slots_nth(1)[of g PageArr_zero] by (simp add: geom_paged_def PageArr_zero_def)
  then show ?thesis using assms(2,4)
    by (auto simp: pages_ok_def set_loc2id_page[OF assms(1,3)] layout_simps split: option.splits if_splits)
qed

lemma erase_loc2id_page:
  assumes "geom_paged g" "l < kInvalidID" "page_layout s (loc_sector_no g l) = Some v"
  shows "erase_loc2id g s l =
    s\<lparr>page_layout := (page_layout s)(loc_sector_no g l \<mapsto> v[l mod nnodes_per_sector g := kInvalidID]),
      empty_pages := (if page_is_empty g (v[l mod nnodes_per_sector g := kInvalidID])
                      then cq_push (empty_pages s) (loc_sector_no g l) else empty_pages s)\<rparr>"
  using u32_loc_facts[OF assms(1,2)] assms(3)
  by (simp add: erase_loc2id_def upsert_one_def uprase_fn_def Let_def)

lemma slots_queue_frame [simp]: "slots g (s\<lparr>empty_pages := q\<rparr>) = slots g s"
  "slots g (s\<lparr>cur_loc := e\<rparr>) = slots g s"
  by (simp_all add: slots_def fun_eq_iff)

lemma slots_erase_loc2id:
  assumes "geom_paged g" "pages_ok g e (page_layout s)" "l < kInvalidID"
    "page_layout s (loc_sector_no g l) = Some v"
  shows "slots g (erase_loc2id g s l) = (slots g s)(l := kInvalidID)"
proof -
  have n: "0 < nnodes_per_sector g" using assms(1) by (simp add: geom_paged_def)
  have "slots g (s\<lparr>page_layout := (page_layout s)(loc_sector_no g l \<mapsto> v[l mod nnodes_per_sector g := kInvalidID])\<rparr>)
      = (slots g s)(l := kInvalidID)"
    using assms(2,4) n by (intro slots_page_update[OF assms(1)])
      (auto simp: pages_ok_def slots_of_page layout_simps)
  then show ?thesis by (simp add: erase_loc2id_page[OF assms(1,3,4)])
qed

lemma claims_queue_frame: "claims g (s\<lparr>empty_pages := q\<rparr>) = claims g s"
  by (simp add: claims_def fun_eq_iff)

section \<open>Taking the slots of one page\<close>

definition mark :: "nat list \<Rightarrow> PageArr \<Rightarrow> PageArr" where
  "mark is v = fold (\<lambda>i v. v[i := kAllocatedID]) is v"

lemma length_mark [simp]: "length (mark is v) = length v"
  by (induction "is" arbitrary: v) (auto simp: mark_def)

lemma mark_nth: "\<forall>i\<in>set is. i < length v \<Longrightarrow> mark is v ! j = (if j \<in> set is then kAllocatedID else v ! j)"
proof (induction "is" arbitrary: v)
  case Nil
  then show ?case by (simp add: mark_def)
next
  case (Cons i "is")
  have "mark (i # is) v = mark is (v[i := kAllocatedID])" by (simp add: mark_def)
  then show ?case using Cons.IH[of "v[i := kAllocatedID]"] Cons.prems by (auto simp: nth_list_update)
qed

lemma take_empty_page_ok:
  assumes "distinct is" "\<forall>i\<in>set is. i < length v \<and> v ! i = kInvalidID" "length ret < n"
  shows "take_empty_page g n p is v ret =
    Inr (mark (take (n - length ret) is) v, ret @ map (sector_to_loc g p) (take (n - length ret) is))"
  using assms
proof (induction "is" arbitrary: v ret)
  case Nil
  then show ?case by (simp add: mark_def)
next
  case (Cons i "is")
  obtain k where k: "n - length ret = Suc k" using Cons.prems(3) by (metis Suc_diff_Suc)
  show ?case
  proof (cases "k = 0")
    case True
    then have "length ret + 1 = n" using k by simp
    then show ?thesis using Cons.prems k True by (simp add: mark_def)
  next
    case False
    then have "length (ret @ [sector_to_loc g p i]) < n" "n - length (ret @ [sector_to_loc g p i]) = k"
      using k by auto
    moreover have "\<forall>j\<in>set is. v[i := kAllocatedID] ! j = v ! j"
      using Cons.prems(1) by (metis distinct.simps(2) nth_list_update_neq)
    ultimately show ?thesis
      using Cons.prems Cons.IH[of "v[i := kAllocatedID]" "ret @ [sector_to_loc g p i]"] k
      by (simp add: mark_def)
  qed
qed

lemma take_holes_ok:
  assumes "distinct is" "\<forall>i\<in>set is. i < length v" "length ret < n"
    and "hs = take (n - length ret) (filter (\<lambda>i. v ! i = kInvalidID) is)"
  shows "take_holes g n p is v ret = (mark hs v, ret @ map (sector_to_loc g p) hs)"
  using assms
proof (induction "is" arbitrary: v ret hs)
  case Nil
  then show ?case by (simp add: mark_def)
next
  case (Cons i "is")
  obtain k where k: "n - length ret = Suc k" using Cons.prems(3) by (metis Suc_diff_Suc)
  show ?case
  proof (cases "v ! i = kInvalidID")
    case False
    then show ?thesis using Cons by simp
  next
    case True
    have f: "filter (\<lambda>j. v[i := kAllocatedID] ! j = kInvalidID) is = filter (\<lambda>j. v ! j = kInvalidID) is"
    proof (rule filter_cong[OF refl])
      fix j assume "j \<in> set is"
      then show "(v[i := kAllocatedID] ! j = kInvalidID) = (v ! j = kInvalidID)"
        using Cons.prems(1) by (metis distinct.simps(2) nth_list_update_neq)
    qed
    show ?thesis
    proof (cases "k = 0")
      case T: True
      then have "length ret + 1 = n" using k by simp
      then show ?thesis using Cons.prems k T True by (simp add: mark_def)
    next
      case F: False
      then have "length (ret @ [sector_to_loc g p i]) < n" "n - length (ret @ [sector_to_loc g p i]) = k"
        using k by auto
      then show ?thesis
        using Cons.prems Cons.IH[of "v[i := kAllocatedID]" "ret @ [sector_to_loc g p i]", OF _ _ _ refl] k True F
        by (simp add: f mark_def)
    qed
  qed
qed

text \<open>Writing the marked array back claims exactly the marked slots.\<close>

lemma claims_mark:
  assumes "geom_paged g" "pages_ok g e (page_layout s)" "page_layout s p = Some v"
    and "distinct hs" "\<forall>i\<in>set hs. i < nnodes_per_sector g \<and> v ! i = kInvalidID"
  shows "claims g s (s\<lparr>page_layout := (page_layout s)(p \<mapsto> mark hs v)\<rparr>) (map (sector_to_loc g p) hs)"
proof -
  have n: "0 < nnodes_per_sector g" "nnodes_per_sector g \<le> kMaxElemInAPage"
    using assms(1) by (auto simp: geom_paged_def)
  have v: "length v = kMaxElemInAPage" "0 < p" using assms(2,3) by (auto simp: pages_ok_def)
  have hs: "\<forall>i\<in>set hs. i < length v" using assms(5) n v by auto
  have "inj_on (sector_to_loc g p) (set hs)" by (auto simp: inj_on_def sector_to_loc_def)
  moreover have "slots g s (sector_to_loc g p i) = kInvalidID" if "i \<in> set hs" for i
    using that assms(3,5) n v by (auto simp: slots_of_page)
  moreover have "slots g (s\<lparr>page_layout := (page_layout s)(p \<mapsto> mark hs v)\<rparr>) l =
      (if l \<in> sector_to_loc g p ` set hs then kAllocatedID else slots g s l)" for l
  proof (cases "loc_sector_no g l = p")
    case True
    then have "l = sector_to_loc g p (l mod nnodes_per_sector g)" using sector_to_loc_inv[OF n(1), of l] by simp
    moreover have "i mod nnodes_per_sector g = i" if "i \<in> set hs" for i using that assms(5) by simp
    ultimately have "l \<in> sector_to_loc g p ` set hs \<longleftrightarrow> l mod nnodes_per_sector g \<in> set hs"
      by (auto simp: sector_to_loc_def)
    then show ?thesis using True assms(3) by (simp add: slots_def mark_nth[OF hs])
  next
    case False
    then have "l \<notin> sector_to_loc g p ` set hs"
      using assms(5) v loc_sector_no_of_slot[of p _ g] by auto
    then show ?thesis using False by (simp add: slots_def)
  qed
  ultimately show ?thesis using assms(4) by (auto simp: claims_def distinct_map)
qed

lemma pages_ok_upd: "pages_ok g e m \<Longrightarrow> m p = Some v \<Longrightarrow> length v' = length v \<Longrightarrow> pages_ok g e (m(p \<mapsto> v'))"
  by (auto simp: pages_ok_def)

lemma page_is_empty_iff: "page_is_empty g v \<longleftrightarrow> (\<forall>i<nnodes_per_sector g. v ! i = kInvalidID)"
  by (auto simp: page_is_empty_def list_all_iff)

section \<open>The three rules\<close>

lemma alloc_inv_pop:
  assumes "alloc_inv g s" "cq_items (empty_pages s) = p # ps"
  shows "\<exists>v. page_layout s p = Some v \<and> page_is_empty g v" "p \<noteq> kInvalidID" "p \<notin> set ps"
    "alloc_inv g (s\<lparr>empty_pages := (empty_pages s)\<lparr>cq_items := ps\<rparr>\<rparr>)"
proof -
  show *: "\<exists>v. page_layout s p = Some v \<and> page_is_empty g v"
    and "p \<notin> set ps" "alloc_inv g (s\<lparr>empty_pages := (empty_pages s)\<lparr>cq_items := ps\<rparr>\<rparr>)"
    using assms by (auto simp: alloc_inv_def queue_ok_def)
  have "p < loc_sector_no g (cur_loc s)" using * assms(1) by (auto simp: alloc_inv_def pages_ok_def)
  moreover have "loc_sector_no g (cur_loc s) \<le> cur_loc s + 1 \<or> nnodes_per_sector g = 0"
    using loc_sector_no_bound by blast
  ultimately show "p \<noteq> kInvalidID" using assms(1) by (auto simp: alloc_inv_def loc_sector_no_def)
qed

lemma alloc_inv_mark:
  assumes "alloc_inv g s" "page_layout s p = Some v" "p \<notin> set (cq_items (empty_pages s))"
    and "length v' = length v"
  shows "alloc_inv g (s\<lparr>page_layout := (page_layout s)(p \<mapsto> v')\<rparr>)"
  using assms by (auto simp: alloc_inv_def queue_ok_def intro: pages_ok_upd)

text \<open>The page of a location holds something besides free slots.\<close>

definition page_in_use :: "geom \<Rightarrow> alloc_state \<Rightarrow> nat \<Rightarrow> bool" where
  "page_in_use g s l \<longleftrightarrow> (\<exists>l'. loc_sector_no g l' = loc_sector_no g l \<and> slots g s l' \<noteq> kInvalidID)"

lemma page_in_use_claims: "claims g s s' new \<Longrightarrow> page_in_use g s l \<Longrightarrow> page_in_use g s' l"
  using sentinels_distinct by (auto simp: page_in_use_def claims_def)

lemma page_in_use_empty:
  assumes "page_layout s (loc_sector_no g l) = Some v" "page_is_empty g v" "geom_paged g"
  shows "\<not> page_in_use g s l"
  using assms by (auto simp: page_in_use_def slots_def page_is_empty_iff geom_paged_def)

lemma alloc_rule1_page:
  assumes "geom_paged g" "alloc_inv g s" "length ret < n" "cq_items (empty_pages s) = p # ps"
    and "\<not> (no_pollute_original c \<and> p < loc_sector_no g (init_num_pts c))"
  shows "\<exists>s' new. alloc_rule1 g c n s ret = (if length ret + length new = n
          then Inr (True, s', ret @ new) else alloc_rule1 g c n s' (ret @ new))
      \<and> claims g s s' new \<and> alloc_inv g s' \<and> cur_loc s' = cur_loc s
      \<and> cq_items (empty_pages s') = ps \<and> length ret + length new \<le> n
      \<and> (\<forall>l\<in>set new. \<not> page_in_use g s l)"
proof -
  let ?s = "s\<lparr>empty_pages := (empty_pages s)\<lparr>cq_items := ps\<rparr>\<rparr>"
  note pop = alloc_inv_pop[OF assms(2,4)] cq_pop_Cons[OF assms(4)]
  then obtain v where v: "page_layout s p = Some v" "page_is_empty g v" by blast
  have ok: "pages_ok g (cur_loc s) (page_layout s)" using assms(2) by (simp add: alloc_inv_def)
  then have len: "length v = kMaxElemInAPage" using v by (auto simp: pages_ok_def)
  define hs where "hs = take (n - length ret) [0..<nnodes_per_sector g]"
  have hs: "distinct hs" "\<forall>i\<in>set hs. i < nnodes_per_sector g \<and> v ! i = kInvalidID"
    using v(2) by (auto simp: hs_def page_is_empty_iff dest: in_set_takeD)
  let ?s2 = "?s\<lparr>page_layout := (page_layout s)(p \<mapsto> mark hs v)\<rparr>"
  have take: "take_empty_page g n p [0..<nnodes_per_sector g] v ret
      = Inr (mark hs v, ret @ map (sector_to_loc g p) hs)"
    unfolding hs_def using v len assms(1,3)
    by (intro take_empty_page_ok) (auto simp: page_is_empty_iff geom_paged_def)
  have "claims g s ?s2 (map (sector_to_loc g p) hs)"
    using claims_mark[OF assms(1), of "cur_loc s" ?s p v hs] v(1) ok hs by (simp add: claims_queue_frame)
  moreover have "alloc_inv g ?s2" using alloc_inv_mark[OF pop(4), of p v "mark hs v"] v pop(3) by simp
  moreover have "alloc_rule1 g c n s ret = (if length ret + length hs = n
      then Inr (True, ?s2, ret @ map (sector_to_loc g p) hs)
      else alloc_rule1 g c n ?s2 (ret @ map (sector_to_loc g p) hs))"
    using assms(4,5) pop v take
    by (subst alloc_rule1.simps) (simp add: update_fn_def Let_def del: de_Morgan_conj not_less)
  moreover have "\<forall>l\<in>set (map (sector_to_loc g p) hs). \<not> page_in_use g s l"
    using hs(2) v page_in_use_empty[OF _ v(2) assms(1)] ok by (auto simp: pages_ok_def loc_sector_no_of_slot)
  moreover have "length ret + length hs \<le> n" using assms(3) by (simp add: hs_def)
  ultimately show ?thesis
    by (intro exI[of _ ?s2] exI[of _ "map (sector_to_loc g p) hs"]) simp
qed

lemma alloc_rule1_ok:
  assumes "geom_paged g" "alloc_inv g s" "length ret < n"
  shows "\<exists>fin s' new. alloc_rule1 g c n s ret = Inr (fin, s', ret @ new) \<and> claims g s s' new
    \<and> alloc_inv g s' \<and> cur_loc s' = cur_loc s
    \<and> (if fin then length ret + length new = n
       else length ret + length new < n \<and> cq_items (empty_pages s') = [])
    \<and> (\<forall>l\<in>set new. \<not> page_in_use g s l)"
  using assms
proof (induction "cq_items (empty_pages s)" arbitrary: s ret)
  case Nil
  then show ?case
    by (subst alloc_rule1.simps)
      (auto simp: cq_pop_Nil Nil(1)[symmetric] intro!: exI[of _ "[]"] claims_refl)
next
  case (Cons p ps)
  note items = Cons.hyps(2)[symmetric]
  show ?case
  proof (cases "no_pollute_original c \<and> p < loc_sector_no g (init_num_pts c)")
    case True
    let ?s = "s\<lparr>empty_pages := (empty_pages s)\<lparr>cq_items := ps\<rparr>\<rparr>"
    have "alloc_rule1 g c n s ret = alloc_rule1 g c n ?s ret"
      using True alloc_inv_pop[OF Cons.prems(2) items] cq_pop_Cons[OF items] items
      by (subst alloc_rule1.simps) simp
    then show ?thesis
      using Cons.hyps(1)[of ?s ret] alloc_inv_pop(4)[OF Cons.prems(2) items] Cons.prems(1,3)
      by (simp add: claims_queue_frame page_in_use_def)
  next
    case False
    obtain s1 new1 where s1: "alloc_rule1 g c n s ret = (if length ret + length new1 = n
          then Inr (True, s1, ret @ new1) else alloc_rule1 g c n s1 (ret @ new1))"
      "claims g s s1 new1" "alloc_inv g s1" "cur_loc s1 = cur_loc s"
      "cq_items (empty_pages s1) = ps" "length ret + length new1 \<le> n"
      "\<forall>l\<in>set new1. \<not> page_in_use g s l"
      using alloc_rule1_page[OF Cons.prems items False] by blast
    show ?thesis
    proof (cases "length ret + length new1 = n")
      case True
      then show ?thesis using s1 by auto
    next
      case F: False
      then obtain fin s' new where "alloc_rule1 g c n s1 (ret @ new1) = Inr (fin, s', (ret @ new1) @ new)"
          "claims g s1 s' new" "alloc_inv g s'" "cur_loc s' = cur_loc s1"
          "if fin then length (ret @ new1) + length new = n
           else length (ret @ new1) + length new < n \<and> cq_items (empty_pages s') = []"
          "\<forall>l\<in>set new. \<not> page_in_use g s1 l"
        using Cons.hyps(1)[of s1 "ret @ new1"] s1 Cons.prems(1) by auto
      then show ?thesis using s1(1,4,7) F claims_trans[OF s1(2)] page_in_use_claims[OF s1(2)]
        by (intro exI[of _ fin] exI[of _ s'] exI[of _ "new1 @ new"]) (auto simp: add.assoc)
    qed
  qed
qed

lemma take_holes_page:
  assumes "geom_paged g" "alloc_inv g s" "cq_items (empty_pages s) = []" "length ret < n"
    and "page_layout s p = Some v"
    and "take_holes g n p [0..<nnodes_per_sector g] v ret = (v', ret')"
  shows "\<exists>new. ret' = ret @ new \<and> claims g s (s\<lparr>page_layout := (page_layout s)(p \<mapsto> v')\<rparr>) new
    \<and> alloc_inv g (s\<lparr>page_layout := (page_layout s)(p \<mapsto> v')\<rparr>) \<and> length ret' \<le> n
    \<and> (\<forall>l\<in>set new. loc_sector_no g l = p)"
proof -
  define hs where "hs = take (n - length ret) (filter (\<lambda>i. v ! i = kInvalidID) [0..<nnodes_per_sector g])"
  have ok: "pages_ok g (cur_loc s) (page_layout s)" using assms(2) by (simp add: alloc_inv_def)
  then have len: "length v = kMaxElemInAPage" using assms(5) by (auto simp: pages_ok_def)
  have eq: "v' = mark hs v" "ret' = ret @ map (sector_to_loc g p) hs"
    using take_holes_ok[of "[0..<nnodes_per_sector g]" v ret n hs g p] assms(1,4,6) len
    by (auto simp: geom_paged_def hs_def)
  have hs: "distinct hs" "\<forall>i\<in>set hs. i < nnodes_per_sector g \<and> v ! i = kInvalidID"
    by (auto simp: hs_def dest: in_set_takeD)
  moreover have "0 < p" using ok assms(5) by (auto simp: pages_ok_def)
  ultimately have pg: "\<forall>l\<in>set (map (sector_to_loc g p) hs). loc_sector_no g l = p"
    by (auto simp: loc_sector_no_of_slot)
  from hs have "claims g s (s\<lparr>page_layout := (page_layout s)(p \<mapsto> v')\<rparr>) (map (sector_to_loc g p) hs)"
    using claims_mark[OF assms(1) ok assms(5)] eq by simp
  moreover have "alloc_inv g (s\<lparr>page_layout := (page_layout s)(p \<mapsto> v')\<rparr>)"
    using assms(2,3,5) eq by (intro alloc_inv_mark) simp_all
  ultimately show ?thesis using eq assms(4) pg by (auto simp: hs_def)
qed

lemma count_holes_less:
  "count_holes g v < nnodes_per_sector g \<longleftrightarrow> (\<exists>i<nnodes_per_sector g. v ! i \<noteq> kInvalidID)"
proof -
  have "count_holes g v + length (filter (\<lambda>i. v ! i \<noteq> kInvalidID) [0..<nnodes_per_sector g]) = nnodes_per_sector g"
    unfolding count_holes_def using sum_length_filter_compl[of _ "[0..<nnodes_per_sector g]"] by simp
  moreover have "0 < length (filter (\<lambda>i. v ! i \<noteq> kInvalidID) [0..<nnodes_per_sector g])
      \<longleftrightarrow> (\<exists>i<nnodes_per_sector g. v ! i \<noteq> kInvalidID)"
    by (auto simp: filter_empty_conv)
  moreover have "count_holes g v < nnodes_per_sector g
      \<longleftrightarrow> 0 < length (filter (\<lambda>i. v ! i \<noteq> kInvalidID) [0..<nnodes_per_sector g])"
    using calculation(1) by linarith
  ultimately show ?thesis by blast
qed

lemma page_in_use_holes:
  assumes "geom_paged g" "page_layout s (loc_sector_no g l) = Some v" "page_in_use g s l"
  shows "count_holes g v < nnodes_per_sector g"
proof -
  obtain l' where "loc_sector_no g l' = loc_sector_no g l" "slots g s l' \<noteq> kInvalidID"
    using assms(3) by (auto simp: page_in_use_def)
  then have "v ! (l' mod nnodes_per_sector g) \<noteq> kInvalidID" using assms(2) by (simp add: slots_def)
  moreover have "l' mod nnodes_per_sector g < nnodes_per_sector g" using assms(1) by (simp add: geom_paged_def)
  ultimately show ?thesis unfolding count_holes_less by blast
qed

lemma alloc_rule2_ok:
  assumes "geom_paged g" "alloc_inv g s" "cq_items (empty_pages s) = []" "length ret < n"
    and "\<forall>p\<in>set ps. p < 2 ^ 32"
  shows "\<exists>fin s' new need'. alloc_rule2 g c n ps s ret need = (fin, s', ret @ new, need')
    \<and> claims g s s' new \<and> alloc_inv g s' \<and> cur_loc s' = cur_loc s \<and> cq_items (empty_pages s') = []
    \<and> (if fin then length ret + length new = n else length ret + length new < n)
    \<and> need \<subseteq> need' \<and> (\<forall>l\<in>set new. page_in_use g s l \<longrightarrow> loc_sector_no g l \<in> need')"
  using assms
proof (induction ps arbitrary: s ret need)
  case Nil
  then show ?case by (auto intro: claims_refl)
next
  case (Cons p ps)
  have u: "u32 p = p" using Cons.prems(5) by (auto intro: u32_small)
  show ?case
  proof (cases "(no_pollute_original c \<and> p < loc_sector_no g (init_num_pts c)) \<or> page_layout s p = None
      \<or> (\<exists>v. page_layout s p = Some v \<and> count_holes g v < alloc_threshold g c)")
    case True
    then have "alloc_rule2 g c n (p # ps) s ret need = alloc_rule2 g c n ps s ret need"
      using Cons.prems(4) by (auto simp: u Let_def)
    then show ?thesis using Cons.IH[of s ret need] Cons.prems by simp
  next
    case False
    then obtain v where v: "page_layout s p = Some v" "\<not> count_holes g v < alloc_threshold g c" by auto
    obtain v' ret' where t: "take_holes g n p [0..<nnodes_per_sector g] v ret = (v', ret')" by fastforce
    let ?s = "s\<lparr>page_layout := (page_layout s)(p \<mapsto> v')\<rparr>"
    let ?need = "if count_holes g v < nnodes_per_sector g then insert p need else need"
    obtain new where new: "ret' = ret @ new" "claims g s ?s new" "alloc_inv g ?s" "length ret' \<le> n"
        "\<forall>l\<in>set new. loc_sector_no g l = p"
      using take_holes_page[OF Cons.prems(1-4) v(1) t] by blast
    have nd: "\<forall>l\<in>set new. page_in_use g s l \<longrightarrow> loc_sector_no g l \<in> ?need"
      using page_in_use_holes[OF Cons.prems(1)] v(1) new(5) by auto
    have unf: "alloc_rule2 g c n (p # ps) s ret need = (if length ret' = n then (True, ?s, ret', ?need)
        else alloc_rule2 g c n ps ?s ret' ?need)"
      using False v t by (auto simp: u Let_def update_fn_def)
    show ?thesis
    proof (cases "length ret' = n")
      case True
      then show ?thesis using unf new nd Cons.prems(3)
        by (intro exI[of _ True] exI[of _ ?s] exI[of _ new] exI[of _ ?need]) auto
    next
      case F: False
      then obtain fin s' new' need' where "alloc_rule2 g c n ps ?s ret' ?need = (fin, s', ret' @ new', need')"
        "claims g ?s s' new'" "alloc_inv g s'" "cur_loc s' = cur_loc s" "cq_items (empty_pages s') = []"
        "if fin then length ret' + length new' = n else length ret' + length new' < n"
        "?need \<subseteq> need'" "\<forall>l\<in>set new'. page_in_use g ?s l \<longrightarrow> loc_sector_no g l \<in> need'"
        using Cons.IH[of ?s ret' ?need] new Cons.prems by (auto simp del: subset_iff)
      moreover have "\<forall>l\<in>set (new @ new'). page_in_use g s l \<longrightarrow> loc_sector_no g l \<in> need'"
        using calculation(7,8) nd page_in_use_claims[OF new(2)] by (auto split: if_splits)
      moreover have "need \<subseteq> need'" using calculation(7) by (auto split: if_splits)
      ultimately show ?thesis using unf F new(1) claims_trans[OF new(2)]
        by (intro exI[of _ fin] exI[of _ s'] exI[of _ "new @ new'"] exI[of _ need'])
          (auto simp: add.assoc simp del: alloc_rule2.simps)
    qed
  qed
qed

lemma fold_set_loc2id:
  assumes "geom_paged g" "pages_ok g e (page_layout s)" "e \<le> kInvalidID" "e mod nnodes_per_sector g = 0"
    and "\<forall>l\<in>set ls. l < e"
  shows "slots g (fold (\<lambda>l s. set_loc2id g s l x) ls s) = (\<lambda>l. if l \<in> set ls then x else slots g s l)
    \<and> pages_ok g e (page_layout (fold (\<lambda>l s. set_loc2id g s l x) ls s))
    \<and> empty_pages (fold (\<lambda>l s. set_loc2id g s l x) ls s) = empty_pages s"
  using assms
proof (induction ls arbitrary: s)
  case (Cons l ls)
  have n: "0 < nnodes_per_sector g" using assms(1) by (simp add: geom_paged_def)
  have l: "l < kInvalidID" "loc_sector_no g l < loc_sector_no g e"
    using Cons.prems n by (auto intro: loc_sector_no_less)
  show ?case
    using Cons.IH[of "set_loc2id g s l x"] Cons.prems pages_ok_set_loc2id[OF Cons.prems(1,2) l]
      slots_set_loc2id[OF Cons.prems(1,2) l(1)] by (auto simp: fun_eq_iff)
qed simp

lemma align_loc_facts:
  assumes "0 < nnodes_per_sector g"
  shows "l \<le> align_loc g l" "align_loc g l < l + nnodes_per_sector g" "align_loc g l mod nnodes_per_sector g = 0"
proof -
  let ?n = "nnodes_per_sector g"
  have m: "l mod ?n < ?n" using assms by simp
  show "l \<le> align_loc g l" by (simp add: align_loc_def)
  show "align_loc g l < l + ?n" using m assms by (auto simp: align_loc_def)
  define q r where "q = l div ?n * ?n" and "r = l mod ?n"
  have "l = q + r" "r < ?n" using m by (auto simp: q_def r_def)
  then have "l + (?n - r) = q + ?n" by simp
  then have "l + (?n - l mod ?n) = (l div ?n + 1) * ?n" by (simp add: q_def r_def)
  then show "align_loc g l mod ?n = 0" by (simp add: align_loc_def)
qed

lemma alloc_rule3_ok:
  assumes "geom_paged g" "alloc_inv g s" "cq_items (empty_pages s) = []" "length ret \<le> n"
    and "cur_loc s + n + nnodes_per_sector g \<le> kInvalidID"
  shows "\<exists>s' new. alloc_rule3 g n s ret = (s', ret @ new) \<and> claims g s s' new \<and> alloc_inv g s'
    \<and> length ret + length new = n \<and> (\<forall>l\<in>set new. \<not> page_in_use g s l)
    \<and> cur_loc s' < cur_loc s + n + nnodes_per_sector g"
proof -
  define r where "r = n - length ret"
  define new where "new = map (\<lambda>i. cur_loc s + i) [0..<r]"
  define e where "e = align_loc g (cur_loc s + r)"
  let ?s = "fold (\<lambda>l s. set_loc2id g s l kAllocatedID) new s"
  have n: "0 < nnodes_per_sector g" using assms(1) by (simp add: geom_paged_def)
  have r: "nat (int n - int (length ret)) = r" "nat (int (cur_loc s) + (int n - int (length ret))) = cur_loc s + r"
    using assms(4) by (auto simp: r_def)
  have e: "cur_loc s + r \<le> e" "e < cur_loc s + r + nnodes_per_sector g" "e mod nnodes_per_sector g = 0"
    using align_loc_facts[OF n] by (auto simp: e_def)
  have eb: "e < kInvalidID" using e assms(4,5) by (auto simp: r_def)
  have inv: "pages_ok g (cur_loc s) (page_layout s)" "cur_loc s mod nnodes_per_sector g = 0"
    using assms(2) by (auto simp: alloc_inv_def)
  have "pages_ok g e (page_layout s)"
    using inv(1) loc_sector_no_mono[of "cur_loc s" e g] e(1) by (fastforce simp: pages_ok_def)
  then have fold: "slots g ?s = (\<lambda>l. if l \<in> set new then kAllocatedID else slots g s l)"
    "pages_ok g e (page_layout ?s)" "empty_pages ?s = empty_pages s"
    using fold_set_loc2id[OF assms(1), of e s new kAllocatedID] e eb by (auto simp: new_def)
  have "loc_sector_no g (cur_loc s) \<le> loc_sector_no g l" if "l \<in> set new" for l
    using that by (intro loc_sector_no_mono) (auto simp: new_def)
  then have fresh: "page_layout s (loc_sector_no g l) = None" if "l \<in> set new" for l
    using inv(1) that by (cases "page_layout s (loc_sector_no g l)") (fastforce simp: pages_ok_def)+
  have "claims g s (?s\<lparr>cur_loc := e\<rparr>) new"
    using fold(1) fresh by (auto simp: claims_def new_def distinct_map slots_def)
  moreover have "alloc_inv g (?s\<lparr>cur_loc := e\<rparr>)"
    using fold(2,3) assms(2,3) e(3) eb by (auto simp: alloc_inv_def queue_ok_def)
  moreover have "alloc_rule3 g n s ret = (?s\<lparr>cur_loc := e\<rparr>, ret @ new)"
    using r by (simp add: alloc_rule3_def Let_def new_def e_def)
  moreover have "\<forall>l\<in>set new. \<not> page_in_use g s l" using fresh by (auto simp: page_in_use_def slots_def)
  ultimately show ?thesis using assms(4) e(2)
    by (intro exI[of _ "?s\<lparr>cur_loc := e\<rparr>"] exI[of _ new]) (simp add: new_def r_def)
qed

section \<open>Allocation is correct\<close>

lemma claims_loc2id:
  assumes "geom_paged g" "alloc_inv g s" "alloc_inv g s'" "claims g s s' ret"
  shows "distinct ret \<and> (\<forall>l\<in>set ret. l < cur_loc s' \<and> loc2id g s l = kInvalidID \<and> loc2id g s' l = kAllocatedID)
    \<and> (\<forall>l<kInvalidID. l \<notin> set ret \<longrightarrow> loc2id g s' l = loc2id g s l)"
proof -
  have "l < cur_loc s'" if "l \<in> set ret" for l
    using that assms(4) slots_live_bound[OF assms(3), of l] sentinels_distinct by (auto simp: claims_def)
  moreover have "cur_loc s' < kInvalidID" using assms(3) by (simp add: alloc_inv_def)
  ultimately have "l < kInvalidID" if "l \<in> set ret" for l using that by (meson order_less_trans)
  then show ?thesis using assms(4) \<open>\<And>l. l \<in> set ret \<Longrightarrow> l < cur_loc s'\<close>
    by (auto simp: claims_def loc2id_slots[OF assms(1)])
qed

lemma alloc_loc_claims:
  assumes "geom_paged g" "alloc_inv g s" "0 < n" "cur_loc s + n + nnodes_per_sector g \<le> kInvalidID"
    and "\<forall>p\<in>set hint_pages. p < 2 ^ 32"
  shows "\<exists>ret need' s'. alloc_loc g c s n hint_pages need = Inr (ret, need', s') \<and> length ret = n
    \<and> claims g s s' ret \<and> alloc_inv g s'
    \<and> (\<forall>l\<in>set ret. page_in_use g s l \<longrightarrow> loc_sector_no g l \<in> need')
    \<and> cur_loc s' < cur_loc s + n + nnodes_per_sector g"
proof -
  have n: "0 < nnodes_per_sector g" using assms(1) by (simp add: geom_paged_def)
  obtain fin1 s1 r1 where 1: "alloc_rule1 g c n s [] = Inr (fin1, s1, r1)" "claims g s s1 r1" "alloc_inv g s1"
    "cur_loc s1 = cur_loc s"
    "if fin1 then length r1 = n else length r1 < n \<and> cq_items (empty_pages s1) = []"
    "\<forall>l\<in>set r1. \<not> page_in_use g s l"
    using alloc_rule1_ok[OF assms(1,2), of "[]" n c] assms(3) by (metis add_0 append_Nil list.size(3))
  show ?thesis
  proof (cases fin1)
    case True
    then show ?thesis using 1 n by (simp add: alloc_loc_def)
  next
    case False
    then have q: "length r1 < n" "cq_items (empty_pages s1) = []" using 1(5) by simp_all
    obtain fin2 s2 r2 need2 where 2: "alloc_rule2 g c n hint_pages s1 r1 need = (fin2, s2, r1 @ r2, need2)"
      "claims g s1 s2 r2" "alloc_inv g s2" "cur_loc s2 = cur_loc s1" "cq_items (empty_pages s2) = []"
      "if fin2 then length r1 + length r2 = n else length r1 + length r2 < n"
      "\<forall>l\<in>set r2. page_in_use g s1 l \<longrightarrow> loc_sector_no g l \<in> need2"
      using alloc_rule2_ok[OF assms(1) 1(3) q(2,1) assms(5), of c need] by blast
    have nd: "\<forall>l\<in>set (r1 @ r2). page_in_use g s l \<longrightarrow> loc_sector_no g l \<in> need2"
      using 1(6) 2(7) page_in_use_claims[OF 1(2)] by auto
    have c2: "claims g s s2 (r1 @ r2)" using claims_trans[OF 1(2) 2(2)] .
    show ?thesis
    proof (cases fin2)
      case True
      then show ?thesis using 1(1,4) 2 False c2 nd n by (simp add: alloc_loc_def)
    next
      case F: False
      then obtain s3 r3 where 3: "alloc_rule3 g n s2 (r1 @ r2) = (s3, (r1 @ r2) @ r3)" "claims g s2 s3 r3"
        "alloc_inv g s3" "length (r1 @ r2) + length r3 = n" "\<forall>l\<in>set r3. \<not> page_in_use g s2 l"
        "cur_loc s3 < cur_loc s + n + nnodes_per_sector g"
        using alloc_rule3_ok[OF assms(1) 2(3,5), of "r1 @ r2" n] 2(4,6) 1(4) assms(4) by auto
      moreover have "\<forall>l\<in>set ((r1 @ r2) @ r3). page_in_use g s l \<longrightarrow> loc_sector_no g l \<in> need2"
        using nd 3(5) page_in_use_claims[OF c2] by auto
      ultimately show ?thesis using 1(1) 2(1) False F claims_trans[OF c2 3(2)] by (simp add: alloc_loc_def)
    qed
  qed
qed

text \<open>
  C7. On a well-formed allocator \<^verbatim>\<open>alloc_loc(n, ...)\<close> never crashes: it returns \<open>n\<close> distinct locations
  that were free and are now reserved, changes no other slot of the file (in particular no slot that
  holds a live node), keeps every returned location below \<^verbatim>\<open>cur_loc\<close>, and keeps the allocator
  well-formed.
\<close>

theorem alloc_loc_correct:
  assumes "geom_paged g" "alloc_inv g s" "0 < n" "cur_loc s + n + nnodes_per_sector g \<le> kInvalidID"
    and "\<forall>p\<in>set hint_pages. p < 2 ^ 32"
  shows "\<exists>ret need' s'. alloc_loc g c s n hint_pages need = Inr (ret, need', s') \<and> length ret = n
    \<and> distinct ret
    \<and> (\<forall>l\<in>set ret. l < cur_loc s' \<and> loc2id g s l = kInvalidID \<and> loc2id g s' l = kAllocatedID)
    \<and> (\<forall>l<kInvalidID. l \<notin> set ret \<longrightarrow> loc2id g s' l = loc2id g s l)
    \<and> alloc_inv g s'"
proof -
  obtain ret need' s' where r: "alloc_loc g c s n hint_pages need = Inr (ret, need', s')" "length ret = n"
    "claims g s s' ret" "alloc_inv g s'" using alloc_loc_claims[OF assms, of c need] by blast
  then show ?thesis using claims_loc2id[OF assms(1,2) r(4,3)] by blast
qed

text \<open>A two-page file used by the witnesses: page 2 has three holes.\<close>

definition ex_geom :: geom where
  "ex_geom = \<lparr>data_dim = 100, elem_size = 1, max_node_len = 1024, nnodes_per_sector = 4\<rparr>"

definition ex_alloc :: alloc_state where
  "ex_alloc = \<lparr>page_layout = [1 \<mapsto> [0, 1, 2, 3] @ replicate 12 0,
                              2 \<mapsto> [kInvalidID, kInvalidID, 4, kInvalidID] @ replicate 12 0],
     empty_pages = cq_new kInvalidID, cur_loc = 8\<rparr>"

lemma ex_geom_paged: "geom_paged ex_geom"
  by (simp add: geom_paged_def geom_ok_def ex_geom_def SECTOR_LEN_def kMaxElemInAPage_def)

lemma ex_alloc_inv: "alloc_inv ex_geom ex_alloc"
  by (simp add: alloc_inv_def pages_ok_def queue_ok_def ex_geom_def ex_alloc_def cq_new_def
      kInvalidID_def kMaxElemInAPage_def loc_sector_no_def)

definition ex_alloc2 :: alloc_state where
  "ex_alloc2 = ex_alloc\<lparr>page_layout :=
     (page_layout ex_alloc)(2 \<mapsto> [kAllocatedID, kAllocatedID, 4, kInvalidID] @ replicate 12 0)\<rparr>"

lemma ex_alloc_run: "alloc_loc ex_geom default_config ex_alloc 2 [2] {} = Inr ([4, 5], {2}, ex_alloc2)"
  by (simp add: alloc_loc_def alloc_rule1.simps cq_pop_def ex_alloc2_def ex_alloc_def ex_geom_def
      default_config_def cq_new_def u32_def count_holes_def alloc_threshold_def kIndexSizeFactor_def
      sector_to_loc_def update_fn_def kInvalidID_def kAllocatedID_def Let_def upt_4)

lemma ex_alloc2_claims: "claims ex_geom ex_alloc ex_alloc2 [4, 5]" "alloc_inv ex_geom ex_alloc2"
proof -
  have "cur_loc ex_alloc + 2 + nnodes_per_sector ex_geom \<le> kInvalidID"
    by (simp add: ex_alloc_def ex_geom_def kInvalidID_def)
  from alloc_loc_claims[OF ex_geom_paged ex_alloc_inv _ this, of "[2]" default_config "{}"] ex_alloc_run
  show "claims ex_geom ex_alloc ex_alloc2 [4, 5]" "alloc_inv ex_geom ex_alloc2" by auto
qed

theorem alloc_loc_correct_witness:
  "\<exists>ret need' s'. alloc_loc ex_geom default_config ex_alloc 5 [2] {} = Inr (ret, need', s')
    \<and> length ret = 5 \<and> distinct ret \<and> loc2id ex_geom s' 6 = 4"
proof -
  have f: "cur_loc ex_alloc + 5 + nnodes_per_sector ex_geom \<le> kInvalidID"
    by (simp add: ex_alloc_def ex_geom_def kInvalidID_def)
  obtain ret need' s' where r: "alloc_loc ex_geom default_config ex_alloc 5 [2] {} = Inr (ret, need', s')"
    "length ret = 5" "distinct ret"
    "\<forall>l\<in>set ret. l < cur_loc s' \<and> loc2id ex_geom ex_alloc l = kInvalidID \<and> loc2id ex_geom s' l = kAllocatedID"
    "\<forall>l<kInvalidID. l \<notin> set ret \<longrightarrow> loc2id ex_geom s' l = loc2id ex_geom ex_alloc l"
    using alloc_loc_correct[OF ex_geom_paged ex_alloc_inv _ f, of "[2]" default_config "{}"] by auto
  have "loc2id ex_geom ex_alloc 6 = 4"
    by (simp add: loc2id_def ex_geom_def ex_alloc_def find_fn_def u32_def loc_sector_no_def)
  moreover have "(4 :: nat) \<noteq> kInvalidID" "(6 :: nat) < kInvalidID" by (simp_all add: kInvalidID_def)
  ultimately have "loc2id ex_geom s' 6 = 4" using r(4,5) by auto
  then show ?thesis using r(1-3) by blast
qed

text \<open>
  C22. A location that \<^verbatim>\<open>alloc_loc\<close> hands out in a page where some slot is in use has its page among the
  pages to read, so that a page is never rewritten without the nodes that live in it.
\<close>

theorem alloc_loc_reads_shared_pages:
  assumes "geom_paged g" "alloc_inv g s" "0 < n" "cur_loc s + n + nnodes_per_sector g \<le> kInvalidID"
    and "\<forall>p\<in>set hint_pages. p < 2 ^ 32"
    and "alloc_loc g c s n hint_pages need = Inr (ret, need', s')"
    and "l \<in> set ret" "l' < kInvalidID" "loc_sector_no g l' = loc_sector_no g l" "loc2id g s l' \<noteq> kInvalidID"
  shows "loc_sector_no g l \<in> need'"
proof -
  have "page_in_use g s l"
    using assms(8-10) loc2id_slots[OF assms(1)] by (auto simp: page_in_use_def)
  then show ?thesis using alloc_loc_claims[OF assms(1-5), of c need] assms(6,7) by auto
qed

theorem alloc_loc_reads_shared_pages_witness:
  "\<exists>ret need' s'. alloc_loc ex_geom default_config ex_alloc 2 [2] {} = Inr (ret, need', s')
    \<and> ret = [4, 5] \<and> 2 \<in> need'"
proof -
  have "loc_sector_no ex_geom 4 \<in> {2 :: nat}"
    by (rule alloc_loc_reads_shared_pages[OF ex_geom_paged ex_alloc_inv _ _ _ ex_alloc_run, of 4 6])
      (simp_all add: ex_alloc_def ex_geom_def kInvalidID_def loc_sector_no_def loc2id_def find_fn_def u32_def)
  then show ?thesis using ex_alloc_run by auto
qed

section \<open>Publishing and freeing\<close>

lemma live_page:
  assumes "alloc_inv g s" "slots g s l \<noteq> kInvalidID" "geom_paged g"
  shows "\<exists>v. page_layout s (loc_sector_no g l) = Some v"
    and "loc_sector_no g l \<notin> set (cq_items (empty_pages s))"
proof -
  show *: "\<exists>v. page_layout s (loc_sector_no g l) = Some v"
    using assms(2) by (cases "page_layout s (loc_sector_no g l)") (auto simp: slots_def)
  show "loc_sector_no g l \<notin> set (cq_items (empty_pages s))"
  proof
    assume "loc_sector_no g l \<in> set (cq_items (empty_pages s))"
    then obtain v where "page_layout s (loc_sector_no g l) = Some v" "page_is_empty g v"
      using assms(1) by (auto simp: alloc_inv_def queue_ok_def)
    then have "slots g s l = kInvalidID" using assms(3) by (simp add: slots_def page_is_empty_iff geom_paged_def)
    then show False using assms(2) by simp
  qed
qed

lemma alloc_inv_set:
  assumes "geom_paged g" "alloc_inv g s" "slots g s l \<noteq> kInvalidID"
  shows "alloc_inv g (set_loc2id g s l x)" "slots g (set_loc2id g s l x) = (slots g s)(l := x)"
proof -
  have l: "l < kInvalidID" "loc_sector_no g l < loc_sector_no g (cur_loc s)"
    using slots_live_bound[OF assms(2,3)] assms(1,2)
    by (auto simp: alloc_inv_def geom_paged_def intro: loc_sector_no_less)
  obtain v where v: "page_layout s (loc_sector_no g l) = Some v" using live_page(1)[OF assms(2,3,1)] by blast
  have "set_loc2id g s l x =
      s\<lparr>page_layout := (page_layout s)(loc_sector_no g l \<mapsto> v[l mod nnodes_per_sector g := x])\<rparr>"
    using set_loc2id_page[OF assms(1) l(1)] v by simp
  then show "alloc_inv g (set_loc2id g s l x)"
    using alloc_inv_mark[OF assms(2) v live_page(2)[OF assms(2,3,1)]] by simp
  show "slots g (set_loc2id g s l x) = (slots g s)(l := x)"
    using slots_set_loc2id[OF assms(1) _ l(1)] assms(2) by (auto simp: alloc_inv_def)
qed

lemma alloc_inv_erase:
  assumes "geom_paged g" "alloc_inv g s" "slots g s l \<noteq> kInvalidID"
  shows "alloc_inv g (erase_loc2id g s l)" "slots g (erase_loc2id g s l) = (slots g s)(l := kInvalidID)"
proof -
  have ok: "pages_ok g (cur_loc s) (page_layout s)" using assms(2) by (simp add: alloc_inv_def)
  have l: "l < kInvalidID" using slots_live_bound[OF assms(2,3)] assms(2) by (auto simp: alloc_inv_def)
  obtain v where v: "page_layout s (loc_sector_no g l) = Some v" using live_page(1)[OF assms(2,3,1)] by blast
  note q = live_page(2)[OF assms(2,3,1)]
  show "slots g (erase_loc2id g s l) = (slots g s)(l := kInvalidID)"
    using slots_erase_loc2id[OF assms(1) ok l v] .
  have "alloc_inv g (s\<lparr>page_layout := (page_layout s)(loc_sector_no g l \<mapsto> v[l mod nnodes_per_sector g := kInvalidID])\<rparr>)"
    using alloc_inv_mark[OF assms(2) v q] by simp
  then show "alloc_inv g (erase_loc2id g s l)"
    using q by (auto simp: erase_loc2id_page[OF assms(1) l v] alloc_inv_def queue_ok_def)
qed

lemma fold_set_live:
  assumes "geom_paged g" "alloc_inv g s" "distinct (map fst ws)" "\<forall>l\<in>fst ` set ws. slots g s l \<noteq> kInvalidID"
  shows "alloc_inv g (fold (\<lambda>(l, i) s. set_loc2id g s l i) ws s)
    \<and> slots g (fold (\<lambda>(l, i) s. set_loc2id g s l i) ws s) =
        (\<lambda>l. case map_of ws l of Some i \<Rightarrow> i | None \<Rightarrow> slots g s l)"
  using assms
proof (induction ws arbitrary: s)
  case (Cons w ws)
  obtain l i where w: "w = (l, i)" by fastforce
  let ?s = "set_loc2id g s l i"
  have s: "alloc_inv g ?s" "slots g ?s = (slots g s)(l := i)"
    using alloc_inv_set[OF Cons.prems(1,2), of l i] Cons.prems(4) w by auto
  have "\<forall>l'\<in>fst ` set ws. slots g ?s l' \<noteq> kInvalidID"
    using Cons.prems(3,4) w s(2) by (metis (no_types, lifting) distinct.simps(2) fst_conv fun_upd_apply
        image_set insert_iff list.simps(15) list.simps(9))
  moreover have "map_of ws l = None" using Cons.prems(3) w by (auto simp: map_of_eq_None_iff)
  ultimately show ?case using Cons.IH[of ?s] Cons.prems(1,3) s w
    by (auto simp: fun_eq_iff split: option.split)
qed simp

lemma fold_erase_live:
  assumes "geom_paged g" "alloc_inv g s" "distinct ls" "\<forall>l\<in>set ls. slots g s l \<noteq> kInvalidID"
  shows "alloc_inv g (fold (\<lambda>l s. erase_loc2id g s l) ls s)
    \<and> slots g (fold (\<lambda>l s. erase_loc2id g s l) ls s) = (\<lambda>l. if l \<in> set ls then kInvalidID else slots g s l)"
  using assms
proof (induction ls arbitrary: s)
  case (Cons l ls)
  let ?s = "erase_loc2id g s l"
  have s: "alloc_inv g ?s" "slots g ?s = (slots g s)(l := kInvalidID)"
    using alloc_inv_erase[OF Cons.prems(1,2), of l] Cons.prems(4) by auto
  have "\<forall>l'\<in>set ls. slots g ?s l' \<noteq> kInvalidID" using Cons.prems(3,4) s(2) by auto
  then show ?case using Cons.IH[of ?s] Cons.prems(1,3) s by (auto simp: fun_eq_iff)
qed simp

lemma erase_and_set_loc_slots:
  assumes "geom_paged g" "alloc_inv g s" "length new_ids = length new_locs"
    and "distinct new_locs" "\<forall>l\<in>set new_locs. slots g s l \<noteq> kInvalidID"
    and "distinct old_locs" "\<forall>l\<in>set old_locs. slots g s l \<noteq> kInvalidID" "set old_locs \<inter> set new_locs = {}"
  shows "\<exists>s'. erase_and_set_loc g s old_locs new_locs new_ids = Inr s' \<and> alloc_inv g s'
    \<and> slots g s' = (\<lambda>l. if l \<in> set old_locs then kInvalidID
         else case map_of (zip new_locs new_ids) l of Some i \<Rightarrow> i | None \<Rightarrow> slots g s l)"
proof -
  let ?s = "fold (\<lambda>(l, i) s. set_loc2id g s l i) (zip new_locs new_ids) s"
  have ws: "\<forall>l\<in>fst ` set (zip new_locs new_ids). slots g s l \<noteq> kInvalidID"
    using assms(5) by (auto dest: set_zip_leftD)
  have 1: "alloc_inv g ?s" "slots g ?s = (\<lambda>l. case map_of (zip new_locs new_ids) l of Some i \<Rightarrow> i | None \<Rightarrow> slots g s l)"
    using fold_set_live[OF assms(1,2) _ ws] assms(3,4) by auto
  have "map_of (zip new_locs new_ids) l = None" if "l \<in> set old_locs" for l
    using that assms(8) by (auto simp: map_of_eq_None_iff dest: set_zip_leftD)
  then have "\<forall>l\<in>set old_locs. slots g ?s l \<noteq> kInvalidID" using assms(7) 1(2) by simp
  from fold_erase_live[OF assms(1) 1(1) assms(6) this] show ?thesis
    using assms(3) by (auto simp: erase_and_set_loc_def 1(2))
qed

end
