(* ===== verification/Id_Map.thy ===== *)
theory Id_Map
  imports Allocator
begin

text \<open>
  The logical-id tables of the index (\<^verbatim>\<open>include/ssd_index.h\<close>): \<^verbatim>\<open>id2loc_\<close> gives the current
  location of a node id, \<^verbatim>\<open>tags\<close> its user tag, \<^verbatim>\<open>id2loc_pm_queue\<close> the location entries that still
  have to reach persistent memory, and the allocator's layout table is the reverse map. The switch
  of a set of nodes to new locations is \<open>publish\<close>: it keeps the two maps inverse to each other.
\<close>

record meta_state =
  alloc :: alloc_state
  id2loc_map :: "nat \<rightharpoonup> nat"
  tags :: "nat \<rightharpoonup> nat"
  id2loc_pm_queue :: "(nat \<times> nat) ConcurrentQueue"
  cur_id :: nat

text \<open>If a tag equals its id it is not stored.\<close>

definition id2tag :: "meta_state \<Rightarrow> nat \<Rightarrow> nat" where
  "id2tag m i = (case tags m i of Some t \<Rightarrow> t | None \<Rightarrow> i)"

definition id2loc :: "meta_state \<Rightarrow> nat \<Rightarrow> nat outcome" where
  "id2loc m i = (case id2loc_map m i of Some loc \<Rightarrow> Inr loc | None \<Rightarrow> Inl Trap)"

text \<open>The callback runs inside the bucket lock, on the mapped value.\<close>

definition id2loc_func :: "meta_state \<Rightarrow> nat \<Rightarrow> (nat \<Rightarrow> 'r) \<Rightarrow> (nat \<times> 'r) outcome" where
  "id2loc_func m i func = (case find_fn (id2loc_map m) i of Some v \<Rightarrow> Inr (v, func v) | None \<Rightarrow> Inl Trap)"

definition id2loc_insert_or_assign :: "meta_state \<Rightarrow> nat \<Rightarrow> nat \<Rightarrow> meta_state" where
  "id2loc_insert_or_assign m i loc =
     m\<lparr>id2loc_map := snd (insert_or_assign (id2loc_map m) i loc),
       id2loc_pm_queue := cq_push (id2loc_pm_queue m) (i, loc)\<rparr>"

definition id2page :: "geom \<Rightarrow> meta_state \<Rightarrow> nat \<Rightarrow> nat outcome" where
  "id2page g m i =
     and_then (id2loc m i) (\<lambda>loc. Inr (if loc = kInvalidID then kInvalidID else loc_sector_no g loc))"

definition node_sector_no :: "geom \<Rightarrow> meta_state \<Rightarrow> nat \<Rightarrow> nat outcome" where
  "node_sector_no g m i = and_then (id2loc m i) (\<lambda>loc. Inr (loc_sector_no g loc))"

definition offset_to_node :: "geom \<Rightarrow> meta_state \<Rightarrow> nat \<Rightarrow> nat \<Rightarrow> nat outcome" where
  "offset_to_node g m sector_buf i = and_then (id2loc m i) (\<lambda>loc. Inr (offset_to_loc g sector_buf loc))"

definition u_node_offset :: "geom \<Rightarrow> meta_state \<Rightarrow> nat \<Rightarrow> nat outcome" where
  "u_node_offset g m i = and_then (id2loc m i) (\<lambda>loc. Inr (u_loc_offset g loc))"

text \<open>
  \<^verbatim>\<open>verify_id2loc\<close>: the first loop crashes on an id whose location is missing, beyond the end of the
  file or not mapped back; the second one only logs, but its lookup of a stored id crashes when the
  id is not mapped. The number of logged inconsistencies is the result.
\<close>

fun verify_ids :: "geom \<Rightarrow> meta_state \<Rightarrow> nat list \<Rightarrow> unit outcome" where
  "verify_ids g m [] = Inr ()"
| "verify_ids g m (i # is) =
     and_then (id2loc m i) (\<lambda>loc.
       if loc \<ge> cur_loc (alloc m) then Inl Trap
       else if loc2id g (alloc m) loc \<noteq> i then Inl Trap
       else verify_ids g m is)"

fun verify_locs :: "geom \<Rightarrow> meta_state \<Rightarrow> nat list \<Rightarrow> nat outcome" where
  "verify_locs g m [] = Inr 0"
| "verify_locs g m (l # ls) =
     (let i = loc2id g (alloc m) l
      in if i \<noteq> kInvalidID \<and> i \<noteq> kAllocatedID
         then and_then (id2loc m i) (\<lambda>loc. and_then (verify_locs g m ls) (\<lambda>k.
                Inr (if loc \<noteq> l then Suc k else k)))
         else verify_locs g m ls)"

definition verify_id2loc :: "geom \<Rightarrow> meta_state \<Rightarrow> nat outcome" where
  "verify_id2loc g m =
     and_then (verify_ids g m [0..<cur_id m]) (\<lambda>_. verify_locs g m [0..<cur_loc (alloc m)])"

section \<open>Switching nodes to their new locations\<close>

text \<open>
  The location switch of \<^verbatim>\<open>insert_phase_pm\<close> with fine-grained concurrency: the old locations are
  collected while each neighbour is switched.
\<close>

fun switch_nbrs :: "meta_state \<Rightarrow> nat list \<Rightarrow> nat list \<Rightarrow> nat list \<Rightarrow> (meta_state \<times> nat list) outcome" where
  "switch_nbrs m [] locs orig = Inr (m, orig)"
| "switch_nbrs m (i # is) [] orig = Inl Undefined"
| "switch_nbrs m (i # is) (l # ls) orig =
     and_then (id2loc m i) (\<lambda>old.
       switch_nbrs (id2loc_insert_or_assign m i (u32 l)) is ls (orig @ [old]))"

definition publish :: "geom \<Rightarrow> meta_state \<Rightarrow> nat \<Rightarrow> nat list \<Rightarrow> nat list \<Rightarrow> meta_state outcome" where
  "publish g m target_id new_nhood locs =
     (let m = m\<lparr>id2loc_map := snd (insert_or_assign (id2loc_map m) target_id (u32 (locs ! length new_nhood)))\<rparr>
      in and_then (switch_nbrs m new_nhood locs []) (\<lambda>(m, orig_locs).
           and_then (erase_and_set_loc g (alloc m) orig_locs locs (new_nhood @ [target_id])) (\<lambda>a.
             Inr (m\<lparr>alloc := a\<rparr>))))"

section \<open>The two maps are inverse to each other\<close>

definition map_inv :: "geom \<Rightarrow> meta_state \<Rightarrow> bool" where
  "map_inv g m \<longleftrightarrow> alloc_inv g (alloc m)
     \<and> (\<forall>i l. id2loc_map m i = Some l \<longrightarrow> i < kAllocatedID \<and> slots g (alloc m) l = i)
     \<and> (\<forall>l. slots g (alloc m) l \<notin> {kInvalidID, kAllocatedID} \<longrightarrow>
           id2loc_map m (slots g (alloc m) l) = Some l)"

lemma map_invD:
  assumes "map_inv g m" "id2loc_map m i = Some l"
  shows "i < kAllocatedID" "slots g (alloc m) l = i" "l < cur_loc (alloc m)" "l < kInvalidID"
proof -
  show *: "i < kAllocatedID" "slots g (alloc m) l = i" using assms by (auto simp: map_inv_def)
  have inv: "alloc_inv g (alloc m)" using assms(1) by (simp add: map_inv_def)
  show "l < cur_loc (alloc m)"
    using * by (intro slots_live_bound[OF inv]) (auto simp: kAllocatedID_def kInvalidID_def)
  then show "l < kInvalidID" using inv by (simp add: alloc_inv_def)
qed

lemma map_inv_inj: "\<lbrakk>map_inv g m; id2loc_map m i = Some l; id2loc_map m j = Some l\<rbrakk> \<Longrightarrow> i = j"
  using map_invD(2) by metis

lemma verify_ids_iff:
  "verify_ids g m is = Inr () \<longleftrightarrow>
     (\<forall>i\<in>set is. \<exists>l. id2loc_map m i = Some l \<and> l < cur_loc (alloc m) \<and> loc2id g (alloc m) l = i)"
  by (induction "is") (auto simp: id2loc_def split: option.split)

lemma verify_locs_ok:
  assumes "geom_paged g" "map_inv g m" "\<forall>l\<in>set ls. l < kInvalidID"
  shows "verify_locs g m ls = Inr 0"
  using assms(3)
proof (induction ls)
  case (Cons l ls)
  then have "loc2id g (alloc m) l = slots g (alloc m) l" by (intro loc2id_slots[OF assms(1)]) simp
  then show ?case using Cons assms(2) by (auto simp: Let_def map_inv_def id2loc_def)
qed simp


text \<open>Five nodes in the two-page file of the allocator's example.\<close>

definition ex_meta :: meta_state where
  "ex_meta = \<lparr>alloc = ex_alloc, id2loc_map = [0 \<mapsto> 0, 1 \<mapsto> 1, 2 \<mapsto> 2, 3 \<mapsto> 3, 4 \<mapsto> 6], tags = Map.empty,
     id2loc_pm_queue = cq_new (kInvalidID, kInvalidID), cur_id = 5\<rparr>"

lemma ex_slots:
  "slots ex_geom ex_alloc l = (if l < 4 then l else if l = 6 then 4 else kInvalidID)"
proof -
  have "l div 4 = 0 \<longleftrightarrow> l < 4" "Suc (l div 4) = 2 \<longleftrightarrow> l = 4 \<or> l = 5 \<or> l = 6 \<or> l = 7" by auto
  then show ?thesis
    by (auto simp: slots_def ex_geom_def ex_alloc_def loc_sector_no_def nth_Cons' kInvalidID_def)
qed

lemma less_5: "(l :: nat) < 5 \<longleftrightarrow> l = 0 \<or> l = 1 \<or> l = 2 \<or> l = 3 \<or> l = 4"
  by arith

lemma ex_map_inv: "map_inv ex_geom ex_meta"
proof -
  have "id2loc_map ex_meta (slots ex_geom ex_alloc l) = Some l"
    if "slots ex_geom ex_alloc l \<notin> {kInvalidID, kAllocatedID}" for l
    using that less_5[of l] by (auto simp: ex_slots ex_meta_def split: if_splits)
  moreover have "i < kAllocatedID \<and> slots ex_geom ex_alloc l = i" if "id2loc_map ex_meta i = Some l" for i l
    using that by (auto simp: ex_slots ex_meta_def kAllocatedID_def split: if_splits)
  ultimately show ?thesis using ex_alloc_inv by (simp add: map_inv_def ex_meta_def)
qed


section \<open>The switch keeps the maps inverse\<close>

lemma switch_nbrs_ok:
  assumes "distinct is" "set is \<subseteq> dom (id2loc_map m)" "length is \<le> length ls" "\<forall>l\<in>set ls. l < 2 ^ 32"
  shows "switch_nbrs m is ls orig = Inr
    (m\<lparr>id2loc_map := id2loc_map m ++ map_of (zip is ls),
       id2loc_pm_queue := (id2loc_pm_queue m)\<lparr>cq_items := cq_items (id2loc_pm_queue m) @ zip is ls\<rparr>\<rparr>,
     orig @ map (the \<circ> id2loc_map m) is)"
  using assms
proof (induction m "is" ls orig rule: switch_nbrs.induct)
  case (3 m i "is" l ls orig)
  obtain old where old: "id2loc_map m i = Some old" using "3.prems"(2) by auto
  let ?m = "id2loc_insert_or_assign m i (u32 l)"
  have u: "u32 l = l" using "3.prems"(4) by (auto intro: u32_small)
  have m: "id2loc_map ?m = (id2loc_map m)(i \<mapsto> l)" by (simp add: id2loc_insert_or_assign_def u)
  have "switch_nbrs ?m is ls (orig @ [old]) = Inr
    (?m\<lparr>id2loc_map := id2loc_map ?m ++ map_of (zip is ls),
        id2loc_pm_queue := (id2loc_pm_queue ?m)\<lparr>cq_items := cq_items (id2loc_pm_queue ?m) @ zip is ls\<rparr>\<rparr>,
     (orig @ [old]) @ map (the \<circ> id2loc_map ?m) is)"
    using "3.prems" old m by (intro "3.IH") auto
  moreover have "map (the \<circ> id2loc_map ?m) is = map (the \<circ> id2loc_map m) is"
    using "3.prems"(1) m by auto
  moreover define f where "f = map_of (zip (i # is) (l # ls))"
  moreover have "(id2loc_map m)(i \<mapsto> l) ++ map_of (zip is ls) = id2loc_map m ++ f"
    unfolding f_def using "3.prems"(1) map_of_zip_notin[of i "is" ls] by (simp add: map_add_upd_left domIff)
  ultimately show ?case unfolding f_def[symmetric] using old m
    by (simp add: id2loc_def id2loc_insert_or_assign_def u cq_push_def)
qed auto

lemma switch_nbrs_frame: "switch_nbrs m is ls orig = Inr (m', orig') \<Longrightarrow> tags m' = tags m \<and> cur_id m' = cur_id m"
  by (induction m "is" ls orig rule: switch_nbrs.induct)
    (auto simp: and_then_eq_Inr id2loc_insert_or_assign_def)

lemma publish_frame: "publish g m t nh locs = Inr m' \<Longrightarrow> tags m' = tags m \<and> cur_id m' = cur_id m"
  by (auto simp: publish_def Let_def and_then_eq_Inr dest: switch_nbrs_frame)

text \<open>The map after the switch, and the slots after the layout table follows it.\<close>

lemma publish_run:
  assumes g: "geom_paged g" and inv: "map_inv g m"
    and nh: "distinct new_nhood" "set new_nhood \<subseteq> dom (id2loc_map m)"
    and t: "target_id \<notin> dom (id2loc_map m)"
    and ls: "length locs = Suc (length new_nhood)" "distinct locs" "\<forall>l\<in>set locs. slots g (alloc m) l = kAllocatedID"
  shows "\<exists>m'. publish g m target_id new_nhood locs = Inr m' \<and> alloc_inv g (alloc m')
    \<and> id2loc_map m' = id2loc_map m ++ map_of (zip (new_nhood @ [target_id]) locs)
    \<and> cq_items (id2loc_pm_queue m') = cq_items (id2loc_pm_queue m) @ zip new_nhood locs
    \<and> slots g (alloc m') = (\<lambda>l. if l \<in> (the \<circ> id2loc_map m) ` set new_nhood then kInvalidID
         else case map_of (zip locs (new_nhood @ [target_id])) l of Some i \<Rightarrow> i | None \<Rightarrow> slots g (alloc m) l)"
proof -
  have ai: "alloc_inv g (alloc m)" using inv by (simp add: map_inv_def)
  obtain ls' l where locs: "locs = ls' @ [l]" "length ls' = length new_nhood"
    using ls(1) by (cases locs rule: rev_cases) auto
  have bound: "l' < kInvalidID" if "l' \<in> set locs" for l'
  proof -
    have "l' < cur_loc (alloc m)"
      using slots_live_bound[OF ai, of l'] that ls(3) sentinels_distinct by auto
    then show ?thesis using ai by (simp add: alloc_inv_def)
  qed
  moreover have "kInvalidID < 2 ^ 32" by (simp add: kInvalidID_def)
  ultimately have small: "\<forall>l'\<in>set locs. l' < 2 ^ 32" by (meson order_less_trans)
  let ?m = "m\<lparr>id2loc_map := (id2loc_map m)(target_id \<mapsto> l)\<rparr>"
  define old where "old = map (the \<circ> id2loc_map m) new_nhood"
  have tn: "target_id \<notin> set new_nhood" using nh(2) t by auto
  have u: "u32 l = l" using small locs by (intro u32_small) simp
  have zip: "zip new_nhood locs = zip new_nhood ls'" using locs by (simp add: zip_snoc_same)
  have sw: "switch_nbrs ?m new_nhood locs [] = Inr
    (?m\<lparr>id2loc_map := (id2loc_map m)(target_id \<mapsto> l) ++ map_of (zip new_nhood ls'),
        id2loc_pm_queue := (id2loc_pm_queue m)\<lparr>cq_items := cq_items (id2loc_pm_queue m) @ zip new_nhood ls'\<rparr>\<rparr>, old)"
  proof -
    have "map (the \<circ> id2loc_map ?m) new_nhood = old" using tn by (auto simp: old_def)
    moreover have "set new_nhood \<subseteq> dom (id2loc_map ?m)" using nh(2) by auto
    ultimately show ?thesis using switch_nbrs_ok[OF nh(1), of ?m locs "[]"] ls(1) small by (simp add: zip)
  qed
  have upd: "(id2loc_map m)(target_id \<mapsto> l) ++ map_of (zip new_nhood ls')
      = id2loc_map m ++ map_of (zip (new_nhood @ [target_id]) locs)"
    using locs by simp
  have live: "\<forall>l'\<in>set old. slots g (alloc m) l' \<in> set new_nhood"
    using nh(2) map_invD(2)[OF inv] by (auto simp: old_def)
  have ids: "i < kAllocatedID" if "i \<in> set new_nhood" for i using that nh(2) map_invD(1)[OF inv] by blast
  have "inj_on (the \<circ> id2loc_map m) (set new_nhood)"
  proof (rule inj_onI)
    fix i j assume "i \<in> set new_nhood" "j \<in> set new_nhood" and eq: "(the \<circ> id2loc_map m) i = (the \<circ> id2loc_map m) j"
    then obtain a b where "id2loc_map m i = Some a" "id2loc_map m j = Some b" using nh(2) by blast
    then show "i = j" using map_inv_inj[OF inv] eq by simp
  qed
  then have dist: "distinct old" using nh(1) by (simp add: old_def distinct_map)
  have not: "slots g (alloc m) l' \<noteq> kInvalidID \<and> slots g (alloc m) l' \<noteq> kAllocatedID" if "l' \<in> set old" for l'
    using live ids[of "slots g (alloc m) l'"] that by (auto simp: kInvalidID_def kAllocatedID_def)
  have h: "length (new_nhood @ [target_id]) = length locs" "\<forall>l\<in>set locs. slots g (alloc m) l \<noteq> kInvalidID"
    "\<forall>l\<in>set old. slots g (alloc m) l \<noteq> kInvalidID" "set old \<inter> set locs = {}"
    using ls not sentinels_distinct by auto
  obtain a where a: "erase_and_set_loc g (alloc m) old locs (new_nhood @ [target_id]) = Inr a"
    "alloc_inv g a" "slots g a = (\<lambda>l. if l \<in> set old then kInvalidID
       else case map_of (zip locs (new_nhood @ [target_id])) l of Some i \<Rightarrow> i | None \<Rightarrow> slots g (alloc m) l)"
    using erase_and_set_loc_slots[OF g ai h(1) ls(2) h(2) dist h(3,4)] by blast
  define F where "F = id2loc_map m ++ map_of (zip (new_nhood @ [target_id]) locs)"
  let ?q = "(id2loc_pm_queue m)\<lparr>cq_items := cq_items (id2loc_pm_queue m) @ zip new_nhood ls'\<rparr>"
  have "u32 (locs ! length new_nhood) = l" using locs u by (metis nth_append_length)
  then have "publish g m target_id new_nhood locs = and_then (switch_nbrs ?m new_nhood locs []) (\<lambda>(m, orig_locs).
      and_then (erase_and_set_loc g (alloc m) orig_locs locs (new_nhood @ [target_id])) (\<lambda>a. Inr (m\<lparr>alloc := a\<rparr>)))"
    by (simp add: publish_def Let_def)
  then have "publish g m target_id new_nhood locs = Inr (m\<lparr>id2loc_map := F, id2loc_pm_queue := ?q, alloc := a\<rparr>)"
    using sw a(1) upd[folded F_def] by simp
  moreover have "set old = (the \<circ> id2loc_map m) ` set new_nhood" by (simp add: old_def)
  ultimately show ?thesis using a(2,3) zip unfolding F_def by simp
qed

lemma map_inv_switch:
  assumes inv: "map_inv g m" and ai: "alloc_inv g a"
    and ids: "distinct ids" "\<forall>i\<in>set ids. i < kAllocatedID"
    and ls: "length locs = length ids" "distinct locs" "\<forall>l\<in>set locs. slots g (alloc m) l = kAllocatedID"
    and sl: "slots g a = (\<lambda>l. if \<exists>i\<in>set ids. id2loc_map m i = Some l then kInvalidID
         else case map_of (zip locs ids) l of Some i \<Rightarrow> i | None \<Rightarrow> slots g (alloc m) l)"
    and m': "alloc m' = a" "id2loc_map m' = id2loc_map m ++ map_of (zip ids locs)"
  shows "map_inv g m'"
proof -
  note swap = map_of_zip_swap[OF ids(1) ls(2) ls(1)[symmetric]]
  have notin: "id2loc_map m i \<noteq> Some l" if "l \<in> set locs" for i l
    using that ls(3) map_invD(1,2)[OF inv, of i l] by auto
  have fwd: "i < kAllocatedID \<and> slots g a l = i" if "id2loc_map m' i = Some l" for i l
  proof (cases "map_of (zip ids locs) i")
    case None
    have "i \<notin> set ids" using None map_of_zip_Some[of i ids locs] ls(1) by fastforce
    moreover have "id2loc_map m i = Some l" using that m'(2) None by (simp add: map_add_def)
    ultimately have M: "id2loc_map m i = Some l" "i \<notin> set ids" by blast+
    then have "\<not> (\<exists>j\<in>set ids. id2loc_map m j = Some l)" using map_inv_inj[OF inv M(1)] by blast
    moreover have "map_of (zip locs ids) l = None" using notin[of l i] M(1) by (intro map_of_zip_notin) blast
    ultimately show ?thesis using map_invD(1,2)[OF inv M(1)] by (simp add: sl)
  next
    case (Some l')
    then have "map_of (zip locs ids) l = Some i" using that m'(2) swap by simp
    moreover have "i \<in> set ids" "\<not> (\<exists>j\<in>set ids. id2loc_map m j = Some l)"
      using notin map_of_zip_in[OF calculation] by auto
    ultimately show ?thesis using ids(2) by (simp add: sl)
  qed
  have bwd: "id2loc_map m' (slots g a l) = Some l" if live: "slots g a l \<notin> {kInvalidID, kAllocatedID}" for l
  proof (cases "map_of (zip locs ids) l")
    case None
    have no: "\<not> (\<exists>j\<in>set ids. id2loc_map m j = Some l)" using live by (auto simp: sl split: if_splits)
    then have s: "slots g a l = slots g (alloc m) l" using None by (simp add: sl)
    then have M: "id2loc_map m (slots g a l) = Some l" using live inv by (auto simp: map_inv_def)
    then have "slots g a l \<notin> set ids" using no by blast
    then have "map_of (zip ids locs) (slots g a l) = None" by (rule map_of_zip_notin)
    then show ?thesis using M m'(2) by (simp add: map_add_Some_iff)
  next
    case (Some i)
    then have "l \<in> set locs" using map_of_zip_in[of locs ids l i] by blast
    then have "\<not> (\<exists>j\<in>set ids. id2loc_map m j = Some l)" using notin by simp
    then have "slots g a l = i" using Some by (simp add: sl)
    moreover have "map_of (zip ids locs) i = Some l" using Some swap by simp
    ultimately show ?thesis using m'(2) by (simp add: map_add_Some_iff)
  qed
  show ?thesis using ai fwd bwd m'(1) by (simp add: map_inv_def)
qed

lemma publish_ok:
  assumes g: "geom_paged g" and inv: "map_inv g m"
    and nh: "distinct new_nhood" "set new_nhood \<subseteq> dom (id2loc_map m)"
    and t: "target_id \<notin> dom (id2loc_map m)" "target_id < kAllocatedID"
    and ls: "length locs = Suc (length new_nhood)" "distinct locs" "\<forall>l\<in>set locs. slots g (alloc m) l = kAllocatedID"
  shows "\<exists>m'. publish g m target_id new_nhood locs = Inr m' \<and> map_inv g m'
    \<and> id2loc_map m' = id2loc_map m ++ map_of (zip (new_nhood @ [target_id]) locs)
    \<and> (\<forall>i\<in>set new_nhood. slots g (alloc m') (the (id2loc_map m i)) = kInvalidID)
    \<and> cq_items (id2loc_pm_queue m') = cq_items (id2loc_pm_queue m) @ zip new_nhood locs"
proof -
  obtain m' where m': "publish g m target_id new_nhood locs = Inr m'" "alloc_inv g (alloc m')"
    "id2loc_map m' = id2loc_map m ++ map_of (zip (new_nhood @ [target_id]) locs)"
    "cq_items (id2loc_pm_queue m') = cq_items (id2loc_pm_queue m) @ zip new_nhood locs"
    "slots g (alloc m') = (\<lambda>l. if l \<in> (the \<circ> id2loc_map m) ` set new_nhood then kInvalidID
         else case map_of (zip locs (new_nhood @ [target_id])) l of Some i \<Rightarrow> i | None \<Rightarrow> slots g (alloc m) l)"
    using publish_run[OF g inv nh t(1) ls] by blast
  have old: "l \<in> (the \<circ> id2loc_map m) ` set new_nhood
      \<longleftrightarrow> (\<exists>i\<in>set (new_nhood @ [target_id]). id2loc_map m i = Some l)" for l
  proof
    assume "l \<in> (the \<circ> id2loc_map m) ` set new_nhood"
    then obtain i where "i \<in> set new_nhood" "l = the (id2loc_map m i)" by auto
    moreover have "i \<in> dom (id2loc_map m)" using calculation nh(2) by blast
    ultimately show "\<exists>i\<in>set (new_nhood @ [target_id]). id2loc_map m i = Some l" by auto
  next
    assume "\<exists>i\<in>set (new_nhood @ [target_id]). id2loc_map m i = Some l"
    then obtain i where "i \<in> set new_nhood" "id2loc_map m i = Some l" using t(1) by auto
    then show "l \<in> (the \<circ> id2loc_map m) ` set new_nhood" by (auto intro!: image_eqI)
  qed
  have "i < kAllocatedID" if "i \<in> set (new_nhood @ [target_id])" for i
    using that nh(2) t(2) map_invD(1)[OF inv] by auto
  moreover have "slots g (alloc m') = (\<lambda>l. if \<exists>i\<in>set (new_nhood @ [target_id]). id2loc_map m i = Some l then kInvalidID
      else case map_of (zip locs (new_nhood @ [target_id])) l of Some i \<Rightarrow> i | None \<Rightarrow> slots g (alloc m) l)"
    by (rule ext) (simp only: m'(5) old)
  moreover have "distinct (new_nhood @ [target_id])" using nh t(1) by auto
  ultimately have "map_inv g m'"
    using ls(1) by (intro map_inv_switch[OF inv m'(2) _ _ _ ls(2,3) _ refl m'(3)]) simp_all
  moreover have "\<forall>i\<in>set new_nhood. slots g (alloc m') (the (id2loc_map m i)) = kInvalidID"
    by (simp add: m'(5))
  ultimately show ?thesis using m'(1,3,4) by blast
qed

text \<open>
  C9. Switching a set of nodes to freshly allocated locations and adding the new node never fails and
  keeps the id and location maps inverse to each other: afterwards every switched node and the new node
  are found at their new locations, every other id where it was, the old slots are free again, and
  exactly the switched entries are queued for persistent memory, in order.
\<close>

theorem publish_correct:
  assumes g: "geom_paged g" and inv: "map_inv g m"
    and nh: "distinct new_nhood" "set new_nhood \<subseteq> dom (id2loc_map m)"
    and t: "target_id \<notin> dom (id2loc_map m)" "target_id < kAllocatedID"
    and ls: "length locs = Suc (length new_nhood)" "distinct locs" "\<forall>l\<in>set locs. slots g (alloc m) l = kAllocatedID"
  shows "\<exists>m'. publish g m target_id new_nhood locs = Inr m' \<and> map_inv g m'
    \<and> id2loc_map m' = id2loc_map m ++ map_of (zip (new_nhood @ [target_id]) locs)
    \<and> (\<forall>i\<in>set new_nhood. slots g (alloc m') (the (id2loc_map m i)) = kInvalidID)
    \<and> cq_items (id2loc_pm_queue m') = cq_items (id2loc_pm_queue m) @ zip new_nhood locs"
  by (rule publish_ok[OF assms])

lemma erase_and_set_loc_cur_loc:
  assumes "erase_and_set_loc g s old locs ids = Inr s'"
  shows "cur_loc s' = cur_loc s"
proof -
  have f: "cur_loc (fold (\<lambda>(l, i) s. set_loc2id g s l i) xs s) = cur_loc s" for xs s
    by (induction xs arbitrary: s) auto
  have e: "cur_loc (fold (\<lambda>l s. erase_loc2id g s l) xs s) = cur_loc s" for xs s
    by (induction xs arbitrary: s) (auto simp: erase_loc2id_def Let_def)
  show ?thesis using assms by (auto simp: erase_and_set_loc_def f e split: if_splits)
qed

lemma publish_keeps:
  assumes "publish g m t nh locs = Inr m'"
  shows "cur_loc (alloc m') = cur_loc (alloc m)" "cur_id m' = cur_id m"
proof -
  have w: "alloc m2 = alloc m1 \<and> cur_id m2 = cur_id m1" if "switch_nbrs m1 is ls os = Inr (m2, os')" for m1 m2 "is" ls os os'
    using that by (induction m1 "is" ls os arbitrary: m2 rule: switch_nbrs.induct)
      (auto simp: and_then_eq_Inr id2loc_insert_or_assign_def)
  show "cur_loc (alloc m') = cur_loc (alloc m)" "cur_id m' = cur_id m"
    using assms by (auto simp: publish_def Let_def and_then_eq_Inr dest!: w erase_and_set_loc_cur_loc split: prod.splits)
qed

text \<open>The example file with two of the holes of page 2 reserved.\<close>

definition ex_reserved :: meta_state where
  "ex_reserved = ex_meta\<lparr>alloc := ex_alloc2\<rparr>"

lemma ex_alloc2_slots:
  "slots ex_geom ex_alloc2 l =
     (if l < 4 then l else if l = 6 then 4 else if l = 4 \<or> l = 5 then kAllocatedID else kInvalidID)"
proof -
  have "slots ex_geom ex_alloc2 = (\<lambda>l. if l \<in> set [4, 5] then kAllocatedID else slots ex_geom ex_alloc l)"
    using ex_alloc2_claims(1) unfolding claims_def by blast
  then show ?thesis by (simp add: ex_slots)
qed

lemma ex_reserved_simps [simp]:
  "alloc ex_reserved = ex_alloc2" "id2loc_map ex_reserved = [0 \<mapsto> 0, 1 \<mapsto> 1, 2 \<mapsto> 2, 3 \<mapsto> 3, 4 \<mapsto> 6]"
  by (simp_all add: ex_reserved_def ex_meta_def)

lemma ex_reserved_inv: "map_inv ex_geom ex_reserved"
proof -
  have "id2loc_map ex_reserved (slots ex_geom ex_alloc2 l) = Some l"
    if live: "slots ex_geom ex_alloc2 l \<notin> {kInvalidID, kAllocatedID}" for l
  proof -
    have "l < 4 \<or> l = 6" using live by (auto simp: ex_alloc2_slots split: if_splits)
    then have "l = 0 \<or> l = 1 \<or> l = 2 \<or> l = 3 \<or> l = 6" by arith
    then show ?thesis by (elim disjE) (simp_all add: ex_alloc2_slots)
  qed
  moreover have "i < kAllocatedID \<and> slots ex_geom ex_alloc2 l = i" if "id2loc_map ex_reserved i = Some l" for i l
    using that by (auto simp: ex_alloc2_slots kAllocatedID_def split: if_splits)
  ultimately show ?thesis using ex_alloc2_claims(2) by (simp add: map_inv_def)
qed

theorem publish_correct_witness:
  "\<exists>m'. publish ex_geom ex_reserved 5 [2] [4, 5] = Inr m' \<and> id2loc_map m' 2 = Some 4 \<and> id2loc_map m' 5 = Some 5
     \<and> slots ex_geom (alloc m') 2 = kInvalidID"
proof -
  have "\<exists>m'. publish ex_geom ex_reserved 5 [2] [4, 5] = Inr m' \<and> map_inv ex_geom m'
      \<and> id2loc_map m' = id2loc_map ex_reserved ++ map_of (zip ([2] @ [5]) [4, 5])
      \<and> (\<forall>i\<in>set [2]. slots ex_geom (alloc m') (the (id2loc_map ex_reserved i)) = kInvalidID)
      \<and> cq_items (id2loc_pm_queue m') = cq_items (id2loc_pm_queue ex_reserved) @ zip [2] [4, 5]"
    by (rule publish_correct[OF ex_geom_paged ex_reserved_inv]) (simp_all add: ex_alloc2_slots kAllocatedID_def)
  then show ?thesis by auto
qed

end
