(* ===== verification/Lock_Order.thy ===== *)
theory Lock_Order
  imports Lock_Table Id_Map
begin

text \<open>
  How the index takes several locks at once (\<^verbatim>\<open>lock_vec\<close>, \<^verbatim>\<open>lock_idx\<close>, \<^verbatim>\<open>lock_page_idx\<close> of
  \<^verbatim>\<open>include/ssd_index.h\<close> and \<^verbatim>\<open>lockReqs\<close> of \<^verbatim>\<open>include/linux_aligned_file_reader.h\<close>): the keys are
  sorted, all but \<^verbatim>\<open>lock_vec\<close> remove duplicates, and they are locked in ascending order. The second half
  interleaves any number of threads that do so and shows that they never deadlock.
\<close>

section \<open>The keys of a request, in locking order\<close>

definition lock_vec_keys :: "nat \<Rightarrow> nat list \<Rightarrow> nat list" where
  "lock_vec_keys target neighbors =
     sort (if target \<noteq> kInvalidID then neighbors @ [target] else neighbors)"

text \<open>\<^verbatim>\<open>std::unique\<close> on a sorted vector.\<close>

definition get_to_lock_idx :: "nat \<Rightarrow> nat list \<Rightarrow> nat list" where
  "get_to_lock_idx target neighbors =
     remdups_adj (sort (if target \<noteq> kInvalidID then neighbors @ [target] else neighbors))"

fun id2pages :: "geom \<Rightarrow> meta_state \<Rightarrow> nat list \<Rightarrow> nat list outcome" where
  "id2pages g m [] = Inr []"
| "id2pages g m (i # is) =
     and_then (id2page g m i) (\<lambda>p. and_then (id2pages g m is) (\<lambda>ps. Inr (u32 p # ps)))"

definition lock_page_keys :: "geom \<Rightarrow> meta_state \<Rightarrow> bool \<Rightarrow> nat \<Rightarrow> nat list \<Rightarrow> nat list outcome" where
  "lock_page_keys g m use_page_search target neighbors =
     (if \<not> use_page_search then Inr []
      else and_then (id2pages g m (if target \<noteq> kInvalidID then neighbors @ [target] else neighbors))
             (\<lambda>ps. Inr (remdups_adj (sort ps))))"

text \<open>The pages of a list of \<^verbatim>\<open>(offset, len)\<close> requests.\<close>

definition req_pages :: "nat \<times> nat \<Rightarrow> nat list" where
  "req_pages r = map (\<lambda>i. (fst r + i * SECTOR_LEN) div SECTOR_LEN) [0..<DIV_ROUND_UP (snd r) SECTOR_LEN]"

definition lockReqs_keys :: "(nat \<times> nat) list \<Rightarrow> nat list" where
  "lockReqs_keys reqs = remdups_adj (sort (concat (map req_pages reqs)))"

section \<open>Locking and unlocking a sequence of keys\<close>

text \<open>\<open>env\<close> is what the other threads do between two attempts, for each position of the sequence.\<close>

fun lock_seq ::
  "((nat \<Rightarrow> 'k slt \<Rightarrow> 'k slt) \<Rightarrow> 'k slt \<Rightarrow> 'k \<Rightarrow> 'k slt option) \<Rightarrow> (nat \<Rightarrow> nat \<Rightarrow> 'k slt \<Rightarrow> 'k slt) \<Rightarrow> nat
     \<Rightarrow> 'k slt \<Rightarrow> 'k list \<Rightarrow> 'k slt option" where
  "lock_seq lk env j t [] = Some t"
| "lock_seq lk env j t (k # ks) =
     (case lk (env j) t k of None \<Rightarrow> None | Some t' \<Rightarrow> lock_seq lk env (Suc j) t' ks)"

fun unlock_seq :: "'k slt \<Rightarrow> 'k list \<Rightarrow> 'k slt outcome" where
  "unlock_seq t [] = Inr t"
| "unlock_seq t (k # ks) = and_then (unlock t k) (\<lambda>t'. unlock_seq t' ks)"

definition lock_vec ::
  "(nat \<Rightarrow> nat \<Rightarrow> nat slt \<Rightarrow> nat slt) \<Rightarrow> nat slt \<Rightarrow> nat \<Rightarrow> nat list \<Rightarrow> bool \<Rightarrow> nat slt option" where
  "lock_vec env t target neighbors rd =
     lock_seq (if rd then rdlock else wrlock) env 0 t (lock_vec_keys target neighbors)"

definition unlock_vec :: "nat slt \<Rightarrow> nat \<Rightarrow> nat list \<Rightarrow> nat slt outcome" where
  "unlock_vec t target neighbors =
     and_then (if target \<noteq> kInvalidID then unlock t target else Inr t) (\<lambda>t. unlock_seq t neighbors)"

definition lock_idx ::
  "(nat \<Rightarrow> nat \<Rightarrow> nat slt \<Rightarrow> nat slt) \<Rightarrow> nat slt \<Rightarrow> nat \<Rightarrow> nat list \<Rightarrow> bool \<Rightarrow> (nat list \<times> nat slt) option" where
  "lock_idx env t target neighbors rd =
     (let to_lock = get_to_lock_idx target neighbors
      in map_option (Pair to_lock) (lock_seq (if rd then rdlock else wrlock) env 0 t to_lock))"

definition unlock_idx :: "nat slt \<Rightarrow> nat list \<Rightarrow> nat slt outcome" where
  "unlock_idx t to_lock = unlock_seq t to_lock"

definition lock_page_idx ::
  "(nat \<Rightarrow> nat \<Rightarrow> nat slt \<Rightarrow> nat slt) \<Rightarrow> geom \<Rightarrow> meta_state \<Rightarrow> bool \<Rightarrow> nat slt \<Rightarrow> nat \<Rightarrow> nat list \<Rightarrow> bool
     \<Rightarrow> (nat list \<times> nat slt) option outcome" where
  "lock_page_idx env g m use_page_search t target neighbors rd =
     and_then (lock_page_keys g m use_page_search target neighbors) (\<lambda>to_lock.
       Inr (map_option (Pair to_lock) (lock_seq (if rd then rdlock else wrlock) env 0 t to_lock)))"

definition unlock_page_idx :: "bool \<Rightarrow> nat slt \<Rightarrow> nat list \<Rightarrow> nat slt outcome" where
  "unlock_page_idx use_page_search t to_lock =
     (if \<not> use_page_search then Inr t else unlock_seq t to_lock)"

definition lockReqs ::
  "(nat \<Rightarrow> nat \<Rightarrow> nat slt \<Rightarrow> nat slt) \<Rightarrow> nat slt \<Rightarrow> (nat \<times> nat) list \<Rightarrow> (nat list \<times> nat slt) option" where
  "lockReqs env t reqs =
     (let ret = lockReqs_keys reqs in map_option (Pair ret) (lock_seq wrlock env 0 t ret))"

definition unlockReqs :: "nat slt \<Rightarrow> nat list \<Rightarrow> nat slt outcome" where
  "unlockReqs t reqs = unlock_seq t reqs"

lemma unlock_seq_append: "unlock_seq t (xs @ ys) = and_then (unlock_seq t xs) (\<lambda>t'. unlock_seq t' ys)"
  by (induction xs arbitrary: t) (simp_all add: and_then_assoc)

section \<open>The keys are in strictly ascending order\<close>

lemma sorted_remdups_adj_distinct: "sorted xs \<Longrightarrow> distinct (remdups_adj xs)"
proof (induction xs rule: remdups_adj.induct)
  case (3 x y xs)
  show ?case
  proof (cases "x = y")
    case True
    then show ?thesis using 3 by simp
  next
    case False
    then have "x < y" using "3.prems" by auto
    then have "x \<notin> set (y # xs)" using "3.prems" by auto
    then show ?thesis using False 3 by auto
  qed
qed auto

lemma remdups_adj_sorted: "sorted xs \<Longrightarrow> sorted (remdups_adj xs)"
  by (induction xs rule: remdups_adj.induct) auto

lemma strict_sorted_keys: "sorted_wrt (<) (remdups_adj (sort (xs :: nat list)))"
  using sorted_remdups_adj_distinct[of "sort xs"] remdups_adj_sorted[of "sort xs"]
  by (simp add: strict_sorted_iff)

lemma set_req_pages:
  "set (req_pages (off, len)) = (\<lambda>i. off div SECTOR_LEN + i) ` {i. i * SECTOR_LEN < len}"
proof -
  have "(off + i * SECTOR_LEN) div SECTOR_LEN = off div SECTOR_LEN + i" for i
    using SECTOR_LEN_pos by simp
  moreover have "{0..<DIV_ROUND_UP len SECTOR_LEN} = {i. i * SECTOR_LEN < len}"
    using less_DIV_ROUND_UP[OF SECTOR_LEN_pos] by auto
  ultimately show ?thesis by (simp add: req_pages_def add.commute)
qed

lemma set_lockReqs_keys: "set (lockReqs_keys reqs) = (\<Union>r\<in>set reqs. set (req_pages r))"
  by (simp add: lockReqs_keys_def)

section \<open>Locking and unlocking without interference\<close>

text \<open>The entry of a key that one writer holds, and a free table entry.\<close>

definition wr_entry :: "rwlock \<times> int" where
  "wr_entry = (\<lparr>readers = 0, writer = True\<rparr>, 1)"

lemma entry_of_wr: "entry_of 0 (Suc 0) = Some wr_entry" "entry_of 0 0 = None"
  by (simp_all add: entry_of_def wr_entry_def)

lemma trywrlock_free: "t k = None \<Longrightarrow> trywrlock t k = (0, t(k \<mapsto> wr_entry))"
  using trywrlock_entry[of t k 0 0] by (simp add: entry_of_wr)

lemma trywrlock_taken: "t k = Some wr_entry \<Longrightarrow> trywrlock t k = (EBUSY, t)"
  using trywrlock_entry[of t k 0 1] by (simp add: entry_of_wr)

lemma unlock_taken: "t k = Some wr_entry \<Longrightarrow> unlock t k = Inr (t(k := None))"
  using unlock_wr_entry[of t k] by (simp add: entry_of_wr)

lemma wrlock_free: "t k = None \<Longrightarrow> wrlock env t k = Some (t(k \<mapsto> wr_entry))"
  by (simp add: wrlock_def spin_lock.simps trywrlock_free)

lemma wrlock_self_stuck: "t k = Some wr_entry \<Longrightarrow> wrlock (\<lambda>_ t. t) t k = None"
proof -
  assume "t k = Some wr_entry"
  then have taken: "trywrlock t k = (EBUSY, t)" by (rule trywrlock_taken)
  have "attempt_state trywrlock (\<lambda>_ t. t) t k n = t" for n
    by (induction n) (simp_all add: taken)
  then have "fst (trywrlock (attempt_state trywrlock (\<lambda>_ t. t) t k n) k) \<noteq> 0" for n
    by (simp add: taken EBUSY_def)
  moreover have "\<exists>n. fst (trywrlock (attempt_state trywrlock (\<lambda>_ t. t) t k n) k) = 0"
    if "spin_lock trywrlock (\<lambda>_ t. t) 0 0 t k = Some y" for y
    using spin_lock_only_if[OF that, of t] by simp
  ultimately show ?thesis unfolding wrlock_def using option.exhaust by metis
qed

definition locked :: "'k slt \<Rightarrow> 'k list \<Rightarrow> 'k slt" where
  "locked t ks = (\<lambda>k. if k \<in> set ks then Some wr_entry else t k)"

lemma lock_seq_distinct:
  assumes "distinct ks" "\<forall>k\<in>set ks. t k = None"
  shows "lock_seq wrlock env j t ks = Some (locked t ks)"
  using assms
proof (induction ks arbitrary: j t)
  case Nil
  then show ?case by (simp add: locked_def)
next
  case (Cons k ks)
  have "lock_seq wrlock env (Suc j) (t(k \<mapsto> wr_entry)) ks = Some (locked (t(k \<mapsto> wr_entry)) ks)"
    using Cons.prems by (intro Cons.IH) auto
  moreover have "locked (t(k \<mapsto> wr_entry)) ks = locked t (k # ks)" by (auto simp: locked_def)
  ultimately show ?case using Cons.prems by (simp add: wrlock_free)
qed

lemma lock_seq_stuck:
  assumes "k \<in> set ks" "t k = Some wr_entry" "\<forall>k\<in>set ks. t k = None \<or> t k = Some wr_entry"
  shows "lock_seq wrlock (\<lambda>_ _ t. t) j t ks = None"
  using assms
proof (induction ks arbitrary: j t)
  case (Cons a ks)
  show ?case
  proof (cases "t a")
    case None
    then have "lock_seq wrlock (\<lambda>_ _ t. t) (Suc j) (t(a \<mapsto> wr_entry)) ks = None"
      using Cons.prems by (intro Cons.IH) auto
    then show ?thesis using None by (simp add: wrlock_free)
  next
    case (Some v)
    then have "t a = Some wr_entry" using Cons.prems(3) by auto
    then show ?thesis by (simp add: wrlock_self_stuck)
  qed
qed simp

lemma lock_seq_repeated:
  assumes "\<not> distinct ks" "\<forall>k\<in>set ks. t k = None"
  shows "lock_seq wrlock (\<lambda>_ _ t. t) j t ks = None"
proof -
  have "\<not> distinct ks \<Longrightarrow> \<forall>k\<in>set ks. t k = None \<or> t k = Some wr_entry \<Longrightarrow>
      lock_seq wrlock (\<lambda>_ _ t. t) j t ks = None"
  proof (induction ks arbitrary: j t)
    case (Cons k ks)
    show ?case
    proof (cases "t k")
      case None
      have "lock_seq wrlock (\<lambda>_ _ t. t) (Suc j) (t(k \<mapsto> wr_entry)) ks = None"
      proof (cases "k \<in> set ks")
        case True
        then show ?thesis using Cons.prems(2) by (intro lock_seq_stuck[of k]) auto
      next
        case False
        then show ?thesis using Cons.prems by (intro Cons.IH) auto
      qed
      then show ?thesis using None by (simp add: wrlock_free)
    next
      case (Some v)
      then have "t k = Some wr_entry" using Cons.prems(2) by auto
      then show ?thesis by (simp add: wrlock_self_stuck)
    qed
  qed simp
  then show ?thesis using assms by blast
qed

lemma unlock_seq_locked:
  assumes "distinct ks" "\<forall>k\<in>set ks. t k = None" "mset ks = mset ks'"
  shows "unlock_seq (locked t ks) ks' = Inr t"
  using assms
proof (induction ks' arbitrary: ks)
  case Nil
  then show ?case by (simp add: locked_def)
next
  case (Cons k ks')
  have k: "k \<in> set ks" using Cons.prems(3) by (metis list.set_intros(1) set_mset_mset)
  have "(locked t ks)(k := None) = locked t (remove1 k ks)"
    using Cons.prems(1,2) k by (auto simp: locked_def fun_eq_iff)
  moreover have "unlock_seq (locked t (remove1 k ks)) ks' = Inr t"
    using Cons.prems by (intro Cons.IH) (auto dest: notin_set_remove1[rotated])
  ultimately show ?case using k unlock_taken[of "locked t ks" k] by (simp add: locked_def)
qed

text \<open>
  Without interference, \<^verbatim>\<open>lock_vec\<close> on free keys returns exactly when the target and the neighbours
  are pairwise different; it then write-locks all of them, and \<^verbatim>\<open>unlock_vec\<close> with the same arguments
  restores the lock table. With a repeated id the thread waits for itself for ever.
\<close>

lemma lock_vec_roundtrip:
  assumes "target \<noteq> kInvalidID" "\<forall>k\<in>set (target # neighbors). t k = None"
  shows "(lock_vec (\<lambda>_ _ t. t) t target neighbors False = None \<longleftrightarrow> \<not> distinct (target # neighbors))
    \<and> (\<forall>t'. lock_vec (\<lambda>_ _ t. t) t target neighbors False = Some t' \<longrightarrow>
          (\<forall>k\<in>set (target # neighbors). t' k = Some wr_entry) \<and> unlock_vec t' target neighbors = Inr t)"
proof (cases "distinct (target # neighbors)")
  case True
  let ?ks = "lock_vec_keys target neighbors"
  have ks: "distinct ?ks" "\<forall>k\<in>set ?ks. t k = None" "mset ?ks = mset (target # neighbors)"
    "set ?ks = set (target # neighbors)"
    using True assms by (auto simp: lock_vec_keys_def)
  have "unlock_vec t' target neighbors = unlock_seq t' (target # neighbors)" for t'
    using assms(1) by (simp add: unlock_vec_def)
  moreover have "lock_vec (\<lambda>_ _ t. t) t target neighbors False = Some (locked t ?ks)"
    using lock_seq_distinct[OF ks(1,2)] by (simp add: lock_vec_def)
  ultimately show ?thesis
    using True unlock_seq_locked[OF ks(1-3)] ks(4) by (simp add: locked_def)
next
  case False
  have "\<not> distinct (lock_vec_keys target neighbors)" "\<forall>k\<in>set (lock_vec_keys target neighbors). t k = None"
    using assms False by (auto simp: lock_vec_keys_def)
  from lock_seq_repeated[OF this, of 0] have "lock_vec (\<lambda>_ _ t. t) t target neighbors False = None"
    by (simp add: lock_vec_def)
  then show ?thesis using False by simp
qed

lemma lock_vec_roundtrip_witness:
  "lock_vec (\<lambda>_ _ t. t) Map.empty 9 [4, 2] False \<noteq> None \<and> lock_vec (\<lambda>_ _ t. t) Map.empty 9 [4, 4] False = None"
  using lock_vec_roundtrip[of 9 "[4, 2]" Map.empty] lock_vec_roundtrip[of 9 "[4, 4]" Map.empty]
  by (simp add: kInvalidID_def)

text \<open>
  C37. Both insert paths call \<^verbatim>\<open>unlock_vec(table, target_id, new_nhood)\<close> after appending the target to
  \<^verbatim>\<open>new_nhood\<close>, so the target is unlocked twice. If another thread takes the target's lock between the
  two, the second unlock releases that thread's lock, and a third thread gets the write lock as well.
\<close>

theorem double_unlock_releases_foreign_lock:
  assumes "distinct (target # new_nhood)" "\<forall>k\<in>set (target # new_nhood). t k = None"
  shows "\<exists>t1 t2 t3 t4. unlock (locked t (target # new_nhood)) target = Inr t1
    \<and> trywrlock t1 target = (0, t2) \<and> unlock_seq t2 (new_nhood @ [target]) = Inr t3
    \<and> trywrlock t3 target = (0, t4)"
proof -
  let ?t1 = "(locked t (target # new_nhood))(target := None)"
  have 1: "unlock (locked t (target # new_nhood)) target = Inr ?t1"
    by (intro unlock_taken) (simp add: locked_def)
  have "?t1(target \<mapsto> wr_entry) = locked t (target # new_nhood)"
    using assms(1) by (auto simp: locked_def fun_eq_iff)
  then have 2: "trywrlock ?t1 target = (0, locked t (target # new_nhood))"
    using trywrlock_free[of ?t1 target] by simp
  have 3: "unlock_seq (locked t (target # new_nhood)) (new_nhood @ [target]) = Inr t"
    using assms by (intro unlock_seq_locked) auto
  have "trywrlock t target = (0, t(target \<mapsto> wr_entry))" using assms(2) by (intro trywrlock_free) simp
  then show ?thesis using 1 2 3 by blast
qed

theorem double_unlock_releases_foreign_lock_witness:
  "\<exists>t1 t2 t3 t4. unlock (locked Map.empty [7 :: nat, 3]) 7 = Inr t1 \<and> trywrlock t1 7 = (0, t2)
    \<and> unlock_seq t2 [3, 7] = Inr t3 \<and> trywrlock t3 7 = (0, t4)"
  using double_unlock_releases_foreign_lock[of "7 :: nat" "[3]" Map.empty] by simp

section \<open>Threads that lock in ascending order never deadlock\<close>

text \<open>
  A thread is the keys it holds and the keys it still has to lock; when it has them all it works and
  then unlocks them one after the other.
\<close>

record 'k locker =
  holding :: "'k list"
  todo :: "'k list"

record ('t, 'k) lock_run =
  run_table :: "'k slt"
  lockers :: "'t \<Rightarrow> 'k locker"

inductive run_step :: "('t, 'k) lock_run \<Rightarrow> ('t, 'k) lock_run \<Rightarrow> bool" where
  acquire: "\<lbrakk>lockers s th = \<lparr>holding = hs, todo = k # ks\<rparr>; trywrlock (run_table s) k = (0, t')\<rbrakk> \<Longrightarrow>
    run_step s \<lparr>run_table = t', lockers = (lockers s)(th := \<lparr>holding = hs @ [k], todo = ks\<rparr>)\<rparr>"
| let_go: "\<lbrakk>lockers s th = \<lparr>holding = k # hs, todo = []\<rparr>; unlock (run_table s) k = Inr t'\<rbrakk> \<Longrightarrow>
    run_step s \<lparr>run_table = t', lockers = (lockers s)(th := \<lparr>holding = hs, todo = []\<rparr>)\<rparr>"

text \<open>The threads start with an empty table and the key sequences that the lock calls compute.\<close>

definition run_start :: "('t \<Rightarrow> nat list) \<Rightarrow> ('t, nat) lock_run" where
  "run_start keys = \<lparr>run_table = Map.empty, lockers = (\<lambda>th. \<lparr>holding = [], todo = keys th\<rparr>)\<rparr>"

inductive run_reach :: "('t \<Rightarrow> nat list) \<Rightarrow> ('t, nat) lock_run \<Rightarrow> bool" for keys where
  rr_start: "run_reach keys (run_start keys)"
| rr_step: "run_reach keys s \<Longrightarrow> run_step s s' \<Longrightarrow> run_reach keys s'"

definition run_inv :: "('t, nat) lock_run \<Rightarrow> bool" where
  "run_inv s \<longleftrightarrow>
     (\<forall>th. sorted_wrt (<) (holding (lockers s th) @ todo (lockers s th)))
     \<and> (\<forall>th th' k. k \<in> set (holding (lockers s th)) \<and> k \<in> set (holding (lockers s th')) \<longrightarrow> th = th')
     \<and> (\<forall>k. run_table s k = (if \<exists>th. k \<in> set (holding (lockers s th)) then Some wr_entry else None))"

lemma run_inv_start: "\<forall>th. sorted_wrt (<) (keys th) \<Longrightarrow> run_inv (run_start keys)"
  by (simp add: run_inv_def run_start_def)

lemma run_inv_acquire:
  assumes "run_inv s" "lockers s th = \<lparr>holding = hs, todo = k # ks\<rparr>" "trywrlock (run_table s) k = (0, t')"
  shows "run_inv \<lparr>run_table = t', lockers = (lockers s)(th := \<lparr>holding = hs @ [k], todo = ks\<rparr>)\<rparr>"
proof -
  have free: "run_table s k = None"
    using assms(1,3) trywrlock_taken[of "run_table s" k] by (cases "run_table s k") (auto simp: run_inv_def EBUSY_def split: if_splits)
  then have t': "t' = (run_table s)(k \<mapsto> wr_entry)" using assms(3) trywrlock_free[of "run_table s" k] by simp
  have nobody: "k \<notin> set (holding (lockers s th'))" for th' using assms(1) free by (auto simp: run_inv_def split: if_splits)
  have hs: "holding (lockers s th) = hs" "todo (lockers s th) = k # ks" using assms(2) by simp_all
  have "sorted_wrt (<) (hs @ k # ks)" using assms(1) hs unfolding run_inv_def by metis
  moreover have "(\<exists>th'. x \<in> set (holding (((lockers s)(th := \<lparr>holding = hs @ [k], todo = ks\<rparr>)) th')))
      \<longleftrightarrow> x = k \<or> (\<exists>th'. x \<in> set (holding (lockers s th')))" for x
    using hs(1) by (auto split: if_splits)
  ultimately show ?thesis using assms(1) nobody hs(1) unfolding run_inv_def t'
    by (auto split: if_splits) (metis+)
qed

lemma run_inv_let_go:
  assumes "run_inv s" "lockers s th = \<lparr>holding = k # hs, todo = []\<rparr>" "unlock (run_table s) k = Inr t'"
  shows "run_inv \<lparr>run_table = t', lockers = (lockers s)(th := \<lparr>holding = hs, todo = []\<rparr>)\<rparr>"
proof -
  have hs: "holding (lockers s th) = k # hs" "todo (lockers s th) = []" using assms(2) by simp_all
  have "\<exists>th. k \<in> set (holding (lockers s th))" using hs(1) by (metis list.set_intros(1))
  then have "run_table s k = Some wr_entry" using assms(1) by (simp add: run_inv_def)
  then have t': "t' = (run_table s)(k := None)" using assms(3) unlock_taken[of "run_table s" k] by simp
  have sorted: "sorted_wrt (<) (k # hs)" using assms(1) hs unfolding run_inv_def by (metis append_Nil2)
  then have k: "k \<notin> set hs" by auto
  have other: "th' = th" if "k \<in> set (holding (lockers s th'))" for th'
    using assms(1) that hs(1) unfolding run_inv_def by (metis list.set_intros(1))
  have "(\<exists>th'. x \<in> set (holding (((lockers s)(th := \<lparr>holding = hs, todo = []\<rparr>)) th')))
      \<longleftrightarrow> x \<noteq> k \<and> (\<exists>th'. x \<in> set (holding (lockers s th')))" (is "?L \<longleftrightarrow> ?R") for x
  proof
    assume ?L
    then obtain th' where x: "x \<in> set (holding (((lockers s)(th := \<lparr>holding = hs, todo = []\<rparr>)) th'))" by blast
    show ?R
    proof (cases "th' = th")
      case True
      then show ?thesis using x k hs(1) by (metis fun_upd_same list.set_intros(2) locker.select_convs(1))
    next
      case False
      then show ?thesis using x other by auto
    qed
  next
    assume ?R
    then obtain th' where "x \<noteq> k" "x \<in> set (holding (lockers s th'))" by blast
    then have "x \<in> set (holding (((lockers s)(th := \<lparr>holding = hs, todo = []\<rparr>)) th'))" using hs(1) by auto
    then show ?L by blast
  qed
  then show ?thesis using assms(1) sorted hs(1) unfolding run_inv_def t'
    by (auto split: if_splits) (metis list.set_intros(2))+
qed

lemma run_reach_inv:
  assumes "run_reach keys s" "\<forall>th. sorted_wrt (<) (keys th)"
  shows "run_inv s"
  using assms
proof (induction rule: run_reach.induct)
  case rr_start
  then show ?case by (rule run_inv_start)
next
  case (rr_step s s')
  from rr_step(2) rr_step.IH[OF rr_step.prems] show ?case
    by (induction rule: run_step.induct) (auto intro: run_inv_acquire run_inv_let_go)
qed

lemma let_go_possible:
  assumes "run_inv s" "holding (lockers s th) = k # hs" "todo (lockers s th) = []"
  shows "\<exists>s'. run_step s s'"
proof -
  have "\<exists>th. k \<in> set (holding (lockers s th))" using assms(2) by (metis list.set_intros(1))
  then have "run_table s k = Some wr_entry" using assms(1) by (simp add: run_inv_def)
  moreover have "lockers s th = \<lparr>holding = k # hs, todo = []\<rparr>" using assms(2,3) by (cases "lockers s th") auto
  ultimately show ?thesis using run_step.let_go unlock_taken by metis
qed

text \<open>
  C15. Any number of threads that each lock the keys \<^verbatim>\<open>lock_idx\<close> computes for its own target and
  neighbours never deadlock: in every reachable state in which some thread still has something to lock
  or to unlock, some thread can take its next step.
\<close>

theorem ordered_locking_no_deadlock:
  fixes threads :: "'t set"
  assumes "finite threads" and "\<forall>th. th \<notin> threads \<longrightarrow> keys th = []"
    and "\<forall>th\<in>threads. \<exists>target neighbors. keys th = get_to_lock_idx target neighbors"
    and "run_reach keys s" and "holding (lockers s th) \<noteq> [] \<or> todo (lockers s th) \<noteq> []"
  shows "\<exists>s'. run_step s s'"
proof -
  have keys: "\<forall>th. sorted_wrt (<) (keys th)"
  proof
    fix th show "sorted_wrt (<) (keys th)"
      using assms(2,3) strict_sorted_keys by (cases "th \<in> threads") (auto simp: get_to_lock_idx_def)
  qed
  have inv: "run_inv s" using assms(4) keys by (rule run_reach_inv)
  have idle: "todo (lockers s th) = [] \<and> holding (lockers s th) = []" if "th \<notin> threads" for th
    using assms(4) that
  proof (induction rule: run_reach.induct)
    case (rr_step s s')
    from rr_step(2) rr_step.IH[OF rr_step.prems] show ?case
      by (induction rule: run_step.induct) (auto split: if_splits)
  qed (simp add: run_start_def assms(2))
  show ?thesis
  proof (cases "\<exists>th. todo (lockers s th) \<noteq> []")
    case False
    then show ?thesis using assms(5) let_go_possible[OF inv] by (metis list.exhaust)
  next
    case True
    let ?W = "{th \<in> threads. todo (lockers s th) \<noteq> []}"
    have "finite ?W" "?W \<noteq> {}" using assms(1) True idle by auto
    then have fin: "finite ((\<lambda>th. hd (todo (lockers s th))) ` ?W)" "(\<lambda>th. hd (todo (lockers s th))) ` ?W \<noteq> {}" by auto
    from Max_in[OF this] obtain w where w: "w \<in> ?W"
      "hd (todo (lockers s w)) = Max ((\<lambda>th. hd (todo (lockers s th))) ` ?W)" by auto
    then have max: "\<forall>th\<in>?W. hd (todo (lockers s th)) \<le> hd (todo (lockers s w))"
      using Max_ge[OF fin(1)] by simp
    obtain k ks where k: "todo (lockers s w) = k # ks" using w by (cases "todo (lockers s w)") auto
    show ?thesis
    proof (cases "run_table s k")
      case None
      moreover have "lockers s w = \<lparr>holding = holding (lockers s w), todo = k # ks\<rparr>" using k by (cases "lockers s w") auto
      ultimately show ?thesis using run_step.acquire[of s w _ k ks] trywrlock_free by metis
    next
      case (Some v)
      then obtain h where h: "k \<in> set (holding (lockers s h))" using inv by (auto simp: run_inv_def split: if_splits)
      have "todo (lockers s h) = []"
      proof (rule ccontr)
        assume ne: "todo (lockers s h) \<noteq> []"
        then have "hd (todo (lockers s h)) \<le> k" using max idle k by (metis (mono_tags, lifting) list.sel(1) mem_Collect_eq)
        moreover have "sorted_wrt (<) (holding (lockers s h) @ todo (lockers s h))" using inv by (simp add: run_inv_def)
        then have "k < hd (todo (lockers s h))" using h hd_in_set[OF ne] by (simp add: sorted_wrt_append)
        ultimately show False by simp
      qed
      then show ?thesis using let_go_possible[OF inv] h by (metis list.exhaust list.set_cases)
    qed
  qed
qed

theorem ordered_locking_no_deadlock_witness:
  "\<exists>s'. run_step (run_start (\<lambda>th :: nat. if th < 2 then get_to_lock_idx 5 [3, 3] else [])) s'"
proof (rule ordered_locking_no_deadlock[where threads = "{0, 1}" and th = 0])
  show "run_reach (\<lambda>th :: nat. if th < 2 then get_to_lock_idx 5 [3, 3] else [])
      (run_start (\<lambda>th :: nat. if th < 2 then get_to_lock_idx 5 [3, 3] else []))" by (rule rr_start)
  show "holding (lockers (run_start (\<lambda>th :: nat. if th < 2 then get_to_lock_idx 5 [3, 3] else [])) 0) \<noteq> []
      \<or> todo (lockers (run_start (\<lambda>th :: nat. if th < 2 then get_to_lock_idx 5 [3, 3] else [])) 0) \<noteq> []"
    by (simp add: run_start_def get_to_lock_idx_def kInvalidID_def)
qed auto

end
