(* ===== verification/Float32.thy ===== *)
theory Float32
  imports Complex_Main CCANN_Prelude
begin

text \<open>
  IEEE 754 binary32 as the pruning code uses it: comparison, division, multiplication and
  \<^verbatim>\<open>std::max\<close> on \<^verbatim>\<open>float\<close>. A value is a rational, an infinity or a NaN; results are rounded to 24
  significant bits, to nearest with ties to even, with gradual underflow and overflow to infinity. The
  sign of zero is not kept: it only shows in a division by a zero of negative sign, which the code does
  not produce.
\<close>

datatype fl = Fin rat | PInf | NInf | NaN

section \<open>Rounding\<close>

text \<open>\<open>floor (log2 a)\<close> of a positive rational.\<close>

function ilog2_up :: "rat \<Rightarrow> nat" where
  "ilog2_up a = (if a < 2 then 0 else Suc (ilog2_up (a / 2)))"
  by auto
termination
proof (relation "measure (\<lambda>a. nat \<lfloor>a\<rfloor>)")
  fix a :: rat assume "\<not> a < 2"
  then have "\<lfloor>a / 2\<rfloor> < \<lfloor>a\<rfloor>" by linarith
  moreover have "0 < \<lfloor>a\<rfloor>" using \<open>\<not> a < 2\<close> by linarith
  ultimately show "(a / 2, a) \<in> measure (\<lambda>a. nat \<lfloor>a\<rfloor>)" by simp
qed simp

declare ilog2_up.simps [simp del]

text \<open>Multiplying by a power of two with an integer exponent.\<close>

definition scale2 :: "int \<Rightarrow> rat \<Rightarrow> rat" where
  "scale2 e x = (if 0 \<le> e then x * 2 ^ nat e else x / 2 ^ nat (- e))"

definition ilog2 :: "rat \<Rightarrow> int" where
  "ilog2 a = (if 1 \<le> a then int (ilog2_up a)
              else let k = int (ilog2_up (1 / a)) in if scale2 k a < 1 then - k - 1 else - k)"

definition round_even :: "rat \<Rightarrow> int" where
  "round_even x =
     (let f = \<lfloor>x\<rfloor>; d = x - of_int f
      in if d < 1 / 2 then f else if 1 / 2 < d then f + 1 else if even f then f else f + 1)"

definition round32 :: "rat \<Rightarrow> fl" where
  "round32 x =
     (if x = 0 then Fin 0
      else let e = max (- 126) (ilog2 \<bar>x\<bar>) - 23;
               y = scale2 e (of_int (round_even (scale2 (- e) \<bar>x\<bar>)))
           in if 2 ^ 128 \<le> y then (if 0 < x then PInf else NInf)
              else Fin (if 0 < x then y else - y))"

section \<open>Comparison and arithmetic\<close>

fun flt :: "fl \<Rightarrow> fl \<Rightarrow> bool" where
  "flt NaN _ = False"
| "flt _ NaN = False"
| "flt (Fin a) (Fin b) = (a < b)"
| "flt NInf b = (b \<noteq> NInf)"
| "flt PInf _ = False"
| "flt (Fin _) b = (b = PInf)"

fun feq :: "fl \<Rightarrow> fl \<Rightarrow> bool" where
  "feq NaN _ = False"
| "feq a b = (a = b)"

definition fle :: "fl \<Rightarrow> fl \<Rightarrow> bool" where
  "fle a b = (flt a b \<or> feq a b)"

definition fsgn :: "fl \<Rightarrow> int" where
  "fsgn x = (case x of Fin a \<Rightarrow> (if a < 0 then - 1 else if a = 0 then 0 else 1) | PInf \<Rightarrow> 1 | NInf \<Rightarrow> - 1 | NaN \<Rightarrow> 0)"

definition finf :: "int \<Rightarrow> fl" where
  "finf s = (if s < 0 then NInf else if 0 < s then PInf else NaN)"

fun fmul :: "fl \<Rightarrow> fl \<Rightarrow> fl" where
  "fmul NaN _ = NaN"
| "fmul _ NaN = NaN"
| "fmul (Fin a) (Fin b) = round32 (a * b)"
| "fmul a b = finf (fsgn a * fsgn b)"

fun fdiv :: "fl \<Rightarrow> fl \<Rightarrow> fl" where
  "fdiv NaN _ = NaN"
| "fdiv _ NaN = NaN"
| "fdiv (Fin a) (Fin b) = (if b = 0 then finf (fsgn (Fin a)) else round32 (a / b))"
| "fdiv (Fin a) _ = Fin 0"
| "fdiv a (Fin b) = finf (fsgn a * (if b = 0 then 1 else fsgn (Fin b)))"
| "fdiv a b = NaN"

text \<open>\<^verbatim>\<open>std::max(a, b)\<close> is \<^verbatim>\<open>(a < b) ? b : a\<close>.\<close>

definition fmax :: "fl \<Rightarrow> fl \<Rightarrow> fl" where
  "fmax a b = (if flt a b then b else a)"

text \<open>The literals \<^verbatim>\<open>1.2f\<close> and \<^verbatim>\<open>std::numeric_limits<float>::max()\<close>.\<close>

definition f1_2 :: fl where
  "f1_2 = Fin (10066330 / 8388608)"

definition f_max :: fl where
  "f_max = Fin (16777215 * 2 ^ 104)"

section \<open>The ordering of values that are numbers\<close>

instantiation fl :: linorder
begin

definition less_eq_fl :: "fl \<Rightarrow> fl \<Rightarrow> bool" where
  "less_eq_fl a b \<longleftrightarrow> (case a of NInf \<Rightarrow> True | Fin x \<Rightarrow> (case b of NInf \<Rightarrow> False | Fin y \<Rightarrow> x \<le> y | _ \<Rightarrow> True)
     | PInf \<Rightarrow> b = PInf \<or> b = NaN | NaN \<Rightarrow> b = NaN)"

definition less_fl :: "fl \<Rightarrow> fl \<Rightarrow> bool" where
  "less_fl a b \<longleftrightarrow> a \<le> b \<and> \<not> b \<le> (a :: fl)"

instance
  by standard (auto simp: less_eq_fl_def less_fl_def split: fl.splits)

end

lemma flt_less: "a \<noteq> NaN \<Longrightarrow> b \<noteq> NaN \<Longrightarrow> flt a b \<longleftrightarrow> a < b"
  by (cases a; cases b) (auto simp: less_fl_def less_eq_fl_def)

lemma feq_eq: "a \<noteq> NaN \<Longrightarrow> feq a b \<longleftrightarrow> a = b"
  by (cases a) auto

lemma fle_le: "a \<noteq> NaN \<Longrightarrow> b \<noteq> NaN \<Longrightarrow> fle a b \<longleftrightarrow> a \<le> b"
  by (auto simp: fle_def flt_less feq_eq)

lemma flt_irrefl [simp]: "\<not> flt a a"
  by (cases a) auto

section \<open>Rounding errors\<close>

lemma ilog2_up_bounds: "1 \<le> a \<Longrightarrow> 2 ^ ilog2_up a \<le> a \<and> a < 2 ^ Suc (ilog2_up a)"
proof (induction a rule: ilog2_up.induct)
  case (1 a)
  show ?case
  proof (cases "a < 2")
    case True
    then show ?thesis using 1 by (simp add: ilog2_up.simps)
  next
    case False
    then have "ilog2_up a = Suc (ilog2_up (a / 2))" by (simp add: ilog2_up.simps)
    then show ?thesis using 1 False by simp
  qed
qed

lemma round_even_error: "\<bar>of_int (round_even x) - x\<bar> \<le> 1 / 2"
proof -
  define f where "f = \<lfloor>x\<rfloor>"
  have "of_int f \<le> x" "x < of_int f + 1" unfolding f_def by linarith+
  then show ?thesis unfolding round_even_def f_def[symmetric] Let_def by (auto split: if_splits simp: abs_if)
qed

text \<open>\<open>scale2\<close> multiplies by a positive factor; \<open>ilog2\<close> is the binary exponent.\<close>

definition two_pow :: "int \<Rightarrow> rat" where
  "two_pow e = scale2 e 1"

lemma two_pow_pos [simp]: "0 < two_pow e"
  by (simp add: two_pow_def scale2_def)

lemma scale2_two_pow: "scale2 e x = x * two_pow e"
  by (simp add: two_pow_def scale2_def)

lemma two_pow_Suc: "two_pow (e + 1) = 2 * two_pow e"
proof (cases "0 \<le> e")
  case True
  then have "nat (e + 1) = Suc (nat e)" by (simp add: nat_add_distrib)
  then show ?thesis using True by (simp add: two_pow_def scale2_def)
next
  case False
  show ?thesis
  proof (cases "e = - 1")
    case True
    then show ?thesis by (simp add: two_pow_def scale2_def)
  next
    case F: False
    then have "nat (- e) = Suc (nat (- (e + 1)))" using False by (simp add: nat_eq_iff)
    then show ?thesis using False F by (simp add: two_pow_def scale2_def)
  qed
qed

lemma two_pow_add_nat: "two_pow (e + int n) = 2 ^ n * two_pow e"
proof (induction n)
  case (Suc n)
  have "two_pow (e + int (Suc n)) = two_pow ((e + int n) + 1)" by (simp add: algebra_simps)
  then show ?case using Suc by (simp add: two_pow_Suc)
qed simp

lemma two_pow_minus: "two_pow (- e) * two_pow e = 1"
  by (auto simp: two_pow_def scale2_def)

lemma two_pow_mono: "e \<le> f \<Longrightarrow> two_pow e \<le> two_pow f"
  using two_pow_add_nat[of e "nat (f - e)"] by (simp add: less_imp_le)

lemma ilog2_bound: "0 < a \<Longrightarrow> two_pow (ilog2 a) \<le> a"
proof (cases "1 \<le> a")
  case True
  then show ?thesis using ilog2_up_bounds[OF True] by (simp add: ilog2_def two_pow_def scale2_def)
next
  case False
  assume "0 < a"
  define k where "k = int (ilog2_up (1 / a))"
  have "1 \<le> 1 / a" using False \<open>0 < a\<close> by simp
  from ilog2_up_bounds[OF this] have "1 / a < 2 * two_pow k" by (simp add: k_def two_pow_def scale2_def)
  then have 1: "1 < 2 * (a * two_pow k)" using \<open>0 < a\<close> by (simp add: field_simps)
  have inv: "two_pow (- k) * two_pow k = 1" by (rule two_pow_minus)
  show ?thesis
  proof (cases "scale2 k a < 1")
    case True
    then have e: "ilog2 a = - k - 1" using False by (simp add: ilog2_def k_def Let_def)
    have "two_pow (- k) = 2 * two_pow (- k - 1)" using two_pow_Suc[of "- k - 1"] by simp
    then have "2 * two_pow (- k - 1) * two_pow k < 2 * a * two_pow k" using 1 inv by simp
    then show ?thesis using e by simp
  next
    case F: False
    then have "ilog2 a = - k" using False by (simp add: ilog2_def k_def Let_def)
    moreover have "two_pow (- k) * two_pow k \<le> a * two_pow k" using F inv by (simp add: scale2_two_pow)
    ultimately show ?thesis by simp
  qed
qed

lemma round32_error:
  assumes "two_pow (- 126) \<le> x"
  shows "(round32 x = PInf \<and> 2 ^ 128 \<le> x + x / 2 ^ 24) \<or> (\<exists>y. round32 x = Fin y \<and> \<bar>y - x\<bar> \<le> x / 2 ^ 24)"
proof -
  have x: "0 < x" using assms two_pow_pos[of "- 126"] by (rule order_less_le_trans[rotated])
  define m where "m = max (- 126) (ilog2 x)"
  define u where "u = two_pow (m - 23)"
  have u: "0 < u" by (simp add: u_def)
  have "two_pow m \<le> x" using assms ilog2_bound[OF x] by (simp add: m_def max_def)
  moreover have "two_pow m = 2 ^ 23 * u" using two_pow_add_nat[of "m - 23" 23] by (simp add: u_def)
  ultimately have ux: "2 ^ 23 * u \<le> x" by simp
  have inv: "scale2 (- (m - 23)) x = x / u"
  proof -
    have "x * two_pow (- (m - 23)) * u = x"
      using two_pow_minus[of "m - 23"] by (simp add: u_def mult.assoc)
    then show ?thesis using u by (simp add: scale2_two_pow eq_divide_eq)
  qed
  define r where "r = (of_int (round_even (x / u)) :: rat)"
  have "\<bar>r - x / u\<bar> * u \<le> 1 / 2 * u"
    using round_even_error[of "x / u"] u by (intro mult_right_mono) (simp_all add: r_def)
  moreover have "\<bar>r - x / u\<bar> * u = \<bar>r * u - x\<bar>" using u by (simp add: abs_mult_pos left_diff_distrib)
  ultimately have "\<bar>r * u - x\<bar> \<le> x / 2 ^ 24" using ux by simp
  moreover have "round32 x = (if 2 ^ 128 \<le> r * u then PInf else Fin (r * u))"
    using x inv by (simp add: round32_def Let_def scale2_two_pow m_def u_def r_def)
  moreover from calculation(1) have "r * u \<le> x + x / 2 ^ 24" unfolding abs_le_iff by linarith
  ultimately show ?thesis by auto
qed

lemma round32_ge:
  assumes "1 \<le> x"
  shows "round32 x = PInf \<or> (\<exists>y. round32 x = Fin y \<and> x * (1 - 1 / 2 ^ 24) \<le> y)"
proof -
  have "two_pow (- 126) \<le> two_pow 0" by (intro two_pow_mono) simp
  then have "two_pow (- 126) \<le> x" using assms by (simp add: two_pow_def scale2_def)
  from round32_error[OF this] show ?thesis
  proof
    assume "\<exists>y. round32 x = Fin y \<and> \<bar>y - x\<bar> \<le> x / 2 ^ 24"
    then obtain y where y: "round32 x = Fin y" "\<bar>y - x\<bar> \<le> x / 2 ^ 24" by blast
    from y(2) have "x * (1 - 1 / 2 ^ 24) \<le> y" unfolding abs_le_iff right_diff_distrib by simp
    then show ?thesis using y(1) by blast
  qed simp
qed

text \<open>Multiplying by \<^verbatim>\<open>1.2f\<close> grows a value of at least one by a fixed amount, or overflows.\<close>

lemma fmul_1_2_grows:
  assumes "1 \<le> x"
  shows "fmul (Fin x) f1_2 = PInf \<or> (\<exists>y. fmul (Fin x) f1_2 = Fin y \<and> x + 1 / 10 \<le> y)"
proof -
  let ?p = "x * (10066330 / 8388608)"
  have "1 \<le> ?p" using assms by simp
  from round32_ge[OF this] show ?thesis
  proof
    assume "\<exists>y. round32 ?p = Fin y \<and> ?p * (1 - 1 / 2 ^ 24) \<le> y"
    then obtain y where y: "round32 ?p = Fin y" "?p * (1 - 1 / 2 ^ 24) \<le> y" by blast
    have "x * (11 / 10) \<le> ?p * (1 - 1 / 2 ^ 24)" using assms by simp
    then have "x + 1 / 10 \<le> y" using y(2) assms by linarith
    then show ?thesis using y(1) by (simp add: f1_2_def)
  qed (simp add: f1_2_def)
qed

text \<open>Dividing by \<^verbatim>\<open>1.2f\<close> shrinks a value of at least 0.9 by a fixed amount.\<close>

lemma fdiv_1_2_shrinks:
  assumes "9 / 10 \<le> x" "x < 2 ^ 128"
  shows "\<exists>y. fdiv (Fin x) f1_2 = Fin y \<and> y \<le> x - 1 / 10"
proof -
  let ?p = "x / (10066330 / 8388608)"
  have "two_pow (- 126) \<le> two_pow (- 1)" by (intro two_pow_mono) simp
  then have "two_pow (- 126) \<le> ?p" using assms by (simp add: two_pow_def scale2_def)
  from round32_error[OF this] show ?thesis
  proof
    assume "\<exists>y. round32 ?p = Fin y \<and> \<bar>y - ?p\<bar> \<le> ?p / 2 ^ 24"
    then obtain y where y': "round32 ?p = Fin y" "\<bar>y - ?p\<bar> \<le> ?p / 2 ^ 24" by blast
    have y: "round32 ?p = Fin y" "y \<le> ?p + ?p / 2 ^ 24"
      using y' unfolding abs_le_iff by linarith+
    have "?p + ?p / 2 ^ 24 \<le> x * (5 / 6 + 1 / 1000)" using assms by simp
    also have "x * (5 / 6 + 1 / 1000) \<le> x - 1 / 10" using assms by simp
    finally have "y \<le> x - 1 / 10" by (rule order_trans[OF y(2)])
    then show ?thesis using y(1) by (simp add: f1_2_def)
  next
    assume "round32 ?p = PInf \<and> 2 ^ 128 \<le> ?p + ?p / 2 ^ 24"
    then have "2 ^ 128 \<le> ?p + ?p / 2 ^ 24" ..
    moreover have "?p + ?p / 2 ^ 24 \<le> x" using assms(1) by simp
    ultimately show ?thesis using assms(2) by linarith
  qed
qed

end
