(* ===== verification/Neighbor_Pool.thy ===== *)
theory Neighbor_Pool
  imports CCANN_Prelude "HOL-Library.Multiset" "HOL-Library.Product_Lexorder"
begin

text \<open>
  \<^verbatim>\<open>include/neighbor.h\<close>: candidates with their distances and the ordered candidate pool. The order
  of the structs only compares distances and ids, so it is modelled over any linear order of distances
  (a distance that is a NaN is excluded). \<^verbatim>\<open>InsertIntoPool\<close> works on an array of at least \<open>K + 1\<close>
  cells, of which the first \<open>K\<close> are the pool.
\<close>

record 'd Neighbor =
  nid :: nat
  distance :: 'd
  flag :: bool
  visited :: bool

definition mk_Neighbor :: "nat \<Rightarrow> 'd \<Rightarrow> bool \<Rightarrow> 'd Neighbor" where
  "mk_Neighbor i d f = \<lparr>nid = i, distance = d, flag = f, visited = False\<rparr>"

definition Neighbor_less :: "'d::linorder Neighbor \<Rightarrow> 'd Neighbor \<Rightarrow> bool" where
  "Neighbor_less a b = (distance a < distance b \<or> (distance a = distance b \<and> nid a < nid b))"

definition Neighbor_eq :: "'d Neighbor \<Rightarrow> 'd Neighbor \<Rightarrow> bool" where
  "Neighbor_eq a b = (nid a = nid b)"

definition Neighbor_greater :: "'d::linorder Neighbor \<Rightarrow> 'd Neighbor \<Rightarrow> bool" where
  "Neighbor_greater a b = (distance a > distance b \<or> (distance a = distance b \<and> nid a > nid b))"

record ('g, 'd) NeighborTag =
  ntag :: 'g
  ndist :: 'd

definition NeighborTag_less :: "('g::linorder, 'd::linorder) NeighborTag \<Rightarrow> ('g, 'd) NeighborTag \<Rightarrow> bool" where
  "NeighborTag_less a b = (ndist a < ndist b \<or> (ndist a = ndist b \<and> ntag a < ntag b))"

record 'd SimpleNeighbor =
  sid :: nat
  sdistance :: 'd

definition SimpleNeighbor_less :: "'d::linorder SimpleNeighbor \<Rightarrow> 'd SimpleNeighbor \<Rightarrow> bool" where
  "SimpleNeighbor_less a b = (sdistance a < sdistance b \<or> (sdistance a = sdistance b \<and> sid a < sid b))"

section \<open>Insertion into the ordered pool\<close>

text \<open>The binary search: \<^verbatim>\<open>addr[left]\<close> is not farther than \<^verbatim>\<open>nn\<close> and \<^verbatim>\<open>addr[right]\<close> is not nearer.\<close>

function pool_search :: "'d::linorder Neighbor list \<Rightarrow> 'd \<Rightarrow> nat \<Rightarrow> nat \<Rightarrow> nat \<times> nat" where
  "pool_search a d left right =
     (if right > 1 \<and> left < right - 1
      then let mid = (left + right) div 2
           in if distance (a ! mid) > d then pool_search a d left mid else pool_search a d mid right
      else (left, right))"
  by auto
termination
  by (relation "measure (\<lambda>(a, d, left, right). right - left)") auto

declare pool_search.simps [simp del]

text \<open>The check for an equal id among the candidates at the same distance.\<close>

fun pool_equal_id :: "'d::linorder Neighbor list \<Rightarrow> 'd Neighbor \<Rightarrow> nat \<Rightarrow> bool \<times> nat" where
  "pool_equal_id a nn 0 = (False, 0)"
| "pool_equal_id a nn (Suc left) =
     (if distance (a ! Suc left) < distance nn then (False, Suc left)
      else if nid (a ! Suc left) = nid nn then (True, Suc left)
      else pool_equal_id a nn left)"

text \<open>\<^verbatim>\<open>memmove(&addr[i + 1], &addr[i], n * sizeof(Neighbor))\<close>.\<close>

definition shift_up :: "'a list \<Rightarrow> nat \<Rightarrow> nat \<Rightarrow> 'a list" where
  "shift_up a i n = take (i + 1) a @ take n (drop i a) @ drop (i + 1 + n) a"

definition InsertIntoPool :: "'d::linorder Neighbor list \<Rightarrow> nat \<Rightarrow> 'd Neighbor \<Rightarrow> (nat \<times> 'd Neighbor list) outcome" where
  "InsertIntoPool a K nn =
     (if K = 0 \<or> length a \<le> K then Inl Undefined
      else if distance (a ! 0) > distance nn then Inr (0, (shift_up a 0 K)[0 := nn])
      else if distance (a ! (K - 1)) < distance nn then Inr (K, a[K := nn])
      else let (left, right) = pool_search a (distance nn) 0 (K - 1);
               (dup, left) = pool_equal_id a nn left
           in if dup then Inr (K + 1, a)
              else if nid (a ! left) = nid nn \<or> nid (a ! right) = nid nn then Inr (K + 1, a)
              else Inr (right, (shift_up a right (K - right))[right := nn]))"

section \<open>The pool stays ordered\<close>

lemma pool_search_ok:
  assumes "left \<le> right" "distance (a ! left) \<le> d" "d \<le> distance (a ! right)"
    and "pool_search a d left right = (l, r)"
  shows "left \<le> l \<and> l \<le> r \<and> r \<le> right \<and> r \<le> Suc l \<and> distance (a ! l) \<le> d \<and> d \<le> distance (a ! r)
    \<and> (r = right \<or> d < distance (a ! r))"
  using assms
proof (induction a d left right rule: pool_search.induct)
  case (1 a d left right)
  let ?mid = "(left + right) div 2"
  show ?case
  proof (cases "right > 1 \<and> left < right - 1")
    case False
    then have "pool_search a d left right = (left, right)" by (subst pool_search.simps) (simp only: if_False)
    then have "l = left" "r = right" using "1.prems"(4) by simp_all
    then show ?thesis using False "1.prems" by auto
  next
    case True
    show ?thesis
    proof (cases "distance (a ! ?mid) > d")
      case gt: True
      then have "pool_search a d left ?mid = (l, r)"
        using True "1.prems"(4) by (simp add: pool_search.simps[of a d left right] Let_def)
      moreover have "left \<le> ?mid" "?mid \<le> right" using True by auto
      ultimately
      have "left \<le> l \<and> l \<le> r \<and> r \<le> ?mid \<and> r \<le> Suc l \<and> distance (a ! l) \<le> d \<and> d \<le> distance (a ! r)
          \<and> (r = ?mid \<or> d < distance (a ! r))"
        using "1.IH"(1)[OF True refl gt _ "1.prems"(2) less_imp_le[OF gt]] by blast
      then show ?thesis using True gt by auto
    next
      case le: False
      then have "pool_search a d ?mid right = (l, r)"
        using True "1.prems"(4) by (simp add: pool_search.simps[of a d left right] Let_def)
      moreover have mid: "distance (a ! ?mid) \<le> d" "?mid \<le> right" "left \<le> ?mid" using le True by auto
      ultimately have "?mid \<le> l \<and> l \<le> r \<and> r \<le> right \<and> r \<le> Suc l \<and> distance (a ! l) \<le> d \<and> d \<le> distance (a ! r)
          \<and> (r = right \<or> d < distance (a ! r))"
        using "1.IH"(2)[OF True refl le _ _ "1.prems"(3)] by blast
      then show ?thesis using mid by auto
    qed
  qed
qed

lemma pool_equal_id_found:
  "pool_equal_id a nn l = (True, l') \<Longrightarrow> l' \<le> l \<and> nid (a ! l') = nid nn"
  by (induction l) (auto split: if_splits)

lemma pool_equal_id_not_found:
  "pool_equal_id a nn l = (False, l') \<Longrightarrow>
     l' \<le> l \<and> (\<forall>j. l' < j \<and> j \<le> l \<longrightarrow> nid (a ! j) \<noteq> nid nn) \<and> (l' = 0 \<or> distance (a ! l') < distance nn)"
  by (induction l) (auto split: if_splits simp: le_Suc_eq)

lemma shift_up_insert:
  assumes "i \<le> K" "K < length a"
  shows "(shift_up a i (K - i))[i := x] = take i a @ x # drop i (take K a) @ drop (Suc K) a"
proof -
  have "take (i + 1) a = take i a @ [a ! i]" using assms by (simp add: take_Suc_conv_app_nth)
  moreover have "take (K - i) (drop i a) = drop i (take K a)" by (simp add: drop_take)
  ultimately show ?thesis using assms by (simp add: shift_up_def list_update_append)
qed

lemma sorted_pool_insert:
  assumes "sorted (map distance xs)" "\<forall>y\<in>set (take r xs). distance y \<le> distance nn"
    "\<forall>y\<in>set (drop r xs). distance nn \<le> distance y"
  shows "sorted (map distance (take r xs @ nn # drop r xs))"
proof -
  have "sorted (map distance (take r xs @ drop r xs))" using assms(1) by simp
  then have "sorted (map distance (take r xs))" "sorted (map distance (drop r xs))"
    "\<forall>y\<in>set (take r xs). \<forall>z\<in>set (drop r xs). distance y \<le> distance z"
    unfolding map_append sorted_append by auto
  then show ?thesis using assms(2,3) unfolding map_append list.map sorted_append by auto
qed

lemma sorted_nth_le: "\<lbrakk>sorted (map f xs); i \<le> j; j < length xs\<rbrakk> \<Longrightarrow> f (xs ! i) \<le> f (xs ! j)"
  using sorted_nth_mono[of "map f xs" i j] by simp

text \<open>What the insertion does at the position it returns.\<close>

definition pool_inserted :: "'d::linorder Neighbor list \<Rightarrow> nat \<Rightarrow> 'd Neighbor \<Rightarrow> nat \<Rightarrow> 'd Neighbor list \<Rightarrow> bool" where
  "pool_inserted a K nn r a' \<longleftrightarrow> r \<le> K \<and> a' = take r a @ nn # drop r (take K a) @ drop (Suc K) a
     \<and> sorted (map distance (take (Suc K) a'))"

lemma pool_insertedI:
  assumes "K < length a" "r \<le> K" "sorted (map distance (take K a))"
    "\<And>i. i < r \<Longrightarrow> distance (a ! i) \<le> distance nn" "\<And>i. r \<le> i \<Longrightarrow> i < K \<Longrightarrow> distance nn \<le> distance (a ! i)"
  shows "pool_inserted a K nn r (take r a @ nn # drop r (take K a) @ drop (Suc K) a)"
proof -
  have t: "take r (take K a) = take r a" using assms(2) by simp
  have "\<forall>y\<in>set (take r (take K a)). distance y \<le> distance nn"
    using assms(1,2,4) by (auto simp: t in_set_conv_nth)
  moreover have "\<forall>y\<in>set (drop r (take K a)). distance nn \<le> distance y"
  proof
    fix y assume "y \<in> set (drop r (take K a))"
    then obtain j where "j < K - r" "y = a ! (r + j)" using assms(1,2) by (auto simp: in_set_conv_nth)
    then show "distance nn \<le> distance y" using assms(5)[of "r + j"] by simp
  qed
  ultimately have "sorted (map distance (take r (take K a) @ nn # drop r (take K a)))"
    using assms(3) by (intro sorted_pool_insert)
  moreover have "take (Suc K) (take r a @ nn # drop r (take K a) @ drop (Suc K) a) = take r a @ nn # drop r (take K a)"
    using assms(1,2) by (simp add: Suc_diff_le)
  ultimately show ?thesis using assms(2) t by (simp add: pool_inserted_def)
qed

lemma InsertIntoPool_ok:
  assumes "0 < K" "K < length a" "sorted (map distance (take K a))"
  shows "\<exists>r a'. InsertIntoPool a K nn = Inr (r, a')
    \<and> (if r = Suc K then a' = a \<and> (\<exists>i<K. nid (a ! i) = nid nn)
       else pool_inserted a K nn r a' \<and> \<not> (\<exists>i<K. nid (a ! i) = nid nn \<and> distance (a ! i) = distance nn))"
proof -
  have srt: "distance (a ! i) \<le> distance (a ! j)" if "i \<le> j" "j < K" for i j
    using sorted_nth_le[OF assms(3), of i j] that assms(2) by simp
  show ?thesis
  proof (cases "distance (a ! 0) > distance nn")
    case True
    have far: "distance nn < distance (a ! i)" if "i < K" for i
      using True srt[of 0 i] that by (simp add: order_less_le_trans)
    have none: "\<not> (\<exists>i<K. nid (a ! i) = nid nn \<and> distance (a ! i) = distance nn)" using far by force
    have "pool_inserted a K nn 0 (take 0 a @ nn # drop 0 (take K a) @ drop (Suc K) a)"
      using assms far by (intro pool_insertedI) (auto simp: less_imp_le)
    then show ?thesis
      using assms True none shift_up_insert[of 0 K a nn] by (simp add: InsertIntoPool_def)
  next
    case near: False
    show ?thesis
    proof (cases "distance (a ! (K - 1)) < distance nn")
      case True
      have below: "distance (a ! i) < distance nn" if "i < K" for i
        using that assms(1) by (intro order_le_less_trans[OF srt[of i "K - 1"] True]) auto
      have none: "\<not> (\<exists>i<K. nid (a ! i) = nid nn \<and> distance (a ! i) = distance nn)" using below by force
      have "a[K := nn] = take K a @ nn # drop K (take K a) @ drop (Suc K) a"
        using assms(2) by (simp add: upd_conv_take_nth_drop)
      moreover have "pool_inserted a K nn K (take K a @ nn # drop K (take K a) @ drop (Suc K) a)"
        using assms below by (intro pool_insertedI) (auto simp: less_imp_le)
      ultimately show ?thesis using assms near True none by (simp add: InsertIntoPool_def)
    next
      case far: False
      obtain l r where lr: "pool_search a (distance nn) 0 (K - 1) = (l, r)" by fastforce
      obtain dup l' where eq: "pool_equal_id a nn l = (dup, l')" by fastforce
      have ok: "l \<le> r" "r < K" "r \<le> Suc l" "distance (a ! l) \<le> distance nn" "distance nn \<le> distance (a ! r)"
        "r = K - 1 \<or> distance nn < distance (a ! r)"
      proof -
        have p: "distance (a ! 0) \<le> distance nn" "distance nn \<le> distance (a ! (K - 1))" using near far by auto
        from pool_search_ok[OF le0 p lr] show "l \<le> r" "r \<le> Suc l" "distance (a ! l) \<le> distance nn"
          "distance nn \<le> distance (a ! r)" "r = K - 1 \<or> distance nn < distance (a ! r)" by auto
        show "r < K" using pool_search_ok[OF le0 p lr] assms(1) by linarith
      qed
      let ?stop = "dup \<or> nid (a ! l') = nid nn \<or> nid (a ! r) = nid nn"
      have run: "InsertIntoPool a K nn = (if ?stop then Inr (Suc K, a)
          else Inr (r, take r a @ nn # drop r (take K a) @ drop (Suc K) a))"
        using assms near far lr eq ok(2) shift_up_insert[of r K a nn] by (auto simp: InsertIntoPool_def)
      show ?thesis
      proof (cases ?stop)
        case True
        have "l' \<le> l" using eq pool_equal_id_found[of a nn l l'] pool_equal_id_not_found[of a nn l l'] by (cases dup) auto
        then have "\<exists>i<K. nid (a ! i) = nid nn"
          using True ok(1,2) eq pool_equal_id_found[of a nn l l'] by (cases dup) (auto dest: order_le_less_trans)
        then show ?thesis using run True by auto
      next
        case False
        have nf: "l' \<le> l" "\<forall>j. l' < j \<and> j \<le> l \<longrightarrow> nid (a ! j) \<noteq> nid nn" "l' = 0 \<or> distance (a ! l') < distance nn"
          using pool_equal_id_not_found[of a nn l l'] eq False by auto
        have "\<not> (\<exists>i<K. nid (a ! i) = nid nn \<and> distance (a ! i) = distance nn)"
        proof
          assume "\<exists>i<K. nid (a ! i) = nid nn \<and> distance (a ! i) = distance nn"
          then obtain i where i: "i < K" "nid (a ! i) = nid nn" "distance (a ! i) = distance nn" by blast
          have "i \<noteq> r" using i(2) False by auto
          moreover have "\<not> r < i" using srt[of r i] i ok(6) by auto
          ultimately have "i \<le> l" using ok(3) by simp
          then have "i \<le> l'" using nf(2) i(2) by (meson not_le)
          then show False using nf(3) srt[of i l'] i False nf(1) ok(1,2) by auto
        qed
        moreover have "pool_inserted a K nn r (take r a @ nn # drop r (take K a) @ drop (Suc K) a)"
        proof (rule pool_insertedI)
          fix i assume "i < r"
          then have "distance (a ! i) \<le> distance (a ! l)" using ok(1-3) by (intro srt) auto
          then show "distance (a ! i) \<le> distance nn" using ok(4) by (rule order_trans)
        next
          fix i assume "r \<le> i" "i < K"
          then have "distance (a ! r) \<le> distance (a ! i)" by (rule srt)
          then show "distance nn \<le> distance (a ! i)" using ok(5) by (rule order_trans[rotated])
        qed (use assms ok in auto)
        ultimately show ?thesis using run False ok(2) by auto
      qed
    qed
  qed
qed

text \<open>
  C35. Inserting into an ordered pool of \<open>K\<close> candidates always returns: either the candidate is put at
  the returned position, all others keep their order, the cells behind the pool are untouched and the
  pool is again ordered by distance; or \<open>K + 1\<close> is returned, nothing changed and the pool already has a
  candidate with that id. A candidate that is in the pool with the same id and distance is never
  inserted a second time.
\<close>

theorem InsertIntoPool_correct:
  assumes "0 < K" "K < length a" "sorted (map distance (take K a))"
  shows "\<exists>r a'. InsertIntoPool a K nn = Inr (r, a')
    \<and> (if r = Suc K then a' = a \<and> (\<exists>i<K. nid (a ! i) = nid nn)
       else pool_inserted a K nn r a' \<and> \<not> (\<exists>i<K. nid (a ! i) = nid nn \<and> distance (a ! i) = distance nn))"
  by (rule InsertIntoPool_ok[OF assms])

theorem InsertIntoPool_correct_witness:
  "InsertIntoPool [mk_Neighbor 1 10 True, mk_Neighbor 2 (20 :: nat) True, mk_Neighbor 0 0 False] 2 (mk_Neighbor 3 15 True)
     = Inr (1, [mk_Neighbor 1 10 True, mk_Neighbor 3 15 True, mk_Neighbor 2 20 True])"
proof -
  let ?a = "[mk_Neighbor 1 10 True, mk_Neighbor 2 (20 :: nat) True, mk_Neighbor 0 0 False]"
  have "\<exists>r a'. InsertIntoPool ?a 2 (mk_Neighbor 3 15 True) = Inr (r, a')
    \<and> (if r = Suc 2 then a' = ?a \<and> (\<exists>i<2. nid (?a ! i) = nid (mk_Neighbor 3 (15 :: nat) True))
       else pool_inserted ?a 2 (mk_Neighbor 3 15 True) r a'
         \<and> \<not> (\<exists>i<2. nid (?a ! i) = nid (mk_Neighbor 3 (15 :: nat) True) \<and> distance (?a ! i) = distance (mk_Neighbor 3 15 True)))"
    by (rule InsertIntoPool_correct) (simp_all add: mk_Neighbor_def)
  then show ?thesis
    by (simp add: InsertIntoPool_def pool_search.simps shift_up_def mk_Neighbor_def)
qed

end
