(* ===== verification/Prune.thy ===== *)
theory Prune
  imports Float32 Neighbor_Pool "HOL-Library.Sublist"
begin

text \<open>
  \<^verbatim>\<open>src/utils/prune_neighbors.cpp\<close> and the degree-bounding code of \<^verbatim>\<open>insert_phase_pm\<close>: the
  selection of at most \<^verbatim>\<open>range\<close> out-neighbours from a candidate pool (\<^verbatim>\<open>prune_neighbors\<close>,
  \<^verbatim>\<open>prune_neighbors_pq\<close>) and the eviction of one neighbour from a list of \<^verbatim>\<open>range + 1\<close>
  (delta and batch pruning). Distances are \<^verbatim>\<open>float\<close>s; sorting assumes that no stored distance
  is a NaN, quotients may be. A loop that may not end is a partial function with value
  \<^term>\<open>None\<close> in that case, and its termination is proved for a finite \<^verbatim>\<open>alpha\<close>.
\<close>

text \<open>The members \<^verbatim>\<open>alpha\<close>, \<^verbatim>\<open>range\<close>, \<^verbatim>\<open>maxc\<close> and \<^verbatim>\<open>medoids[0]\<close> of \<^verbatim>\<open>SSDIndex\<close>.\<close>

record prune_params =
  alpha :: fl
  prange :: nat
  maxc :: nat
  medoid0 :: nat

section \<open>Occlusion\<close>

text \<open>\<^verbatim>\<open>std::set<Neighbor>::insert\<close>: an equivalent element stays.\<close>

fun set_insert :: "'d::linorder Neighbor \<Rightarrow> 'd Neighbor list \<Rightarrow> 'd Neighbor list" where
  "set_insert p [] = [p]"
| "set_insert p (q # qs) =
     (if Neighbor_less p q then p # q # qs
      else if Neighbor_less q p then q # set_insert p qs
      else q # qs)"

text \<open>
  The innermost loop: candidate \<open>t\<close> is charged with its distance divided by its distance to the
  selected candidate, unless it is beyond \<^verbatim>\<open>alpha\<close> already.
\<close>

fun occlude_row :: "prune_params \<Rightarrow> (nat \<Rightarrow> fl outcome) \<Rightarrow> fl Neighbor list \<Rightarrow> nat list \<Rightarrow> fl list \<Rightarrow> fl list outcome" where
  "occlude_row P d pool [] occ = Inr occ"
| "occlude_row P d pool (t # ts) occ =
     (if flt (alpha P) (occ ! t) then occlude_row P d pool ts occ
      else and_then (d (nid (pool ! t))) (\<lambda>djk.
        occlude_row P d pool ts (occ[t := fmax (occ ! t) (fdiv (distance (pool ! t)) djk)])))"

function occlude_round ::
  "prune_params \<Rightarrow> (nat \<Rightarrow> nat \<Rightarrow> fl outcome) \<Rightarrow> fl Neighbor list \<Rightarrow> fl \<Rightarrow> nat \<Rightarrow> fl list \<Rightarrow> fl Neighbor list
   \<Rightarrow> (fl list \<times> fl Neighbor list) outcome" where
  "occlude_round P dst pool cur_alpha start occ rs =
     (if length rs < prange P \<and> start < length pool \<and> start < maxc P
      then if flt cur_alpha (occ ! start) then occlude_round P dst pool cur_alpha (start + 1) occ rs
           else and_then
             (occlude_row P (dst (nid (pool ! start))) pool [start + 1 ..< min (length pool) (maxc P)] (occ[start := f_max]))
             (\<lambda>occ'. occlude_round P dst pool cur_alpha (start + 1) occ' (set_insert (pool ! start) rs))
      else Inr (occ, rs))"
  by pat_completeness auto
termination
  by (relation "measure (\<lambda>(P, dst, pool, cur, start, occ, rs). length pool - start)") auto

declare occlude_round.simps [simp del]

partial_function (option) occlude_loop ::
  "prune_params \<Rightarrow> (nat \<Rightarrow> nat \<Rightarrow> fl outcome) \<Rightarrow> fl Neighbor list \<Rightarrow> fl \<Rightarrow> fl list \<Rightarrow> fl Neighbor list
   \<Rightarrow> (fl Neighbor list) outcome option" where
  "occlude_loop P dst pool cur_alpha occ rs =
     (if fle cur_alpha (alpha P) \<and> length rs < prange P
      then case occlude_round P dst pool cur_alpha 0 occ rs of
             Inl e \<Rightarrow> Some (Inl e)
           | Inr r \<Rightarrow> occlude_loop P dst pool (fmul cur_alpha f1_2) (fst r) (snd r)
      else Some (Inr rs))"

text \<open>
  \<^verbatim>\<open>occlude_list\<close> compares full vectors: \<^verbatim>\<open>coord_map.find\<close> of an absent id gives
  \<^verbatim>\<open>end()\<close>, whose dereference is undefined.
\<close>

definition coord_dist :: "('v \<Rightarrow> 'v \<Rightarrow> fl) \<Rightarrow> (nat \<rightharpoonup> 'v) \<Rightarrow> nat \<Rightarrow> nat \<Rightarrow> fl outcome" where
  "coord_dist compare coord_map p t =
     (case (coord_map t, coord_map p) of (Some l, Some r) \<Rightarrow> Inr (compare l r) | _ \<Rightarrow> Inl Undefined)"

definition occlude_list ::
  "prune_params \<Rightarrow> ('v \<Rightarrow> 'v \<Rightarrow> fl) \<Rightarrow> fl Neighbor list \<Rightarrow> (nat \<rightharpoonup> 'v) \<Rightarrow> fl Neighbor list \<Rightarrow> fl list
   \<Rightarrow> (fl Neighbor list) outcome option" where
  "occlude_list P compare pool coord_map result occ =
     (if pool = [] then Some (Inr result)
      else map_option (map_sum id ((@) result)) (occlude_loop P (coord_dist compare coord_map) pool (Fin 1) occ []))"

definition is_sorted_pool :: "'d::linorder Neighbor list \<Rightarrow> bool" where
  "is_sorted_pool pool = sorted_wrt (\<lambda>a b. \<not> Neighbor_less b a) pool"

text \<open>\<^verbatim>\<open>compute_pq_dists(p.id, &pool[t].id, &djk, 1, scratch)\<close> is the argument \<open>pq_dist\<close>.\<close>

definition occlude_list_pq ::
  "prune_params \<Rightarrow> (nat \<Rightarrow> nat \<Rightarrow> fl) \<Rightarrow> fl Neighbor list \<Rightarrow> fl Neighbor list \<Rightarrow> fl list
   \<Rightarrow> (fl Neighbor list) outcome option" where
  "occlude_list_pq P pq_dist pool result occ =
     (if pool = [] then Some (Inr result)
      else if \<not> is_sorted_pool pool then Some (Inl Assert_failed)
      else map_option (map_sum id ((@) result)) (occlude_loop P (\<lambda>p t. Inr (pq_dist p t)) pool (Fin 1) occ []))"

section \<open>Pruning a candidate pool\<close>

text \<open>The loop that fills the list up to \<^verbatim>\<open>range\<close> with the nearest remaining candidates.\<close>

fun fill_pruned :: "nat \<Rightarrow> 'd Neighbor list \<Rightarrow> nat list \<Rightarrow> nat list" where
  "fill_pruned n [] pl = pl"
| "fill_pruned n (x # xs) pl =
     (if length pl < n then fill_pruned n xs (if nid x \<in> set pl then pl else pl @ [nid x]) else pl)"

definition prune_neighbors_pq ::
  "prune_params \<Rightarrow> (nat \<Rightarrow> nat \<Rightarrow> fl) \<Rightarrow> fl Neighbor list \<Rightarrow> nat list \<Rightarrow> nat list outcome option" where
  "prune_neighbors_pq P pq_dist pool pruned_list =
     (if pool = [] then Some (Inr pruned_list)
      else map_option (\<lambda>r. and_then r (\<lambda>result.
        if prange P < length result then Inl Assert_failed
        else Inr (if flt (Fin 1) (alpha P) then fill_pruned (prange P) pool (map nid result) else map nid result)))
        (occlude_list_pq P pq_dist pool [] (replicate (length pool) (Fin 0))))"

text \<open>The medoid is not kept beyond the first three quarters of the selection.\<close>

definition drop_medoid :: "prune_params \<Rightarrow> 'd Neighbor list \<Rightarrow> nat list" where
  "drop_medoid P result =
     map (\<lambda>i. nid (result ! i))
       (filter (\<lambda>i. \<not> (length result * 3 div 4 < i \<and> nid (result ! i) = medoid0 P)) [0..<length result])"

definition sort_pool :: "'d::linorder Neighbor list \<Rightarrow> 'd Neighbor list" where
  "sort_pool pool = sort_key (\<lambda>n. (distance n, nid n)) pool"

definition prune_neighbors ::
  "prune_params \<Rightarrow> ('v \<Rightarrow> 'v \<Rightarrow> fl) \<Rightarrow> (nat \<rightharpoonup> 'v) \<Rightarrow> fl Neighbor list \<Rightarrow> nat list \<Rightarrow> nat list outcome option" where
  "prune_neighbors P compare coord_map pool pruned_list =
     (if pool = [] then Some (Inr pruned_list)
      else let pool = sort_pool pool
           in map_option (\<lambda>r. and_then r (\<lambda>result.
                Inr (if flt (Fin 1) (alpha P) then fill_pruned (prange P) pool (drop_medoid P result)
                     else drop_medoid P result)))
                (occlude_list P compare pool coord_map [] (replicate (length pool) (Fin 0))))"

section \<open>Evicting one neighbour\<close>

record TriangleNeighbor =
  tid :: nat
  tgt_dis :: fl
  tdistance :: fl

definition TriangleNeighbor_less :: "TriangleNeighbor \<Rightarrow> TriangleNeighbor \<Rightarrow> bool" where
  "TriangleNeighbor_less a b = (tdistance a < tdistance b \<or> (tdistance a = tdistance b \<and> tid a < tid b))"

definition TriangleNeighbor_eq :: "TriangleNeighbor \<Rightarrow> TriangleNeighbor \<Rightarrow> bool" where
  "TriangleNeighbor_eq a b = (tid a = tid b)"

definition sort_tri :: "TriangleNeighbor list \<Rightarrow> TriangleNeighbor list" where
  "sort_tri pool = sort_key (\<lambda>n. (tdistance n, tid n)) pool"

text \<open>One pass of the fast path, from the farthest candidate down; \<^verbatim>\<open>range\<close> stands for the target.\<close>

fun fast_scan :: "prune_params \<Rightarrow> fl \<Rightarrow> fl \<Rightarrow> TriangleNeighbor list \<Rightarrow> nat \<Rightarrow> nat option" where
  "fast_scan P tgt_nbr_dis cur_alpha pool 0 = None"
| "fast_scan P tgt_nbr_dis cur_alpha pool (Suc i) =
     (if feq (tdistance (pool ! i)) (Fin 0) then fast_scan P tgt_nbr_dis cur_alpha pool i
      else if flt tgt_nbr_dis (tdistance (pool ! i))
      then if flt cur_alpha (fdiv (tdistance (pool ! i)) (tgt_dis (pool ! i))) then Some i
           else fast_scan P tgt_nbr_dis cur_alpha pool i
      else if flt cur_alpha (fdiv tgt_nbr_dis (tgt_dis (pool ! i))) then Some (prange P)
      else fast_scan P tgt_nbr_dis cur_alpha pool i)"

partial_function (option) fast_loop :: "prune_params \<Rightarrow> fl \<Rightarrow> TriangleNeighbor list \<Rightarrow> fl \<Rightarrow> nat option option" where
  "fast_loop P tgt_nbr_dis pool cur_alpha =
     (if fle (Fin (99999 / 100000)) cur_alpha
      then case fast_scan P tgt_nbr_dis cur_alpha pool (length pool) of
             Some e \<Rightarrow> Some (Some e)
           | None \<Rightarrow> fast_loop P tgt_nbr_dis pool (fdiv cur_alpha f1_2)
      else Some None)"

text \<open>The value is \<^verbatim>\<open>to_evict\<close>, with \<open>None\<close> for \<open>-1\<close>; the code returns \<^verbatim>\<open>to_evict != -1\<close> as \<^verbatim>\<open>pruned\<close>.\<close>

definition fast_delta_prune_neighbors_pq :: "prune_params \<Rightarrow> TriangleNeighbor list \<Rightarrow> fl \<Rightarrow> nat option option" where
  "fast_delta_prune_neighbors_pq P pool tgt_nbr_dis = fast_loop P tgt_nbr_dis pool (alpha P)"

definition finish :: "TriangleNeighbor list \<Rightarrow> nat \<Rightarrow> nat list" where
  "finish pool to_evict = map (\<lambda>i. tid (pool ! i)) (filter (\<lambda>i. i \<noteq> to_evict) [0..<length pool])"

fun slow_scan :: "prune_params \<Rightarrow> (nat \<Rightarrow> nat \<Rightarrow> fl) \<Rightarrow> TriangleNeighbor list \<Rightarrow> nat \<Rightarrow> nat list \<Rightarrow> nat option" where
  "slow_scan P pq_dist pool tgt_idx [] = None"
| "slow_scan P pq_dist pool tgt_idx (start # ss) =
     (if start = tgt_idx then slow_scan P pq_dist pool tgt_idx ss
      else case find (\<lambda>t. flt (alpha P) (fdiv (tdistance (pool ! t)) (pq_dist (tid (pool ! start)) (tid (pool ! t)))))
                  [start + 1 ..< length pool] of
             Some t \<Rightarrow> Some t
           | None \<Rightarrow> slow_scan P pq_dist pool tgt_idx ss)"

definition slow_delta_prune_neighbors_pq ::
  "prune_params \<Rightarrow> (nat \<Rightarrow> nat \<Rightarrow> fl) \<Rightarrow> TriangleNeighbor list \<Rightarrow> nat \<Rightarrow> nat list outcome" where
  "slow_delta_prune_neighbors_pq P pq_dist pool tgt_idx =
     (if length pool \<noteq> prange P + 1 then Inl Trap
      else case slow_scan P pq_dist pool tgt_idx [0..<length pool] of
             Some t \<Rightarrow> Inr (finish pool t)
           | None \<Rightarrow> Inr (finish pool (length pool - 1)))"

definition delta_prune_neighbors_pq ::
  "prune_params \<Rightarrow> (nat \<Rightarrow> nat \<Rightarrow> fl) \<Rightarrow> TriangleNeighbor list \<Rightarrow> nat \<Rightarrow> nat list outcome option" where
  "delta_prune_neighbors_pq P pq_dist pool tgt_idx =
     (if length pool \<le> tgt_idx then Some (Inl Undefined)
      else map_option (\<lambda>to_evict. case to_evict of
             Some e \<Rightarrow> Inr (finish pool (if e = prange P then tgt_idx else e))
           | None \<Rightarrow> slow_delta_prune_neighbors_pq P pq_dist pool tgt_idx)
           (fast_delta_prune_neighbors_pq P pool (tdistance (pool ! tgt_idx))))"

section \<open>Batch pruning\<close>

definition PRUNE_BATCH_SIZE :: "prune_params \<Rightarrow> nat" where
  "PRUNE_BATCH_SIZE P = prange P div 16"

definition mk_tri :: "nat \<Rightarrow> fl \<Rightarrow> fl \<Rightarrow> TriangleNeighbor" where
  "mk_tri i t d = \<lparr>tid = i, tgt_dis = t, tdistance = d\<rparr>"

definition tri_pool_of :: "nat list \<Rightarrow> fl list \<Rightarrow> fl list \<Rightarrow> TriangleNeighbor list" where
  "tri_pool_of ids tgt nbr = sort_tri (map (\<lambda>j. mk_tri (ids ! j) (tgt ! j) (nbr ! j)) [0..<length ids])"

text \<open>
  The batch loop. It ends with \<open>Inl nhood\<close> when a batch determined the victim, and with the two full
  distance buffers otherwise. The last batch reads \<^verbatim>\<open>nhood[k + j]\<close> for every \<open>j\<close> below the batch
  size, so it reads past the end when the batch is incomplete.
\<close>

partial_function (option) batch_loop ::
  "prune_params \<Rightarrow> (nat \<Rightarrow> nat \<Rightarrow> fl) \<Rightarrow> nat \<Rightarrow> nat \<Rightarrow> nat list \<Rightarrow> nat \<Rightarrow> fl list \<Rightarrow> fl list
   \<Rightarrow> (nat list + fl list \<times> fl list) outcome option" where
  "batch_loop P pq_dist target_id nbr_id nhood k tgt_dists nbr_dists =
     (if k < length nhood
      then let B = PRUNE_BATCH_SIZE P;
               ids = take B (drop k nhood);
               tgt_batch = map (pq_dist target_id) ids;
               nbr_batch = map (pq_dist nbr_id) ids
           in if length nhood < k + B then Some (Inl Undefined)
              else case fast_delta_prune_neighbors_pq P (tri_pool_of ids tgt_batch nbr_batch) (pq_dist target_id nbr_id) of
                     None \<Rightarrow> None
                   | Some (Some e) \<Rightarrow>
                       Some (Inr (Inl (if e \<noteq> prange P then take (k + e) nhood @ drop (k + e + 1) nhood else butlast nhood)))
                   | Some None \<Rightarrow>
                       batch_loop P pq_dist target_id nbr_id nhood (k + B)
                         (take k tgt_dists @ tgt_batch @ drop (k + length ids) tgt_dists)
                         (take k nbr_dists @ nbr_batch @ drop (k + length ids) nbr_dists)
      else Some (Inr (Inr (tgt_dists, nbr_dists))))"

definition find_target :: "nat \<Rightarrow> TriangleNeighbor list \<Rightarrow> nat option" where
  "find_target target_id pool = find (\<lambda>k. tid (pool ! k) = target_id) [0..<length pool]"

definition batch_prune ::
  "prune_params \<Rightarrow> (nat \<Rightarrow> nat \<Rightarrow> fl) \<Rightarrow> nat \<Rightarrow> nat \<Rightarrow> nat list \<Rightarrow> nat list outcome option" where
  "batch_prune P pq_dist target_id nbr_id nhood =
     map_option (\<lambda>r. and_then r (\<lambda>s. case s of
         Inl nhood' \<Rightarrow> Inr nhood'
       | Inr (tgt_dists, nbr_dists) \<Rightarrow>
           let tri_pool = tri_pool_of nhood tgt_dists nbr_dists
           in case find_target target_id tri_pool of
                None \<Rightarrow> Inl Exit
              | Some tgt_idx \<Rightarrow> slow_delta_prune_neighbors_pq P pq_dist tri_pool tgt_idx))
       (batch_loop P pq_dist target_id nbr_id nhood 0
          (replicate (length nhood) (Fin 0)) (replicate (length nhood) (Fin 0)))"

text \<open>The other two variants of the same step: all distances at once, and a full prune by PQ distance.\<close>

definition delta_prune ::
  "prune_params \<Rightarrow> (nat \<Rightarrow> nat \<Rightarrow> fl) \<Rightarrow> nat \<Rightarrow> nat \<Rightarrow> nat list \<Rightarrow> nat list outcome option" where
  "delta_prune P pq_dist target_id nbr_id nhood =
     (let tri_pool = tri_pool_of nhood (map (pq_dist target_id) nhood) (map (pq_dist nbr_id) nhood)
      in case find_target target_id tri_pool of
           None \<Rightarrow> Some (Inl Exit)
         | Some tgt_idx \<Rightarrow> delta_prune_neighbors_pq P pq_dist tri_pool tgt_idx)"

definition full_prune ::
  "prune_params \<Rightarrow> (nat \<Rightarrow> nat \<Rightarrow> fl) \<Rightarrow> nat \<Rightarrow> nat list \<Rightarrow> nat list outcome option" where
  "full_prune P pq_dist nbr_id nhood =
     prune_neighbors_pq P pq_dist (sort_pool (map (\<lambda>i. mk_Neighbor i (pq_dist nbr_id i) False) nhood)) []"

section \<open>What occlusion selects\<close>

text \<open>Candidate \<open>t\<close> is selected, up to the search flags.\<close>

definition selected :: "fl Neighbor list \<Rightarrow> fl Neighbor \<Rightarrow> bool" where
  "selected rs q = (\<exists>p\<in>set rs. distance p = distance q \<and> nid p = nid q)"

definition occlusion :: "(nat \<Rightarrow> nat \<Rightarrow> fl outcome) \<Rightarrow> fl Neighbor \<Rightarrow> fl Neighbor \<Rightarrow> fl \<Rightarrow> bool" where
  "occlusion dst p q v = (\<exists>d. dst (nid p) (nid q) = Inr d \<and> v = fdiv (distance q) d)"

definition occ_inv :: "prune_params \<Rightarrow> (nat \<Rightarrow> nat \<Rightarrow> fl outcome) \<Rightarrow> fl Neighbor list \<Rightarrow> fl list \<Rightarrow> fl Neighbor list \<Rightarrow> bool" where
  "occ_inv P dst pool occ rs \<longleftrightarrow>
     length occ = length pool \<and> set rs \<subseteq> set pool \<and> sorted_wrt Neighbor_less rs \<and> length rs \<le> prange P
     \<and> (\<forall>t < min (length pool) (maxc P).
          selected rs (pool ! t) \<or> occ ! t = Fin 0 \<or> (\<exists>p\<in>set rs. occlusion dst p (pool ! t) (occ ! t)))"

lemma set_insert_set: "set rs \<subseteq> set (set_insert p rs)" "set (set_insert p rs) \<subseteq> insert p (set rs)"
  by (induction p rs rule: set_insert.induct) auto

lemma set_insert_length: "length (set_insert p rs) \<le> Suc (length rs)"
  by (induction p rs rule: set_insert.induct) auto

lemma Neighbor_less_trans: "Neighbor_less a b \<Longrightarrow> Neighbor_less b c \<Longrightarrow> Neighbor_less a c"
  by (auto simp: Neighbor_less_def)

lemma set_insert_selected: "selected (set_insert p rs) p"
  by (induction p rs rule: set_insert.induct) (auto simp: selected_def Neighbor_less_def)

lemma set_insert_sorted: "sorted_wrt Neighbor_less rs \<Longrightarrow> sorted_wrt Neighbor_less (set_insert p rs)"
proof (induction p rs rule: set_insert.induct)
  case (2 p q qs)
  then show ?case
    using set_insert_set(2)[where p = p and rs = qs] by (auto intro: Neighbor_less_trans)
qed simp

lemma selected_mono: "selected rs q \<Longrightarrow> set rs \<subseteq> set rs' \<Longrightarrow> selected rs' q"
  by (auto simp: selected_def)

lemma occlude_row_ok:
  assumes "\<And>t. t \<in> set ts \<Longrightarrow> \<exists>v. d (nid (pool ! t)) = Inr v"
  shows "\<exists>occ'. occlude_row P d pool ts occ = Inr occ' \<and> length occ' = length occ
    \<and> (\<forall>t < length occ. occ' ! t = occ ! t \<or>
         (t \<in> set ts \<and> (\<exists>v. d (nid (pool ! t)) = Inr v \<and> occ' ! t = fdiv (distance (pool ! t)) v)))"
  using assms
proof (induction ts arbitrary: occ)
  case (Cons t ts)
  obtain v where v: "d (nid (pool ! t)) = Inr v" using Cons.prems by force
  define occ1 where "occ1 = (if flt (alpha P) (occ ! t) then occ
    else occ[t := fmax (occ ! t) (fdiv (distance (pool ! t)) v)])"
  have "occlude_row P d pool (t # ts) occ = occlude_row P d pool ts occ1" using v by (simp add: occ1_def)
  moreover obtain occ' where "occlude_row P d pool ts occ1 = Inr occ'" "length occ' = length occ1"
    and step: "\<And>s. s < length occ1 \<Longrightarrow> occ' ! s = occ1 ! s \<or>
         (s \<in> set ts \<and> (\<exists>v. d (nid (pool ! s)) = Inr v \<and> occ' ! s = fdiv (distance (pool ! s)) v))"
    using Cons.IH[of occ1] Cons.prems by auto
  moreover have "occ1 ! s = occ ! s \<or> (s = t \<and> occ1 ! s = fdiv (distance (pool ! s)) v)" if "s < length occ" for s
    using that by (cases "s = t") (auto simp: occ1_def fmax_def)
  moreover have "length occ1 = length occ" by (simp add: occ1_def)
  ultimately show ?case using v by fastforce
qed simp

definition dist_known :: "(nat \<Rightarrow> nat \<Rightarrow> fl outcome) \<Rightarrow> 'd Neighbor list \<Rightarrow> bool" where
  "dist_known dst pool \<longleftrightarrow> (\<forall>p\<in>set pool. \<forall>q\<in>set pool. \<exists>v. dst (nid p) (nid q) = Inr v)"

text \<open>Selecting the candidate \<open>start\<close> keeps the invariant.\<close>

lemma occlude_select:
  assumes inv: "occ_inv P dst pool occ rs" and dk: "dist_known dst pool"
    and s: "start < length pool" "length rs < prange P"
  shows "\<exists>occ'. occlude_row P (dst (nid (pool ! start))) pool [start + 1 ..< min (length pool) (maxc P)] (occ[start := f_max]) = Inr occ'
    \<and> occ_inv P dst pool occ' (set_insert (pool ! start) rs) \<and> (\<forall>t < start. occ' ! t = occ ! t)"
proof -
  let ?p = "pool ! start" and ?ts = "[start + 1 ..< min (length pool) (maxc P)]" and ?o = "occ[start := f_max]"
  let ?rs = "set_insert ?p rs"
  have kn: "\<And>t. t \<in> set ?ts \<Longrightarrow> \<exists>v. dst (nid ?p) (nid (pool ! t)) = Inr v"
    using dk s(1) by (simp add: dist_known_def)
  from occlude_row_ok[of ?ts "dst (nid ?p)" pool P ?o] kn obtain occ' where
    o: "occlude_row P (dst (nid ?p)) pool ?ts ?o = Inr occ'" "length occ' = length occ"
    and step: "\<And>t. t < length occ \<Longrightarrow> occ' ! t = ?o ! t \<or> (t \<in> set ?ts \<and>
      (\<exists>v. dst (nid ?p) (nid (pool ! t)) = Inr v \<and> occ' ! t = fdiv (distance (pool ! t)) v))"
    unfolding length_list_update by blast
  have len: "length occ = length pool" using inv by (simp add: occ_inv_def)
  have sub: "set rs \<subseteq> set ?rs" "set ?rs \<subseteq> set pool"
    using set_insert_set[where rs = rs and p = ?p] inv s(1) by (auto simp: occ_inv_def)
  have p: "\<exists>p'\<in>set ?rs. distance p' = distance ?p \<and> nid p' = nid ?p"
    using set_insert_selected[of ?p rs] by (auto simp: selected_def)
  have "selected ?rs (pool ! t) \<or> occ' ! t = Fin 0 \<or> (\<exists>p\<in>set ?rs. occlusion dst p (pool ! t) (occ' ! t))"
    if t: "t < min (length pool) (maxc P)" for t
  proof (cases "t = start")
    case True
    then show ?thesis using set_insert_selected by blast
  next
    case False
    then have "occ' ! t = occ ! t \<or> (\<exists>v. dst (nid ?p) (nid (pool ! t)) = Inr v \<and> occ' ! t = fdiv (distance (pool ! t)) v)"
      using step[of t] t len by auto
    moreover have "selected rs (pool ! t) \<or> occ ! t = Fin 0 \<or> (\<exists>p\<in>set rs. occlusion dst p (pool ! t) (occ ! t))"
      using inv t by (simp add: occ_inv_def)
    ultimately show ?thesis using p sub(1) selected_mono[OF _ sub(1)] by (auto simp: occlusion_def) (metis subsetD)+
  qed
  moreover have "length ?rs \<le> prange P" using set_insert_length[of ?p rs] s(2) by simp
  ultimately have "occ_inv P dst pool occ' ?rs"
    using inv o(2) sub(2) set_insert_sorted[of rs ?p] by (simp add: occ_inv_def)
  moreover have "occ' ! t = occ ! t" if "t < start" for t using step[of t] len s(1) that by auto
  ultimately show ?thesis using o(1) by blast
qed

lemma occlude_round_ok:
  assumes "occ_inv P dst pool occ rs" "dist_known dst pool"
  shows "\<exists>occ' rs'. occlude_round P dst pool c start occ rs = Inr (occ', rs') \<and> occ_inv P dst pool occ' rs'
    \<and> set rs \<subseteq> set rs' \<and> (\<forall>t < start. occ' ! t = occ ! t)
    \<and> (length rs' < prange P \<longrightarrow>
        (\<forall>t < min (length pool) (maxc P). start \<le> t \<longrightarrow> selected rs' (pool ! t) \<or> flt c (occ' ! t)))"
  using assms
proof (induction P dst pool c start occ rs rule: occlude_round.induct)
  case (1 P dst pool c start occ rs)
  let ?go = "length rs < prange P \<and> start < length pool \<and> start < maxc P"
  let ?done = "\<lambda>start occ' rs'. length rs' < prange P \<longrightarrow>
        (\<forall>t < min (length pool) (maxc P). start \<le> t \<longrightarrow> selected rs' (pool ! t) \<or> flt c (occ' ! t))"
  show ?case
  proof (cases ?go)
    case False
    then have "occlude_round P dst pool c start occ rs = Inr (occ, rs)"
      by (subst occlude_round.simps) (simp only: if_False)
    then show ?thesis using False 1 by auto
  next
    case go: True
    show ?thesis
    proof (cases "flt c (occ ! start)")
      case skip: True
      have e: "occlude_round P dst pool c start occ rs = occlude_round P dst pool c (start + 1) occ rs"
        using go skip by (subst occlude_round.simps) simp
      obtain occ' rs' where r: "occlude_round P dst pool c (start + 1) occ rs = Inr (occ', rs')"
        "occ_inv P dst pool occ' rs'" "set rs \<subseteq> set rs'" "\<forall>t < start + 1. occ' ! t = occ ! t" "?done (start + 1) occ' rs'"
        using "1.IH"(1)[OF go skip "1.prems"] by blast
      have "?done start occ' rs'"
        using r(4,5) skip by (metis Suc_eq_plus1 Suc_leI le_neq_implies_less less_add_one)
      then show ?thesis using e r by auto
    next
      case sel: False
      let ?rs = "set_insert (pool ! start) rs"
      obtain occ1 where o1: "occlude_row P (dst (nid (pool ! start))) pool [start + 1 ..< min (length pool) (maxc P)] (occ[start := f_max]) = Inr occ1"
        "occ_inv P dst pool occ1 ?rs" "\<forall>t < start. occ1 ! t = occ ! t"
        using occlude_select[OF "1.prems"] go by blast
      have e: "occlude_round P dst pool c start occ rs = occlude_round P dst pool c (start + 1) occ1 ?rs"
        using go sel o1(1) by (subst occlude_round.simps) simp
      obtain occ' rs' where r: "occlude_round P dst pool c (start + 1) occ1 ?rs = Inr (occ', rs')"
        "occ_inv P dst pool occ' rs'" "set ?rs \<subseteq> set rs'" "\<forall>t < start + 1. occ' ! t = occ1 ! t" "?done (start + 1) occ' rs'"
        using "1.IH"(2)[OF go sel o1(2) "1.prems"(2)] by blast
      have "selected rs' (pool ! start)" using set_insert_selected r(3) selected_mono by blast
      then have "?done start occ' rs'"
        using r(5) by (metis Suc_eq_plus1 Suc_leI le_neq_implies_less)
      moreover have "set rs \<subseteq> set rs'" using set_insert_set(1) r(3) by blast
      ultimately show ?thesis using e r o1(3) by auto
    qed
  qed
qed

text \<open>
  A selection that did not reach \<^verbatim>\<open>range\<close> leaves out only candidates that are occluded: some selected
  candidate is nearer to them than the node is.
\<close>

definition maximal :: "prune_params \<Rightarrow> (nat \<Rightarrow> nat \<Rightarrow> fl outcome) \<Rightarrow> fl Neighbor list \<Rightarrow> fl Neighbor list \<Rightarrow> bool" where
  "maximal P dst pool rs \<longleftrightarrow> (length rs < prange P \<longrightarrow>
     (\<forall>t < min (length pool) (maxc P).
        selected rs (pool ! t) \<or> (\<exists>p\<in>set rs. \<exists>v. occlusion dst p (pool ! t) v \<and> flt (Fin 1) v)))"

lemma flt_Fin_trans: "1 \<le> c \<Longrightarrow> flt (Fin c) v \<Longrightarrow> flt (Fin 1) v"
  by (cases v) auto

lemma round_maximal:
  assumes "occ_inv P dst pool occ rs" "1 \<le> c"
    and "length rs < prange P \<longrightarrow> (\<forall>t < min (length pool) (maxc P). selected rs (pool ! t) \<or> flt (Fin c) (occ ! t))"
  shows "maximal P dst pool rs"
  unfolding maximal_def
proof (intro impI allI)
  fix t assume t: "length rs < prange P" "t < min (length pool) (maxc P)"
  have "selected rs (pool ! t) \<or> occ ! t = Fin 0 \<or> (\<exists>p\<in>set rs. occlusion dst p (pool ! t) (occ ! t))"
    using assms(1) t(2) by (simp add: occ_inv_def)
  moreover have "selected rs (pool ! t) \<or> flt (Fin c) (occ ! t)" using assms(3) t by blast
  ultimately show "selected rs (pool ! t) \<or> (\<exists>p\<in>set rs. \<exists>v. occlusion dst p (pool ! t) v \<and> flt (Fin 1) v)"
    using flt_Fin_trans[OF assms(2)] assms(2) by auto
qed

lemma occlude_loop_exit: "\<not> fle c (alpha P) \<Longrightarrow> occlude_loop P dst pool c occ rs = Some (Inr rs)"
  by (subst occlude_loop.simps) simp

lemma occlude_loop_ok:
  assumes a: "alpha P = Fin a" and dk: "dist_known dst pool"
  shows "(a - c) * 10 < of_nat n \<Longrightarrow> 1 \<le> c \<Longrightarrow> occ_inv P dst pool occ rs \<Longrightarrow> (c \<le> a \<or> maximal P dst pool rs) \<Longrightarrow>
    \<exists>rs' occ'. occlude_loop P dst pool (Fin c) occ rs = Some (Inr rs') \<and> occ_inv P dst pool occ' rs'
      \<and> set rs \<subseteq> set rs' \<and> maximal P dst pool rs'"
proof (induction n arbitrary: c occ rs)
  case 0
  then have "a < c" by simp
  then have "\<not> fle (Fin c) (alpha P)" by (simp add: a fle_def)
  then show ?case using 0 \<open>a < c\<close> occlude_loop_exit by fastforce
next
  case (Suc n)
  show ?case
  proof (cases "fle (Fin c) (alpha P) \<and> length rs < prange P")
    case False
    then have "occlude_loop P dst pool (Fin c) occ rs = Some (Inr rs)" by (subst occlude_loop.simps) auto
    moreover have "maximal P dst pool rs" using False Suc.prems(4) by (auto simp: a fle_def maximal_def)
    ultimately show ?thesis using Suc.prems(3) by blast
  next
    case True
    obtain occ1 rs1 where r: "occlude_round P dst pool (Fin c) 0 occ rs = Inr (occ1, rs1)" "occ_inv P dst pool occ1 rs1"
      "set rs \<subseteq> set rs1"
      "length rs1 < prange P \<longrightarrow> (\<forall>t < min (length pool) (maxc P). selected rs1 (pool ! t) \<or> flt (Fin c) (occ1 ! t))"
      using occlude_round_ok[OF Suc.prems(3) dk, of "Fin c" 0] by auto
    note m = round_maximal[OF r(2) Suc.prems(2) r(4)]
    have e: "occlude_loop P dst pool (Fin c) occ rs = occlude_loop P dst pool (fmul (Fin c) f1_2) occ1 rs1"
      using True r(1) by (subst occlude_loop.simps) simp
    from fmul_1_2_grows[OF Suc.prems(2)] show ?thesis
    proof
      assume "fmul (Fin c) f1_2 = PInf"
      then have "occlude_loop P dst pool (Fin c) occ rs = Some (Inr rs1)"
        using e occlude_loop_exit by (simp add: a fle_def)
      then show ?thesis using r m by blast
    next
      assume "\<exists>y. fmul (Fin c) f1_2 = Fin y \<and> c + 1 / 10 \<le> y"
      then obtain y where y: "fmul (Fin c) f1_2 = Fin y" "c + 1 / 10 \<le> y" by blast
      have "(a - y) * 10 < of_nat n" "1 \<le> y" using y(2) Suc.prems(1,2) by auto
      from Suc.IH[OF this r(2)] m e y(1) r(3) show ?thesis by (simp) (meson order_trans)
    qed
  qed
qed

lemma occ_inv_start: "occ_inv P dst pool (replicate (length pool) (Fin 0)) []"
  by (simp add: occ_inv_def)

text \<open>The nearest candidate is always selected.\<close>

lemma occlude_first:
  assumes "alpha P = Fin a" "1 \<le> a" "pool \<noteq> []" "0 < prange P" "0 < maxc P" and dk: "dist_known dst pool"
  shows "\<exists>rs occ'. occlude_loop P dst pool (Fin 1) (replicate (length pool) (Fin 0)) [] = Some (Inr rs)
    \<and> occ_inv P dst pool occ' rs \<and> maximal P dst pool rs \<and> pool ! 0 \<in> set rs"
proof -
  let ?o = "replicate (length pool) (Fin 0)"
  obtain occ1 where o1: "occlude_row P (dst (nid (pool ! 0))) pool [0 + 1 ..< min (length pool) (maxc P)] (?o[0 := f_max]) = Inr occ1"
    "occ_inv P dst pool occ1 [pool ! 0]"
    using occlude_select[OF occ_inv_start dk, of 0 P] assms by auto
  have "occlude_round P dst pool (Fin 1) 0 ?o [] = occlude_round P dst pool (Fin 1) (0 + 1) occ1 [pool ! 0]"
    using o1(1) assms by (subst occlude_round.simps) simp
  moreover obtain occ2 rs2 where r: "occlude_round P dst pool (Fin 1) (0 + 1) occ1 [pool ! 0] = Inr (occ2, rs2)"
    "occ_inv P dst pool occ2 rs2" "set [pool ! 0] \<subseteq> set rs2"
    using occlude_round_ok[OF o1(2) dk] by blast
  moreover obtain occ3 rs3 where q: "occlude_round P dst pool (Fin 1) 0 ?o [] = Inr (occ3, rs3)"
     "length rs3 < prange P \<longrightarrow> (\<forall>t < min (length pool) (maxc P). selected rs3 (pool ! t) \<or> flt (Fin 1) (occ3 ! t))"
    using occlude_round_ok[OF occ_inv_start dk, of P "Fin 1" 0] by auto
  ultimately have same: "occ3 = occ2" "rs3 = rs2" by simp_all
  have max: "maximal P dst pool rs2" using round_maximal[OF r(2) order_refl] q(2) same by simp
  obtain y where y: "fmul (Fin 1) f1_2 = PInf \<or> (fmul (Fin 1) f1_2 = Fin y \<and> 1 + 1 / 10 \<le> y)"
    using fmul_1_2_grows[of 1] by auto
  have e: "occlude_loop P dst pool (Fin 1) ?o [] = occlude_loop P dst pool (fmul (Fin 1) f1_2) occ2 rs2"
    using assms q(1) same by (subst occlude_loop.simps) (simp add: fle_def)
  show ?thesis
  proof (cases "fmul (Fin 1) f1_2 = PInf")
    case True
    then show ?thesis using e occlude_loop_exit[of PInf P] assms(1) r max by (auto simp: fle_def)
  next
    case False
    then have "1 \<le> y" "fmul (Fin 1) f1_2 = Fin y" using y by auto
    moreover obtain n where "(a - y) * 10 < of_nat n" using reals_Archimedean2 by blast
    ultimately show ?thesis using occlude_loop_ok[OF assms(1) dk _ _ r(2), of y n] max e r(3) by auto
  qed
qed

section \<open>Correctness of the pruned list\<close>

lemma fill_pruned_ok:
  assumes "distinct pl"
  shows "distinct (fill_pruned n pool pl) \<and> set pl \<subseteq> set (fill_pruned n pool pl)
    \<and> set (fill_pruned n pool pl) \<subseteq> set pl \<union> nid ` set pool
    \<and> (length pl \<le> n \<longrightarrow> length (fill_pruned n pool pl) \<le> n)
    \<and> (length (fill_pruned n pool pl) < n \<longrightarrow> nid ` set pool \<subseteq> set (fill_pruned n pool pl))"
  using assms
proof (induction n pool pl rule: fill_pruned.induct)
  case (2 n x xs pl)
  show ?case
  proof (cases "length pl < n")
    case True
    define pl1 where "pl1 = (if nid x \<in> set pl then pl else pl @ [nid x])"
    have "distinct pl1" "set pl1 = insert (nid x) (set pl)" "length pl1 \<le> n"
      using True 2(2) by (auto simp: pl1_def)
    moreover have "fill_pruned n (x # xs) pl = fill_pruned n xs pl1" using True by (simp add: pl1_def)
    ultimately show ?thesis using 2(1)[OF True] unfolding pl1_def[symmetric] by auto
  qed (use 2 in auto)
qed simp

lemma drop_medoid_ok:
  assumes "distinct (map nid result)"
  shows "distinct (drop_medoid P result) \<and> length (drop_medoid P result) \<le> length result
    \<and> set (drop_medoid P result) \<subseteq> nid ` set result \<and> (result \<noteq> [] \<longrightarrow> nid (result ! 0) \<in> set (drop_medoid P result))"
proof -
  let ?f = "\<lambda>i. nid (result ! i)"
  have "inj_on ?f {..<length result}"
    using assms by (auto simp: inj_on_def distinct_conv_nth)
  then have "distinct (drop_medoid P result)"
    unfolding drop_medoid_def by (auto simp: distinct_map inj_on_def)
  moreover have "length (drop_medoid P result) \<le> length result"
    using length_filter_le[of _ "[0..<length result]"] by (simp add: drop_medoid_def)
  ultimately show ?thesis by (auto simp: drop_medoid_def)
qed

lemma sort_pool_set [simp]: "set (sort_pool pool) = set pool" "length (sort_pool pool) = length pool"
  "sort_pool pool = [] \<longleftrightarrow> pool = []"
  by (simp_all add: sort_pool_def) (metis length_0_conv length_sort)

lemma sort_pool_nids: "distinct (map nid (sort_pool pool)) \<longleftrightarrow> distinct (map nid pool)"
  by (simp add: sort_pool_def distinct_map mset_eq_imp_distinct_iff[of "sort_key _ pool" pool])

lemma sort_pool_nearest: "q \<in> set pool \<Longrightarrow> distance (sort_pool pool ! 0) \<le> distance q"
proof -
  assume q: "q \<in> set pool"
  let ?k = "\<lambda>n. (distance n, nid n)"
  have "sorted (map ?k (sort_pool pool))" by (simp add: sort_pool_def)
  moreover obtain i where "i < length pool" "sort_pool pool ! i = q"
    using q by (metis in_set_conv_nth sort_pool_set(1,2))
  ultimately have "map ?k (sort_pool pool) ! 0 \<le> ?k q"
    using sorted_nth_mono[of "map ?k (sort_pool pool)" 0 i] by simp
  moreover have "0 < length (sort_pool pool)" using q by (cases pool) auto
  ultimately have "?k (sort_pool pool ! 0) \<le> ?k q" by (simp only: nth_map)
  then show ?thesis by auto
qed

lemma sort_pool_is_sorted: "is_sorted_pool (sort_pool pool)"
proof -
  have "sorted (map (\<lambda>n. (distance n, nid n)) (sort_pool pool))" by (simp add: sort_pool_def)
  then show ?thesis unfolding is_sorted_pool_def sorted_map
    by (rule sorted_wrt_mono_rel[rotated]) (auto simp: Neighbor_less_def)
qed

lemma inv_distinct:
  assumes "occ_inv P dst pool occ rs" "distinct (map nid pool)"
  shows "distinct (map nid rs) \<and> nid ` set rs \<subseteq> nid ` set pool \<and> length rs \<le> prange P"
proof -
  have "distinct rs" using assms(1) unfolding occ_inv_def
    by (auto simp: sorted_wrt_iff_nth_less distinct_conv_nth Neighbor_less_def) (metis linorder_neqE_nat order_less_irrefl)
  moreover have "set rs \<subseteq> set pool" using assms(1) by (simp add: occ_inv_def)
  ultimately show ?thesis using assms by (auto simp: distinct_map inj_on_def occ_inv_def subset_iff)
qed

lemma fill_length:
  assumes "distinct (map nid pool)" "distinct pl" "set pl \<subseteq> nid ` set pool" "length pl \<le> n"
  shows "length (fill_pruned n pool pl) = min n (length pool)"
proof -
  let ?r = "fill_pruned n pool pl"
  have r: "distinct ?r" "set ?r \<subseteq> nid ` set pool" "length ?r \<le> n" "length ?r < n \<Longrightarrow> nid ` set pool \<subseteq> set ?r"
    using fill_pruned_ok[OF assms(2), of n pool] assms(3,4) by auto
  have "card (set ?r) = length ?r" "card (nid ` set pool) = length pool"
    using r(1) distinct_card[OF assms(1)] by (simp_all add: distinct_card)
  moreover have "card (set ?r) \<le> card (nid ` set pool)" using r(2) by (intro card_mono) auto
  moreover have "length ?r < n \<Longrightarrow> set ?r = nid ` set pool" using r(2,4) by blast
  ultimately show ?thesis using r(3) by (metis le_neq_implies_less min.absorb2 min.absorb3 min_def)
qed

lemma prune_neighbors_ok:
  assumes "alpha P = Fin a" "1 \<le> a" "0 < prange P" "0 < maxc P"
    and "pool \<noteq> []" "distinct (map nid pool)" "\<forall>q\<in>set pool. coord_map (nid q) \<noteq> None"
  shows "\<exists>pl. prune_neighbors P compare coord_map pool old = Some (Inr pl)
    \<and> distinct pl \<and> length pl \<le> prange P \<and> set pl \<subseteq> nid ` set pool
    \<and> (\<exists>q\<in>set pool. nid q \<in> set pl \<and> (\<forall>q'\<in>set pool. distance q \<le> distance q'))
    \<and> (1 < a \<longrightarrow> length pl = min (prange P) (length pool))"
proof -
  let ?pool = "sort_pool pool" and ?d = "coord_dist compare coord_map"
  have dk: "dist_known ?d ?pool"
    using assms(7) unfolding dist_known_def coord_dist_def by (fastforce split: option.splits)
  obtain rs occ where o: "occlude_loop P ?d ?pool (Fin 1) (replicate (length ?pool) (Fin 0)) [] = Some (Inr rs)"
    "occ_inv P ?d ?pool occ rs" "?pool ! 0 \<in> set rs"
    using occlude_first[OF assms(1,2) _ assms(3,4) dk] assms(5) by auto
  have rs: "distinct (map nid rs)" "nid ` set rs \<subseteq> nid ` set pool" "length rs \<le> prange P" "rs \<noteq> []"
    using inv_distinct[OF o(2)] assms(6) o(3) by (auto simp: sort_pool_nids)
  define dm where "dm = drop_medoid P rs"
  define pl where "pl = (if flt (Fin 1) (alpha P) then fill_pruned (prange P) ?pool dm else dm)"
  have dm: "distinct dm" "length dm \<le> prange P" "set dm \<subseteq> nid ` set pool" "nid (rs ! 0) \<in> set dm"
    using drop_medoid_ok[OF rs(1), of P] rs(2-4) by (auto simp: dm_def)
  have "prune_neighbors P compare coord_map pool old = Some (Inr pl)"
    using assms(5) o(1) by (simp add: prune_neighbors_def occlude_list_def Let_def pl_def dm_def)
  moreover have pl: "distinct pl" "set dm \<subseteq> set pl" "set pl \<subseteq> nid ` set pool" "length pl \<le> prange P"
    using fill_pruned_ok[OF dm(1), of "prange P" ?pool] dm by (auto simp: pl_def)
  moreover have "1 < a \<Longrightarrow> length pl = min (prange P) (length pool)"
    using fill_length[of ?pool dm "prange P"] dm assms(1,6) by (simp add: pl_def sort_pool_nids)
  moreover have "\<exists>q\<in>set pool. nid q \<in> set pl \<and> (\<forall>q'\<in>set pool. distance q \<le> distance q')"
  proof -
    have "distance (rs ! 0) \<le> distance (?pool ! 0)"
      using o(2,3) rs(4) by (cases rs) (auto simp: occ_inv_def Neighbor_less_def)
    moreover have "rs ! 0 \<in> set pool" using o(2) rs(4) by (auto simp: occ_inv_def)
    ultimately show ?thesis using sort_pool_nearest dm(4) pl(2) by (meson order_trans subsetD)
  qed
  ultimately show ?thesis by blast
qed

text \<open>
  C18. \<^verbatim>\<open>prune_neighbors\<close> returns, for any finite \<^verbatim>\<open>alpha\<close> of at least one: a list of at most
  \<^verbatim>\<open>range\<close> different candidates that contains the nearest one, and, when \<^verbatim>\<open>alpha > 1\<close>, as many as the
  pool and \<^verbatim>\<open>range\<close> allow.
\<close>

theorem prune_neighbors_correct:
  assumes "alpha P = Fin a" "1 \<le> a" "0 < prange P" "0 < maxc P"
    and "pool \<noteq> []" "distinct (map nid pool)" "\<forall>q\<in>set pool. coord_map (nid q) \<noteq> None"
  shows "\<exists>pl. prune_neighbors P compare coord_map pool old = Some (Inr pl)
    \<and> distinct pl \<and> length pl \<le> prange P \<and> set pl \<subseteq> nid ` set pool
    \<and> (\<exists>q\<in>set pool. nid q \<in> set pl \<and> (\<forall>q'\<in>set pool. distance q \<le> distance q'))
    \<and> (1 < a \<longrightarrow> length pl = min (prange P) (length pool))"
  by (rule prune_neighbors_ok[OF assms])

lemma prune_pq_ok:
  assumes "alpha P = Fin a" "1 \<le> a" "0 < prange P" "0 < maxc P"
    and "pool \<noteq> []" "distinct (map nid pool)" "is_sorted_pool pool"
  shows "\<exists>pl. prune_neighbors_pq P pq_dist pool old = Some (Inr pl)
    \<and> distinct pl \<and> length pl \<le> prange P \<and> set pl \<subseteq> nid ` set pool
    \<and> (length pl = prange P \<or> (\<forall>q \<in> set (take (maxc P) pool).
         nid q \<in> set pl \<or> (\<exists>p\<in>set pl. flt (Fin 1) (fdiv (distance q) (pq_dist p (nid q))))))"
proof -
  let ?d = "\<lambda>p t. Inr (pq_dist p t)"
  have dk: "dist_known ?d pool" by (simp add: dist_known_def)
  obtain rs occ where o: "occlude_loop P ?d pool (Fin 1) (replicate (length pool) (Fin 0)) [] = Some (Inr rs)"
    "occ_inv P ?d pool occ rs" "maximal P ?d pool rs"
    using occlude_first[OF assms(1,2,5,3,4) dk] by auto
  have rs: "distinct (map nid rs)" "nid ` set rs \<subseteq> nid ` set pool" "length rs \<le> prange P"
    using inv_distinct[OF o(2) assms(6)] by auto
  define pl where "pl = (if flt (Fin 1) (alpha P) then fill_pruned (prange P) pool (map nid rs) else map nid rs)"
  have e: "prune_neighbors_pq P pq_dist pool old = Some (Inr pl)"
    using assms(5,7) o(1) rs(3) by (simp add: prune_neighbors_pq_def occlude_list_pq_def pl_def)
  let ?f = "fill_pruned (prange P) pool (map nid rs)"
  have fl: "distinct ?f" "nid ` set rs \<subseteq> set ?f" "set ?f \<subseteq> nid ` set rs \<union> nid ` set pool" "length ?f \<le> prange P"
    using fill_pruned_ok[OF rs(1), of "prange P" pool] rs(3) by simp_all
  have fl3: "set ?f \<subseteq> nid ` set pool" using fl(3) rs(2) by blast
  have pl: "distinct pl" "nid ` set rs \<subseteq> set pl" "set pl \<subseteq> nid ` set pool" "length pl \<le> prange P"
    using fl fl3 rs by (simp_all add: pl_def)
  have "nid q \<in> set pl \<or> (\<exists>p\<in>set pl. flt (Fin 1) (fdiv (distance q) (pq_dist p (nid q))))"
    if n: "length pl \<noteq> prange P" and q: "q \<in> set (take (maxc P) pool)" for q
  proof -
    have "length rs \<le> length pl"
      using pl(1,2) distinct_card[OF rs(1)] distinct_card[OF pl(1)] card_mono[of "set pl" "nid ` set rs"] by simp
    then have "length rs < prange P" using n pl(4) by simp
    moreover obtain t where "t < min (length pool) (maxc P)" "pool ! t = q"
      using q by (auto simp: in_set_conv_nth)
    ultimately have "selected rs q \<or> (\<exists>p\<in>set rs. \<exists>v. occlusion ?d p q v \<and> flt (Fin 1) v)"
      using o(3) by (auto simp: maximal_def)
    then show ?thesis using pl(2) by (auto simp: selected_def occlusion_def)
  qed
  then show ?thesis using e pl by blast
qed

text \<open>
  C19. \<^verbatim>\<open>prune_neighbors_pq\<close> on a sorted pool returns a list in which every considered candidate is either
  kept or, unless the list is full, replaced by a kept candidate: the distance of the node to it exceeds the
  distance of the kept candidate to it. Greedy search that reaches the node can therefore advance towards
  every candidate.
\<close>

theorem prune_neighbors_pq_navigable:
  assumes "alpha P = Fin a" "1 \<le> a" "0 < prange P" "0 < maxc P"
    and "pool \<noteq> []" "distinct (map nid pool)" "is_sorted_pool pool"
  shows "\<exists>pl. prune_neighbors_pq P pq_dist pool old = Some (Inr pl)
    \<and> distinct pl \<and> length pl \<le> prange P \<and> set pl \<subseteq> nid ` set pool
    \<and> (length pl = prange P \<or> (\<forall>q \<in> set (take (maxc P) pool).
         nid q \<in> set pl \<or> (\<exists>p\<in>set pl. flt (Fin 1) (fdiv (distance q) (pq_dist p (nid q))))))"
  by (rule prune_pq_ok[OF assms])

text \<open>A pool of three candidates on a line, seen from the origin.\<close>

definition ex_params :: prune_params where
  "ex_params = \<lparr>alpha = Fin (6 / 5), prange = 2, maxc = 10, medoid0 = 0\<rparr>"

definition ex_pool :: "fl Neighbor list" where
  "ex_pool = [mk_Neighbor 3 (Fin 1) False, mk_Neighbor 1 (Fin 2) False, mk_Neighbor 2 (Fin 4) False]"

definition ex_coords :: "nat \<rightharpoonup> rat" where
  "ex_coords = [3 \<mapsto> 1, 1 \<mapsto> 2, 2 \<mapsto> - 4]"

theorem prune_neighbors_correct_witness:
  "\<exists>pl. prune_neighbors ex_params (\<lambda>x y. Fin \<bar>x - y\<bar>) ex_coords ex_pool [] = Some (Inr pl) \<and> length pl = 2"
  using prune_neighbors_correct[of ex_params "6 / 5" ex_pool ex_coords "\<lambda>x y. Fin \<bar>x - y\<bar>" "[]"]
  by (auto simp: ex_params_def ex_pool_def ex_coords_def mk_Neighbor_def)

theorem prune_neighbors_pq_navigable_witness:
  "\<exists>pl. prune_neighbors_pq ex_params (\<lambda>x y. Fin 1) ex_pool [] = Some (Inr pl) \<and> length pl \<le> 2 \<and> set pl \<subseteq> {1, 2, 3}"
  using prune_neighbors_pq_navigable[of ex_params "6 / 5" ex_pool "\<lambda>x y. Fin 1" "[]"]
  by (auto simp: ex_params_def ex_pool_def mk_Neighbor_def is_sorted_pool_def Neighbor_less_def less_fl_def less_eq_fl_def)

section \<open>Eviction removes exactly one neighbour\<close>

lemma fast_scan_ok:
  "fast_scan P d c pool n = Some e \<Longrightarrow>
    e = prange P \<or> (e < n \<and> flt d (tdistance (pool ! e)) \<and> flt c (fdiv (tdistance (pool ! e)) (tgt_dis (pool ! e))))"
  by (induction n) (auto split: if_splits)

lemma fast_loop_ok:
  "(c - 9 / 10) * 10 < of_nat n \<Longrightarrow> c < 2 ^ 128 \<Longrightarrow>
    \<exists>r. fast_loop P d pool (Fin c) = Some r
      \<and> (\<forall>e. r = Some e \<longrightarrow> (\<exists>c' \<ge> 99999 / 100000. fast_scan P d (Fin c') pool (length pool) = Some e))"
proof (induction n arbitrary: c)
  case 0
  then show ?case by (subst fast_loop.simps) (simp add: fle_def)
next
  case (Suc n)
  show ?case
  proof (cases "99999 / 100000 \<le> c")
    case False
    then show ?thesis by (subst fast_loop.simps) (simp add: fle_def)
  next
    case True
    show ?thesis
    proof (cases "fast_scan P d (Fin c) pool (length pool)")
      case (Some e)
      then show ?thesis using True by (subst fast_loop.simps) (auto simp: fle_def)
    next
      case None
      obtain y where y: "fdiv (Fin c) f1_2 = Fin y" "y \<le> c - 1 / 10"
        using fdiv_1_2_shrinks[of c] True Suc.prems(2) by auto
      have "fast_loop P d pool (Fin c) = fast_loop P d pool (Fin y)"
        using True None y(1) by (subst fast_loop.simps) (auto simp: fle_def)
      moreover have "(y - 9 / 10) * 10 < of_nat n" "y < 2 ^ 128" using y(2) Suc.prems by auto
      ultimately show ?thesis using Suc.IH by simp
    qed
  qed
qed

lemma fast_delta_ok:
  assumes "alpha P = Fin a" "a < 2 ^ 128"
  shows "\<exists>r. fast_delta_prune_neighbors_pq P pool d = Some r \<and> (\<forall>e. r = Some e \<longrightarrow> e = prange P \<or> e < length pool)"
proof -
  obtain n where "(a - 9 / 10) * 10 < of_nat n" using reals_Archimedean2 by blast
  from fast_loop_ok[OF this assms(2), of P d pool] obtain r where r: "fast_loop P d pool (Fin a) = Some r"
    "\<And>e. r = Some e \<Longrightarrow> \<exists>c' \<ge> 99999 / 100000. fast_scan P d (Fin c') pool (length pool) = Some e" by blast
  have "e = prange P \<or> e < length pool" if "r = Some e" for e
    using r(2)[OF that] fast_scan_ok by blast
  then show ?thesis using assms(1) r(1) by (simp add: fast_delta_prune_neighbors_pq_def)
qed

text \<open>A candidate over which the fast path passes in every round.\<close>

definition quiet :: "fl \<Rightarrow> fl \<Rightarrow> fl \<Rightarrow> bool" where
  "quiet tgt_nbr_dis tgt_d nbr_d = (\<not> flt (Fin (99999 / 100000)) (fdiv (fmax tgt_nbr_dis nbr_d) tgt_d))"

lemma fast_scan_quiet:
  assumes "99999 / 100000 \<le> c" "\<forall>x\<in>set pool. quiet d (tgt_dis x) (tdistance x)"
  shows "n \<le> length pool \<Longrightarrow> fast_scan P d (Fin c) pool n = None"
proof (induction n)
  case (Suc n)
  have "quiet d (tgt_dis (pool ! n)) (tdistance (pool ! n))" using assms(2) Suc.prems by simp
  moreover have "flt (Fin c) v \<Longrightarrow> flt (Fin (99999 / 100000)) v" for v using assms(1) by (cases v) auto
  ultimately show ?case using Suc by (auto simp: quiet_def fmax_def)
qed simp

lemma fast_delta_quiet:
  assumes "alpha P = Fin a" "a < 2 ^ 128" "\<forall>x\<in>set pool. quiet d (tgt_dis x) (tdistance x)"
  shows "fast_delta_prune_neighbors_pq P pool d = Some None"
proof -
  obtain n where "(a - 9 / 10) * 10 < of_nat n" using reals_Archimedean2 by blast
  from fast_loop_ok[OF this assms(2), of P d pool] obtain r where r: "fast_loop P d pool (Fin a) = Some r"
    "\<And>e. r = Some e \<Longrightarrow> \<exists>c' \<ge> 99999 / 100000. fast_scan P d (Fin c') pool (length pool) = Some e" by blast
  have "r = None" using r(2) fast_scan_quiet[OF _ assms(3) order_refl] by (cases r) fastforce+
  then show ?thesis using assms(1) r(1) by (simp add: fast_delta_prune_neighbors_pq_def)
qed

lemma finish_remove: "e < length pool \<Longrightarrow> finish pool e = map tid (take e pool @ drop (Suc e) pool)"
proof -
  assume e: "e < length pool"
  then have "[0..<length pool] = [0..<e] @ e # [Suc e..<length pool]"
    by (metis Suc_leI le0 less_imp_le_nat upt_add_eq_append upt_conv_Cons le_add_diff_inverse)
  then have "filter (\<lambda>i. i \<noteq> e) [0..<length pool] = [0..<e] @ [Suc e..<length pool]"
    by (simp add: filter_id_conv)
  then have "finish pool e = map tid (map ((!) pool) [0..<e] @ map ((!) pool) [Suc e..<length pool])"
    by (simp add: finish_def)
  moreover have "map ((!) pool) [0..<e] = take e pool" using e by (intro nth_equalityI) auto
  moreover have "map ((!) pool) [Suc e..<length pool] = drop (Suc e) pool" by (intro nth_equalityI) auto
  ultimately show ?thesis by simp
qed

text \<open>One element less, as a multiset.\<close>

definition one_removed :: "'a list \<Rightarrow> 'a list \<Rightarrow> bool" where
  "one_removed xs ys = (\<exists>x. mset xs = add_mset x (mset ys))"

lemma one_removed_nth: "e < length xs \<Longrightarrow> one_removed xs (take e xs @ drop (Suc e) xs)"
proof -
  assume "e < length xs"
  then have "mset xs = mset (take e xs @ xs ! e # drop (Suc e) xs)" by (simp only: id_take_nth_drop[symmetric])
  then show ?thesis by (auto simp: one_removed_def)
qed

lemma one_removed_finish: "e < length pool \<Longrightarrow> one_removed (map tid pool) (finish pool e)"
  using one_removed_nth[of e "map tid pool"] by (simp add: finish_remove take_map drop_map)

lemma one_removed_butlast: "xs \<noteq> [] \<Longrightarrow> one_removed xs (butlast xs)"
  by (cases xs rule: rev_cases) (auto simp: one_removed_def)

lemma one_removed_cong: "mset xs = mset xs' \<Longrightarrow> one_removed xs ys \<Longrightarrow> one_removed xs' ys"
  by (simp add: one_removed_def)

lemma one_removed_length: "one_removed xs ys \<Longrightarrow> length xs = Suc (length ys) \<and> set ys \<subseteq> set xs"
proof -
  assume "one_removed xs ys"
  then obtain x where x: "mset xs = add_mset x (mset ys)" by (auto simp: one_removed_def)
  have "size (mset xs) = size (add_mset x (mset ys))" "set_mset (mset xs) = set_mset (add_mset x (mset ys))"
    using x by simp_all
  then show ?thesis by auto
qed

lemma slow_scan_bound: "slow_scan P d pool tgt ss = Some t \<Longrightarrow> t < length pool"
  by (induction ss) (auto split: if_splits option.splits dest: find_in_set)

lemma slow_delta_ok:
  assumes "length pool = prange P + 1"
  shows "\<exists>e < length pool. slow_delta_prune_neighbors_pq P d pool tgt = Inr (finish pool e)"
  using assms slow_scan_bound[of P d pool tgt "[0..<length pool]"]
  by (cases "slow_scan P d pool tgt [0..<length pool]") (auto simp: slow_delta_prune_neighbors_pq_def simp del: upt_Suc)

lemma delta_prune_ok:
  assumes "alpha P = Fin a" "a < 2 ^ 128" "length pool = prange P + 1" "tgt_idx < length pool"
  shows "\<exists>nhood. delta_prune_neighbors_pq P pq_dist pool tgt_idx = Some (Inr nhood)
    \<and> one_removed (map tid pool) nhood \<and> length nhood = prange P"
proof -
  obtain r where r: "fast_delta_prune_neighbors_pq P pool (tdistance (pool ! tgt_idx)) = Some r"
    "\<forall>e. r = Some e \<longrightarrow> e = prange P \<or> e < length pool"
    using fast_delta_ok[OF assms(1,2)] by blast
  obtain s where s: "s < length pool" "slow_delta_prune_neighbors_pq P pq_dist pool tgt_idx = Inr (finish pool s)"
    using slow_delta_ok[OF assms(3)] by blast
  define e where "e = (case r of Some e \<Rightarrow> if e = prange P then tgt_idx else e | None \<Rightarrow> s)"
  have "delta_prune_neighbors_pq P pq_dist pool tgt_idx = Some (Inr (finish pool e))" "e < length pool"
    using r s assms(4) by (auto simp: delta_prune_neighbors_pq_def e_def split: option.splits)
  then show ?thesis using one_removed_finish[of e pool] one_removed_length[of "map tid pool" "finish pool e"] assms(3) by auto
qed

text \<open>
  C32. \<^verbatim>\<open>delta_prune_neighbors_pq\<close> on \<^verbatim>\<open>range + 1\<close> candidates returns and removes exactly one of them, so the
  degree bound holds again.
\<close>

theorem delta_prune_removes_one:
  assumes "alpha P = Fin a" "a < 2 ^ 128" "length pool = prange P + 1" "tgt_idx < length pool"
  shows "\<exists>nhood. delta_prune_neighbors_pq P pq_dist pool tgt_idx = Some (Inr nhood)
    \<and> one_removed (map tid pool) nhood \<and> length nhood = prange P"
  by (rule delta_prune_ok[OF assms])

theorem delta_prune_removes_one_witness:
  "\<exists>nhood. delta_prune_neighbors_pq ex_params (\<lambda>x y. Fin 1) [mk_tri 7 (Fin 1) (Fin 1), mk_tri 8 (Fin 2) (Fin 2), mk_tri 9 (Fin 1) (Fin 5)] 0
     = Some (Inr nhood) \<and> length nhood = 2"
  using delta_prune_removes_one[of ex_params "6 / 5" "[mk_tri 7 (Fin 1) (Fin 1), mk_tri 8 (Fin 2) (Fin 2), mk_tri 9 (Fin 1) (Fin 5)]" 0 "\<lambda>x y. Fin 1"]
  by (auto simp: ex_params_def)

lemma mset_map_sort: "mset (map f (sort_key k xs)) = mset (map f xs)"
  by (simp only: mset_map mset_sort)

lemma tri_pool_of_ids: "mset (map tid (tri_pool_of ids ts ns)) = mset ids"
  "length (tri_pool_of ids ts ns) = length ids"
proof -
  have "mset (map tid (tri_pool_of ids ts ns)) = mset (map ((!) ids) [0..<length ids])"
    unfolding tri_pool_of_def sort_tri_def mset_map_sort map_map by (simp add: mk_tri_def comp_def)
  then show "mset (map tid (tri_pool_of ids ts ns)) = mset ids" by (simp only: map_nth)
  show "length (tri_pool_of ids ts ns) = length ids" by (simp add: tri_pool_of_def sort_tri_def)
qed

lemma find_target_ok:
  assumes "target \<in> set (map tid pool)"
  shows "\<exists>i < length pool. find_target target pool = Some i"
proof (cases "find_target target pool")
  case None
  then have "\<forall>k < length pool. tid (pool ! k) \<noteq> target" by (auto simp: find_target_def find_None_iff)
  then show ?thesis using assms by (auto simp: in_set_conv_nth)
next
  case (Some i)
  then show ?thesis by (auto simp: find_target_def dest!: find_in_set)
qed

text \<open>The batch loop ends, whatever the distances, when the batch size is positive.\<close>

lemma batch_loop_ok:
  assumes a: "alpha P = Fin a" "a < 2 ^ 128" and B: "0 < PRUNE_BATCH_SIZE P"
  shows "length nhood - k < n \<Longrightarrow> (PRUNE_BATCH_SIZE P dvd length nhood - k \<or> \<not> PRUNE_BATCH_SIZE P dvd length nhood) \<Longrightarrow>
    \<exists>r. batch_loop P D t v nhood k td nd = Some r
      \<and> (\<forall>e. r = Inl e \<longrightarrow> e = Undefined \<and> \<not> PRUNE_BATCH_SIZE P dvd length nhood) \<and> (\<forall>nh. r = Inr (Inl nh) \<longrightarrow> one_removed nhood nh)"
proof (induction n arbitrary: k td nd)
  case (Suc n)
  let ?B = "PRUNE_BATCH_SIZE P" and ?ids = "take (PRUNE_BATCH_SIZE P) (drop k nhood)"
  let ?tri = "tri_pool_of ?ids (map (D t) ?ids) (map (D v) ?ids)"
  consider (stop) "length nhood \<le> k" | (over) "k < length nhood" "length nhood < k + ?B" | (go) "k < length nhood" "k + ?B \<le> length nhood"
    by linarith
  then show ?case
  proof cases
    case over
    then have "\<not> ?B dvd length nhood - k" by (auto dest: dvd_imp_le)
    then show ?thesis using over Suc.prems(2) by (subst batch_loop.simps) (simp add: Let_def)
  next
    case go
    obtain r where r: "fast_delta_prune_neighbors_pq P ?tri (D t v) = Some r"
      "\<forall>e. r = Some e \<longrightarrow> e = prange P \<or> e < length ?tri"
      using fast_delta_ok[OF a] by blast
    show ?thesis
    proof (cases r)
      case None
      have "?B dvd length nhood - (k + ?B) \<or> \<not> ?B dvd length nhood"
        using Suc.prems(2) go by (auto simp: dvd_minus_self simp flip: diff_diff_left)
      moreover have "length nhood - (k + ?B) < n" using Suc.prems(1) go B by linarith
      ultimately show ?thesis using Suc.IH go r(1) None by (subst batch_loop.simps) (simp add: Let_def)
    next
      case (Some e)
      have ne: "nhood \<noteq> []" using go by auto
      have "e = prange P \<or> k + e < length nhood"
        using r(2) Some go by (auto simp: tri_pool_of_ids)
      then show ?thesis using go r(1) Some one_removed_nth[of "k + e" nhood] one_removed_butlast[OF ne]
        by (subst batch_loop.simps) (auto simp: Let_def)
    qed
  qed (subst batch_loop.simps, simp)
qed simp

lemma batch_prune_ok:
  assumes "alpha P = Fin a" "a < 2 ^ 128" "16 \<le> prange P" "length nhood = prange P + 1" "target_id \<in> set nhood"
  shows "\<exists>r. batch_prune P pq_dist target_id nbr_id nhood = Some r
    \<and> (r = Inl Undefined \<and> \<not> PRUNE_BATCH_SIZE P dvd prange P + 1
       \<or> (\<exists>nhood'. r = Inr nhood' \<and> one_removed nhood nhood' \<and> length nhood' = prange P))"
proof -
  let ?z = "replicate (length nhood) (Fin 0)"
  have B: "0 < PRUNE_BATCH_SIZE P" using assms(3) by (simp add: PRUNE_BATCH_SIZE_def div_greater_zero_iff)
  have "PRUNE_BATCH_SIZE P dvd length nhood - 0 \<or> \<not> PRUNE_BATCH_SIZE P dvd length nhood" by simp
  from batch_loop_ok[OF assms(1,2) B lessI this, of pq_dist target_id nbr_id ?z ?z] obtain r where
    r: "batch_loop P pq_dist target_id nbr_id nhood 0 ?z ?z = Some r"
    "\<And>e. r = Inl e \<Longrightarrow> e = Undefined \<and> \<not> PRUNE_BATCH_SIZE P dvd length nhood"
    "\<And>nh. r = Inr (Inl nh) \<Longrightarrow> one_removed nhood nh"
    by blast
  consider (err) e where "r = Inl e" | (fast) nh where "r = Inr (Inl nh)" | (slow) td nd where "r = Inr (Inr (td, nd))"
    by (metis obj_sumE prod.exhaust)
  then show ?thesis
  proof cases
    case err
    then show ?thesis using r(1,2) err assms(4) by (simp add: batch_prune_def)
  next
    case fast
    then show ?thesis using r(1,3) one_removed_length[of nhood nh] assms(4) by (auto simp: batch_prune_def)
  next
    case slow
    let ?tri = "tri_pool_of nhood td nd"
    have ids: "mset (map tid ?tri) = mset nhood" by (rule tri_pool_of_ids)
    then have "target_id \<in> set (map tid ?tri)" using assms(5) mset_eq_setD by blast
    then obtain i where i: "find_target target_id ?tri = Some i" using find_target_ok by blast
    obtain e where e: "e < length ?tri" "slow_delta_prune_neighbors_pq P pq_dist ?tri i = Inr (finish ?tri e)"
      using slow_delta_ok[of ?tri P] assms(4) by (auto simp: tri_pool_of_ids)
    have "one_removed nhood (finish ?tri e)" using one_removed_finish[OF e(1)] one_removed_cong[OF ids] by blast
    then show ?thesis using r(1) slow i e(2) one_removed_length assms(4) by (fastforce simp: batch_prune_def)
  qed
qed

text \<open>
  C20. Batch pruning of a list of \<^verbatim>\<open>range + 1\<close> neighbours that contains the target returns, for
  \<^verbatim>\<open>range >= 16\<close>; it removes exactly one neighbour, unless the list is not a whole number of batches
  and the last batch is reached.
\<close>

theorem batch_prune_removes_one:
  assumes "alpha P = Fin a" "a < 2 ^ 128" "16 \<le> prange P" "length nhood = prange P + 1" "target_id \<in> set nhood"
  shows "\<exists>r. batch_prune P pq_dist target_id nbr_id nhood = Some r
    \<and> (r = Inl Undefined \<and> \<not> PRUNE_BATCH_SIZE P dvd prange P + 1
       \<or> (\<exists>nhood'. r = Inr nhood' \<and> one_removed nhood nhood' \<and> length nhood' = prange P))"
  by (rule batch_prune_ok[OF assms])

theorem batch_prune_removes_one_witness:
  "\<exists>nhood'. batch_prune \<lparr>alpha = Fin 1, prange = 16, maxc = 9, medoid0 = 0\<rparr> (\<lambda>x y. Fin 1) 3 99 [0..<17] = Some (Inr nhood')
     \<and> length nhood' = 16"
  using batch_prune_removes_one[of "\<lparr>alpha = Fin 1, prange = 16, maxc = 9, medoid0 = 0\<rparr>" 1 "[0..<17]" 3 "\<lambda>x y. Fin 1" 99]
  by (auto simp: PRUNE_BATCH_SIZE_def)

section \<open>Two defects of batch pruning\<close>

lemma tri_pool_of_elem:
  assumes "x \<in> set (tri_pool_of ids (map f ids) (map g ids))"
  shows "\<exists>i\<in>set ids. x = mk_tri i (f i) (g i)"
  using assms by (auto simp: tri_pool_of_def sort_tri_def)

lemma batch_loop_overrun:
  assumes a: "alpha P = Fin a" "a < 2 ^ 128" and B: "0 < PRUNE_BATCH_SIZE P"
    and q: "\<forall>x\<in>set nhood. quiet (D t v) (D t x) (D v x)"
  shows "length nhood - k < n \<Longrightarrow> \<not> PRUNE_BATCH_SIZE P dvd length nhood - k \<Longrightarrow>
    batch_loop P D t v nhood k td nd = Some (Inl Undefined)"
proof (induction n arbitrary: k td nd)
  case (Suc n)
  let ?B = "PRUNE_BATCH_SIZE P" and ?ids = "take (PRUNE_BATCH_SIZE P) (drop k nhood)"
  let ?tri = "tri_pool_of ?ids (map (D t) ?ids) (map (D v) ?ids)"
  have k: "k < length nhood" using Suc.prems(2) by (cases "k < length nhood") auto
  show ?case
  proof (cases "length nhood < k + ?B")
    case True
    then show ?thesis using k by (subst batch_loop.simps) (simp add: Let_def)
  next
    case False
    have "\<forall>x\<in>set ?tri. quiet (D t v) (tgt_dis x) (tdistance x)"
      using q by (auto simp: mk_tri_def dest!: tri_pool_of_elem in_set_takeD in_set_dropD)
    from fast_delta_quiet[OF a this] have "batch_loop P D t v nhood k td nd
      = batch_loop P D t v nhood (k + ?B) (take k td @ map (D t) ?ids @ drop (k + length ?ids) td)
          (take k nd @ map (D v) ?ids @ drop (k + length ?ids) nd)"
      using False k by (subst batch_loop.simps) (simp add: Let_def)
    moreover have "\<not> ?B dvd length nhood - (k + ?B)"
      using Suc.prems(2) False by (auto simp: dvd_minus_self simp flip: diff_diff_left)
    moreover have "length nhood - (k + ?B) < n" using Suc.prems(1) k B by linarith
    ultimately show ?thesis using Suc.IH by simp
  qed
qed simp

text \<open>
  When no candidate lets the fast path decide and \<^verbatim>\<open>range + 1\<close> is not a multiple of the batch size,
  the last, incomplete batch reads \<^verbatim>\<open>nhood\<close> past its end.
\<close>

lemma batch_prune_overrun:
  assumes "alpha P = Fin a" "a < 2 ^ 128" "16 \<le> prange P" "length nhood = prange P + 1"
    and "\<not> PRUNE_BATCH_SIZE P dvd prange P + 1"
    and "\<forall>x\<in>set nhood. quiet (pq_dist target_id nbr_id) (pq_dist target_id x) (pq_dist nbr_id x)"
  shows "batch_prune P pq_dist target_id nbr_id nhood = Some (Inl Undefined)"
proof -
  have B: "0 < PRUNE_BATCH_SIZE P" using assms(3) by (simp add: PRUNE_BATCH_SIZE_def div_greater_zero_iff)
  show ?thesis
    using batch_loop_overrun[OF assms(1,2) B assms(6) lessI] assms(4,5) by (simp add: batch_prune_def)
qed

lemma batch_prune_overrun_witness:
  "batch_prune \<lparr>alpha = Fin (6 / 5), prange = 64, maxc = 9, medoid0 = 0\<rparr> (\<lambda>x y. Fin (if x = 3 \<and> y \<noteq> 99 then 4 else 1)) 3 99 [0..<65]
     = Some (Inl Undefined)"
  by (rule batch_prune_overrun[where a = "6 / 5"])
     (simp_all add: PRUNE_BATCH_SIZE_def quiet_def fmax_def round32_def ilog2_def ilog2_up.simps scale2_def round_even_def)

text \<open>
  The index found by the fast path is a position of the sorted batch, but the element erased is the one at
  that position of the unsorted list: with batches of two, the violating neighbour \<open>a\<close> stays and its sound
  companion \<open>b\<close> is lost.
\<close>

lemma batch_prune_wrong_victim:
  assumes "alpha P = Fin al" "99999 / 100000 \<le> al" "al < 8" "PRUNE_BATCH_SIZE P = 2" "prange P \<noteq> 1"
    and "pq_dist target_id nbr_id = Fin 1"
    and "pq_dist nbr_id a = Fin 8" "pq_dist target_id a = Fin 1"
    and "pq_dist nbr_id b = Fin 2" "pq_dist target_id b = Fin 4"
  shows "batch_prune P pq_dist target_id nbr_id (a # b # rest) = Some (Inr (a # rest))
    \<and> fast_scan P (Fin 1) (Fin al) [mk_tri b (Fin 4) (Fin 2), mk_tri a (Fin 1) (Fin 8)] 2 = Some 1"
proof -
  have q: "fdiv (Fin 8) (Fin 1) = Fin 8"
    by (simp add: round32_def ilog2_def ilog2_up.simps scale2_def round_even_def)
  have tri: "tri_pool_of [a, b] [Fin 1, Fin 4] [Fin 8, Fin 2] = [mk_tri b (Fin 4) (Fin 2), mk_tri a (Fin 1) (Fin 8)]"
    by (simp add: tri_pool_of_def sort_tri_def mk_tri_def less_eq_fl_def less_fl_def)
  have scan: "fast_scan P (Fin 1) (Fin al) [mk_tri b (Fin 4) (Fin 2), mk_tri a (Fin 1) (Fin 8)] 2 = Some 1"
    using q assms(3) by (simp add: numeral_2_eq_2 mk_tri_def)
  have "fast_delta_prune_neighbors_pq P [mk_tri b (Fin 4) (Fin 2), mk_tri a (Fin 1) (Fin 8)] (Fin 1) = Some (Some 1)"
    unfolding fast_delta_prune_neighbors_pq_def
    using scan assms(1,2) by (subst fast_loop.simps) (simp add: fle_def numeral_2_eq_2 del: fast_scan.simps)
  then have "batch_loop P pq_dist target_id nbr_id (a # b # rest) 0 td nd = Some (Inr (Inl (a # rest)))" for td nd
    using assms(4-) tri by (subst batch_loop.simps) (simp add: Let_def numeral_2_eq_2)
  then show ?thesis using scan by (simp add: batch_prune_def)
qed

lemma batch_prune_wrong_victim_witness:
  "batch_prune \<lparr>alpha = Fin (6 / 5), prange = 32, maxc = 9, medoid0 = 0\<rparr>
     (\<lambda>x y. if (x, y) = (50, 7) then Fin 8 else if (x, y) = (50, 8) then Fin 2 else if (x, y) = (99, 8) then Fin 4 else Fin 1)
     99 50 (7 # 8 # [10..<41]) = Some (Inr (7 # [10..<41]))"
  using batch_prune_wrong_victim[of "\<lparr>alpha = Fin (6 / 5), prange = 32, maxc = 9, medoid0 = 0\<rparr>" "6 / 5"
    "\<lambda>x y. if (x, y) = (50, 7) then Fin 8 else if (x, y) = (50, 8) then Fin 2 else if (x, y) = (99, 8) then Fin 4 else Fin 1"
    99 50 7 8 "[10..<41]"]
  by (simp add: PRUNE_BATCH_SIZE_def)

text \<open>
  The sentinel \<^verbatim>\<open>range\<close> of the fast path is also the position of the farthest of the \<^verbatim>\<open>range + 1\<close>
  candidates: when that candidate is the violating one, the target is evicted in its place.
\<close>

lemma delta_prune_sentinel:
  assumes "alpha P = Fin a" "99999 / 100000 \<le> a" "length pool = prange P + 1" "tgt_idx < prange P"
    and "flt (Fin 0) (tdistance (pool ! prange P))"
    and "flt (tdistance (pool ! tgt_idx)) (tdistance (pool ! prange P))"
    and "flt (Fin a) (fdiv (tdistance (pool ! prange P)) (tgt_dis (pool ! prange P)))"
  shows "delta_prune_neighbors_pq P pq_dist pool tgt_idx = Some (Inr (finish pool tgt_idx))"
proof -
  have "\<not> feq (tdistance (pool ! prange P)) (Fin 0)" using assms(5) by (cases "tdistance (pool ! prange P)") auto
  then have "fast_scan P (tdistance (pool ! tgt_idx)) (Fin a) pool (length pool) = Some (prange P)"
    using assms(3,6,7) by simp
  then have "fast_delta_prune_neighbors_pq P pool (tdistance (pool ! tgt_idx)) = Some (Some (prange P))"
    unfolding fast_delta_prune_neighbors_pq_def using assms(1,2) by (subst fast_loop.simps) (auto simp: fle_def)
  then show ?thesis using assms(3,4) by (simp add: delta_prune_neighbors_pq_def)
qed

lemma delta_prune_sentinel_witness:
  "delta_prune_neighbors_pq ex_params (\<lambda>x y. Fin 1) [mk_tri 7 (Fin 0) (Fin 1), mk_tri 8 (Fin 2) (Fin 2), mk_tri 9 (Fin 1) (Fin 8)] 0
     = Some (Inr [8, 9])"
  using delta_prune_sentinel[of ex_params "6 / 5" "[mk_tri 7 (Fin 0) (Fin 1), mk_tri 8 (Fin 2) (Fin 2), mk_tri 9 (Fin 1) (Fin 8)]" 0 "\<lambda>x y. Fin 1"]
  by (simp add: ex_params_def mk_tri_def finish_def round32_def ilog2_def ilog2_up.simps scale2_def round_even_def)

end
