(* ===== verification/PMem.thy ===== *)
theory PMem
  imports CCANN_Prelude
begin

text \<open>
  Persistent memory as the DAX-mapped files of the index use it. A cell is a byte of the graph or PQ
  file, or a 4-byte entry of the tag or location table or of the super block, the first page of the
  graph file, which holds no node (an aligned 4-byte store is not torn). A store
  goes to the cache; \<^verbatim>\<open>clwb\<close> of its cache line starts its write-back; \<^verbatim>\<open>sfence\<close> waits for the
  write-backs started before. At a crash a cell holds its last fenced value or any value stored to it
  since, independently of the other cells. \<^verbatim>\<open>flush_dax\<close> and \<^verbatim>\<open>barrier_dax\<close> are those of
  \<^verbatim>\<open>src/utils/linux_aligned_file_reader.cpp\<close>. The copy functions of libpmem are a parameter of type
  \<open>pmdk\<close>; \<open>pmdk_ok\<close> states what their documentation promises.
\<close>

datatype pm_file = Graph_f | Tag_f | Loc_f | PQ_f | Super_f

type_synonym cell = "pm_file \<times> nat"

text \<open>The size of a cell in bytes: \<^verbatim>\<open>sizeof(TagT)\<close> and \<^verbatim>\<open>sizeof(uint32_t)\<close> are 4.\<close>

fun unit_bytes :: "pm_file \<Rightarrow> nat" where
  "unit_bytes Graph_f = 1"
| "unit_bytes PQ_f = 1"
| "unit_bytes Tag_f = 4"
| "unit_bytes Loc_f = 4"
| "unit_bytes Super_f = 4"

definition line_of :: "cell \<Rightarrow> nat" where
  "line_of c = snd c * unit_bytes (fst c) div 64"

datatype pm_event = PStore pm_file nat nat | PFlush pm_file nat | PFence

text \<open>A cell: the values stored since the last write-back was started, and those before, newest first.\<close>

type_synonym pcell = "nat list \<times> nat list"
type_synonym pmem = "cell \<Rightarrow> pcell"

fun pm_step :: "pm_event \<Rightarrow> pmem \<Rightarrow> pmem" where
  "pm_step (PStore f i v) m = m((f, i) := (v # fst (m (f, i)), snd (m (f, i))))"
| "pm_step (PFlush f l) m = (\<lambda>c. if fst c = f \<and> line_of c = l then ([], fst (m c) @ snd (m c)) else m c)"
| "pm_step PFence m = (\<lambda>c. (fst (m c), take 1 (snd (m c))))"

definition pm_run :: "pm_event list \<Rightarrow> pmem \<Rightarrow> pmem" where
  "pm_run evs m = fold pm_step evs m"

definition pm_visible :: "pmem \<Rightarrow> cell \<Rightarrow> nat" where
  "pm_visible m c = hd (fst (m c) @ snd (m c))"

text \<open>The contents after a crash.\<close>

definition crash_image :: "pmem \<Rightarrow> (cell \<Rightarrow> nat) \<Rightarrow> bool" where
  "crash_image m img \<longleftrightarrow> (\<forall>c. img c \<in> set (fst (m c) @ snd (m c)))"

section \<open>The operations of the code\<close>

definition pm_stores :: "pm_file \<Rightarrow> nat \<Rightarrow> nat list \<Rightarrow> pm_event list" where
  "pm_stores f off vs = map (\<lambda>i. PStore f (off + i) (vs ! i)) [0..<length vs]"

definition flush_dax :: "pm_file \<Rightarrow> nat \<Rightarrow> nat \<Rightarrow> pm_event list" where
  "flush_dax f p len = map (\<lambda>i. PFlush f ((p + i * 64) div 64)) [0..<ROUND_UP len 64 div 64]"

definition barrier_dax :: "pm_event list" where
  "barrier_dax = [PFence]"

text \<open>The flag combinations of \<^verbatim>\<open>src/update/direct_insert.cpp\<close>.\<close>

datatype pmem_flags = PMEM_TRANSFER_CACHE | PMEM_TRANSFER_LARGE | PMEM_TRANSFER

record pmdk =
  pmem_memcpy :: "pm_file \<Rightarrow> nat \<Rightarrow> nat list \<Rightarrow> pmem_flags \<Rightarrow> pm_event list"
  pmem_memcpy_persist :: "pm_file \<Rightarrow> nat \<Rightarrow> nat list \<Rightarrow> pm_event list"

text \<open>
  Events that copy \<open>vs\<close>: every cell of the range is stored, in any order, perhaps more than once, and
  nothing else; no line of another file is written back. Events that write the range back.
\<close>

definition copies :: "pm_file \<Rightarrow> nat \<Rightarrow> nat list \<Rightarrow> pm_event list \<Rightarrow> bool" where
  "copies f off vs evs \<longleftrightarrow>
     (\<forall>f' i v. PStore f' i v \<in> set evs \<longrightarrow> f' = f \<and> off \<le> i \<and> i < off + length vs \<and> v = vs ! (i - off))
     \<and> (\<forall>k < length vs. PStore f (off + k) (vs ! k) \<in> set evs)
     \<and> (\<forall>f' l. PFlush f' l \<in> set evs \<longrightarrow> f' = f)"

definition writes_back :: "pm_file \<Rightarrow> nat \<Rightarrow> nat \<Rightarrow> pm_event list \<Rightarrow> bool" where
  "writes_back f off n evs \<longleftrightarrow>
     (\<forall>f' i v. PStore f' i v \<notin> set evs)
     \<and> (\<forall>k < n. PFlush f (line_of (f, off + k)) \<in> set evs)
     \<and> (\<forall>f' l. PFlush f' l \<in> set evs \<longrightarrow> f' = f)"

text \<open>
  The documentation of libpmem: \<^verbatim>\<open>PMEM_F_MEM_NOFLUSH\<close> copies without any flush,
  \<^verbatim>\<open>PMEM_F_MEM_NODRAIN\<close> copies and flushes without waiting, \<^verbatim>\<open>pmem_memcpy_persist\<close> waits as well.
\<close>

definition pmdk_ok :: "pmdk \<Rightarrow> bool" where
  "pmdk_ok L \<longleftrightarrow> (\<forall>f off vs.
     (\<forall>fl \<in> {PMEM_TRANSFER_CACHE, PMEM_TRANSFER_LARGE}.
        copies f off vs (pmem_memcpy L f off vs fl) \<and> (\<forall>f' l. PFlush f' l \<notin> set (pmem_memcpy L f off vs fl)))
     \<and> (\<exists>a b. pmem_memcpy L f off vs PMEM_TRANSFER = a @ b \<and> copies f off vs a \<and> writes_back f off (length vs) b)
     \<and> (\<exists>a b. pmem_memcpy_persist L f off vs = a @ b @ [PFence] \<and> copies f off vs a \<and> writes_back f off (length vs) b))"

section \<open>Following one cell\<close>

text \<open>The last store is \<open>v\<close>; its write-back has started; it has reached the persistence domain.\<close>

definition stored :: "pmem \<Rightarrow> cell \<Rightarrow> nat \<Rightarrow> bool" where
  "stored m c v \<longleftrightarrow> (\<exists>vs. fst (m c) @ snd (m c) = v # vs)"

definition flushed :: "pmem \<Rightarrow> cell \<Rightarrow> nat \<Rightarrow> bool" where
  "flushed m c v \<longleftrightarrow> fst (m c) = [] \<and> (\<exists>vs. snd (m c) = v # vs)"

definition durable :: "pmem \<Rightarrow> cell \<Rightarrow> nat \<Rightarrow> bool" where
  "durable m c v \<longleftrightarrow> m c = ([], [v])"

fun stores_to :: "cell \<Rightarrow> pm_event \<Rightarrow> bool" where
  "stores_to c (PStore f i v) = ((f, i) = c)"
| "stores_to c e = False"

definition untouched :: "cell \<Rightarrow> pm_event list \<Rightarrow> bool" where
  "untouched c evs \<longleftrightarrow> list_all (\<lambda>e. \<not> stores_to c e) evs"

lemma untouched_simps [simp]:
  "untouched c []" "untouched c (e # evs) \<longleftrightarrow> \<not> stores_to c e \<and> untouched c evs"
  "untouched c (xs @ ys) \<longleftrightarrow> untouched c xs \<and> untouched c ys"
  by (simp_all add: untouched_def)

lemma untouched_concat: "(\<And>xs. xs \<in> set xss \<Longrightarrow> untouched c xs) \<Longrightarrow> untouched c (concat xss)"
  by (induction xss) auto

lemma untouched_take: "untouched c evs \<Longrightarrow> untouched c (take n evs)"
  by (auto simp: untouched_def list_all_iff dest: in_set_takeD)

lemma take_append_cases:
  obtains "take n (xs @ ys) = take n xs" | k where "take n (xs @ ys) = xs @ take k ys"
  by (cases "n \<le> length xs") auto

lemma pm_run_simps [simp]:
  "pm_run [] m = m" "pm_run (e # evs) m = pm_run evs (pm_step e m)"
  by (simp_all add: pm_run_def)

lemma pm_run_append: "pm_run (xs @ ys) m = pm_run ys (pm_run xs m)"
  by (simp add: pm_run_def)

lemma durable_flushed: "durable m c v \<Longrightarrow> flushed m c v"
  and flushed_stored: "flushed m c v \<Longrightarrow> stored m c v"
  by (simp_all add: durable_def flushed_def stored_def)

lemma stored_visible: "stored m c v \<Longrightarrow> pm_visible m c = v"
  by (auto simp: stored_def pm_visible_def)

lemma step_keeps:
  assumes "\<not> stores_to c e"
  shows "stored m c v \<Longrightarrow> stored (pm_step e m) c v"
    and "flushed m c v \<Longrightarrow> flushed (pm_step e m) c v"
    and "durable m c v \<Longrightarrow> durable (pm_step e m) c v"
  using assms by (cases e; auto simp: stored_def flushed_def durable_def append_eq_Cons_conv)+

lemma run_keeps:
  assumes "untouched c evs"
  shows "stored m c v \<Longrightarrow> stored (pm_run evs m) c v"
    and "flushed m c v \<Longrightarrow> flushed (pm_run evs m) c v"
    and "durable m c v \<Longrightarrow> durable (pm_run evs m) c v"
  using assms by (induction evs arbitrary: m) (auto simp: step_keeps)

lemma run_flushes:
  assumes "untouched c evs" "PFlush (fst c) (line_of c) \<in> set evs" "stored m c v"
  shows "flushed (pm_run evs m) c v"
proof -
  obtain xs ys where e: "evs = xs @ PFlush (fst c) (line_of c) # ys" using assms(2) by (meson split_list)
  then have "stored (pm_run xs m) c v" using run_keeps(1) assms(1,3) by simp
  then have "flushed (pm_step (PFlush (fst c) (line_of c)) (pm_run xs m)) c v" by (simp add: stored_def flushed_def)
  then show ?thesis using run_keeps(2) assms(1) e by (simp add: pm_run_append)
qed

lemma run_fences:
  assumes "untouched c evs" "PFence \<in> set evs" "flushed m c v"
  shows "durable (pm_run evs m) c v"
proof -
  obtain xs ys where e: "evs = xs @ PFence # ys" using assms(2) by (meson split_list)
  then have "flushed (pm_run xs m) c v" using run_keeps(2) assms(1,3) by simp
  then have "durable (pm_step PFence (pm_run xs m)) c v" by (auto simp: flushed_def durable_def)
  then show ?thesis using run_keeps(3) assms(1) e by (simp add: pm_run_append)
qed

lemma durable_crash: "durable m c v \<Longrightarrow> crash_image m img \<Longrightarrow> img c = v"
  unfolding durable_def crash_image_def by (drule spec[of _ c]) simp

text \<open>A cell to which only \<open>v\<close> is stored holds \<open>v\<close> or its old value after a crash.\<close>

lemma run_history:
  assumes "\<And>w. PStore (fst c) (snd c) w \<in> set evs \<Longrightarrow> w = v"
  shows "set (fst (pm_run evs m c) @ snd (pm_run evs m c)) \<subseteq> insert v (set (fst (m c) @ snd (m c)))"
  using assms
proof (induction evs arbitrary: m)
  case (Cons e evs)
  have "set (fst (pm_step e m c) @ snd (pm_step e m c)) \<subseteq> insert v (set (fst (m c) @ snd (m c)))"
    using Cons.prems by (cases e) (auto dest: in_set_takeD)
  then show ?case using Cons.IH[of "pm_step e m"] Cons.prems by auto
qed auto

lemma crash_values:
  assumes "durable m c u" "\<And>w. PStore (fst c) (snd c) w \<in> set evs \<Longrightarrow> w = v" "crash_image (pm_run evs m) img"
  shows "img c = u \<or> img c = v"
proof -
  have "img c \<in> set (fst (pm_run evs m c) @ snd (pm_run evs m c))" using assms(3) unfolding crash_image_def by blast
  then have "img c \<in> insert v (set (fst (m c) @ snd (m c)))" using run_history[of c evs v m] assms(2) by blast
  then show ?thesis using assms(1) by (auto simp: durable_def)
qed

lemma durable_visible: "durable m c v \<Longrightarrow> pm_visible m c = v"
  by (simp add: durable_def pm_visible_def)

text \<open>Every cell has a value.\<close>

definition pm_wf :: "pmem \<Rightarrow> bool" where
  "pm_wf m \<longleftrightarrow> (\<forall>c. snd (m c) \<noteq> [])"

lemma pm_wf_stored: "pm_wf m \<Longrightarrow> stored m c (pm_visible m c)"
  unfolding pm_wf_def stored_def pm_visible_def
  by (metis append_is_Nil_conv list.collapse)

lemma pm_wf_run: "pm_wf m \<Longrightarrow> pm_wf (pm_run evs m)"
proof (induction evs arbitrary: m)
  case (Cons e evs)
  have "pm_wf (pm_step e m)" using Cons.prems by (cases e) (auto simp: pm_wf_def)
  then show ?case using Cons.IH by simp
qed simp

lemma untouched_visible: "pm_wf m \<Longrightarrow> untouched c evs \<Longrightarrow> pm_visible (pm_run evs m) c = pm_visible m c"
  using run_keeps(1) pm_wf_stored stored_visible by blast

section \<open>What the operations touch and make durable\<close>

lemma untouched_flushes [simp]:
  "untouched c (flush_dax f p len)" "untouched c barrier_dax"
  by (auto simp: untouched_def flush_dax_def barrier_dax_def list_all_iff)

lemma stores_to_iff: "stores_to c e \<longleftrightarrow> (\<exists>v. e = PStore (fst c) (snd c) v)"
  by (cases e) auto

lemma untouched_iff: "untouched c evs \<longleftrightarrow> (\<forall>v. PStore (fst c) (snd c) v \<notin> set evs)"
  by (auto simp: untouched_def list_all_iff stores_to_iff)

lemma copies_untouched:
  assumes "copies f off vs evs"
  shows "untouched c evs \<longleftrightarrow> \<not> (fst c = f \<and> off \<le> snd c \<and> snd c < off + length vs)"
proof -
  have "PStore f (snd c) (vs ! (snd c - off)) \<in> set evs" if "off \<le> snd c" "snd c < off + length vs"
  proof -
    have "snd c - off < length vs" using that by simp
    then have "PStore f (off + (snd c - off)) (vs ! (snd c - off)) \<in> set evs" using assms by (simp add: copies_def)
    then show ?thesis using that by simp
  qed
  then show ?thesis using assms unfolding untouched_iff copies_def by blast
qed

lemma writes_back_untouched: "writes_back f off n evs \<Longrightarrow> untouched c evs"
  by (simp add: writes_back_def untouched_iff)

lemma copies_stored:
  assumes "copies f off vs evs" "i < length vs"
  shows "stored (pm_run evs m) (f, off + i) (vs ! i)"
proof -
  have "PStore f (off + i) (vs ! i) \<in> set evs" using assms unfolding copies_def by blast
  moreover have "stores_to (f, off + i) (PStore f (off + i) (vs ! i))" by simp
  ultimately have "\<exists>e\<in>set evs. stores_to (f, off + i) e" by (rule rev_bexI)
  from split_list_last_prop[OF this]
  obtain xs e ys where e: "evs = xs @ e # ys" "stores_to (f, off + i) e" "\<forall>e\<in>set ys. \<not> stores_to (f, off + i) e" by blast
  then obtain v where v: "e = PStore f (off + i) v" by (auto simp: stores_to_iff)
  then have "PStore f (off + i) v \<in> set evs" using e(1) by simp
  then have "v = vs ! (off + i - off)" using assms(1) unfolding copies_def by blast
  then have "v = vs ! i" by simp
  moreover have "stored (pm_step e (pm_run xs m)) (f, off + i) v" by (simp add: v stored_def)
  moreover have "untouched (f, off + i) ys" using e(3) by (simp add: untouched_def list_all_iff)
  ultimately show ?thesis using e(1) run_keeps(1) by (simp add: pm_run_append)
qed

lemma pm_stores_copies: "copies f off vs (pm_stores f off vs)"
  by (auto simp: copies_def pm_stores_def)

lemma untouched_stores [simp]:
  "untouched c (pm_stores f off vs) \<longleftrightarrow> \<not> (fst c = f \<and> off \<le> snd c \<and> snd c < off + length vs)"
  by (rule copies_untouched[OF pm_stores_copies])

lemma pmdk_cache: "pmdk_ok L \<Longrightarrow> copies f off vs (pmem_memcpy L f off vs PMEM_TRANSFER_CACHE)"
  by (simp add: pmdk_ok_def)

lemma pmdk_nodrain:
  assumes "pmdk_ok L"
  obtains a b where "pmem_memcpy L f off vs PMEM_TRANSFER = a @ b" "copies f off vs a" "writes_back f off (length vs) b"
proof -
  have "\<exists>a b. pmem_memcpy L f off vs PMEM_TRANSFER = a @ b \<and> copies f off vs a \<and> writes_back f off (length vs) b"
    using assms by (simp add: pmdk_ok_def)
  then show thesis using that by blast
qed

lemma pmdk_persist:
  assumes "pmdk_ok L"
  obtains a b where "pmem_memcpy_persist L f off vs = a @ b @ [PFence]" "copies f off vs a" "writes_back f off (length vs) b"
proof -
  have "\<exists>a b. pmem_memcpy_persist L f off vs = a @ b @ [PFence] \<and> copies f off vs a \<and> writes_back f off (length vs) b"
    using assms by (simp add: pmdk_ok_def)
  then show thesis using that by blast
qed

lemma untouched_memcpy:
  assumes "pmdk_ok L"
  shows "untouched c (pmem_memcpy L f off vs PMEM_TRANSFER_CACHE) \<longleftrightarrow> \<not> (fst c = f \<and> off \<le> snd c \<and> snd c < off + length vs)"
    and "untouched c (pmem_memcpy L f off vs PMEM_TRANSFER) \<longleftrightarrow> \<not> (fst c = f \<and> off \<le> snd c \<and> snd c < off + length vs)"
    and "untouched c (pmem_memcpy_persist L f off vs) \<longleftrightarrow> \<not> (fst c = f \<and> off \<le> snd c \<and> snd c < off + length vs)"
proof -
  show "untouched c (pmem_memcpy L f off vs PMEM_TRANSFER_CACHE) \<longleftrightarrow> \<not> (fst c = f \<and> off \<le> snd c \<and> snd c < off + length vs)"
    by (rule copies_untouched[OF pmdk_cache[OF assms]])
  show "untouched c (pmem_memcpy L f off vs PMEM_TRANSFER) \<longleftrightarrow> \<not> (fst c = f \<and> off \<le> snd c \<and> snd c < off + length vs)"
    by (rule pmdk_nodrain[OF assms, of f off vs]) (simp add: copies_untouched writes_back_untouched)
  show "untouched c (pmem_memcpy_persist L f off vs) \<longleftrightarrow> \<not> (fst c = f \<and> off \<le> snd c \<and> snd c < off + length vs)"
    by (rule pmdk_persist[OF assms, of f off vs]) (simp add: copies_untouched writes_back_untouched)
qed

lemma flush_dax_lines:
  "PFlush f l \<in> set (flush_dax f p len) \<longleftrightarrow> p div 64 \<le> l \<and> l < p div 64 + ROUND_UP len 64 div 64"
proof -
  have "(p + i * 64) div 64 = p div 64 + i" for i by simp
  then have "PFlush f l \<in> set (flush_dax f p len) \<longleftrightarrow> (\<exists>i < ROUND_UP len 64 div 64. l = p div 64 + i)"
    by (auto simp: flush_dax_def)
  also have "\<dots> \<longleftrightarrow> p div 64 \<le> l \<and> l < p div 64 + ROUND_UP len 64 div 64"
    by (auto intro!: exI[of _ "l - p div 64"])
  finally show ?thesis .
qed

lemma pmdk_flushes:
  assumes "pmdk_ok L"
  shows "PFlush f' l \<notin> set (pmem_memcpy L f off vs PMEM_TRANSFER_CACHE)"
    and "PFlush f' l \<in> set (pmem_memcpy L f off vs PMEM_TRANSFER) \<Longrightarrow> f' = f"
    and "PFlush f' l \<in> set (pmem_memcpy_persist L f off vs) \<Longrightarrow> f' = f"
proof -
  show "PFlush f' l \<notin> set (pmem_memcpy L f off vs PMEM_TRANSFER_CACHE)" using assms by (simp add: pmdk_ok_def)
  show "PFlush f' l \<in> set (pmem_memcpy L f off vs PMEM_TRANSFER) \<Longrightarrow> f' = f"
    by (rule pmdk_nodrain[OF assms, of f off vs]) (auto simp: copies_def writes_back_def)
  show "PFlush f' l \<in> set (pmem_memcpy_persist L f off vs) \<Longrightarrow> f' = f"
    by (rule pmdk_persist[OF assms, of f off vs]) (auto simp: copies_def writes_back_def)
qed

lemma copied_flushed:
  assumes "copies f off vs a" "writes_back f off (length vs) b" "i < length vs"
  shows "flushed (pm_run (a @ b) m) (f, off + i) (vs ! i)"
  using copies_stored[OF assms(1,3)] writes_back_untouched[OF assms(2)] assms(2,3) unfolding pm_run_append
  by (intro run_flushes) (auto simp: writes_back_def)

lemma memcpy_nodrain_flushed:
  assumes "pmdk_ok L" "i < length vs"
  shows "flushed (pm_run (pmem_memcpy L f off vs PMEM_TRANSFER) m) (f, off + i) (vs ! i)"
  by (rule pmdk_nodrain[OF assms(1), of f off vs]) (simp add: copied_flushed assms(2))

lemma memcpy_persist_durable:
  assumes "pmdk_ok L" "i < length vs"
  shows "durable (pm_run (pmem_memcpy_persist L f off vs) m) (f, off + i) (vs ! i)"
proof -
  obtain a b where e: "pmem_memcpy_persist L f off vs = (a @ b) @ [PFence]" "copies f off vs a" "writes_back f off (length vs) b"
    using pmdk_persist[OF assms(1), of f off vs] by (metis append.assoc)
  show ?thesis unfolding e(1) pm_run_append[of "a @ b"] by (rule run_fences[OF _ _ copied_flushed[OF e(2,3) assms(2)]]) auto
qed

section \<open>A concrete library\<close>

text \<open>An implementation that stores in ascending order and writes back every line of the range.\<close>

definition pm_flush_range :: "pm_file \<Rightarrow> nat \<Rightarrow> nat \<Rightarrow> pm_event list" where
  "pm_flush_range f off n = map (\<lambda>k. PFlush f (line_of (f, off + k))) [0..<n]"

definition ex_pmdk :: pmdk where
  "ex_pmdk = \<lparr>pmem_memcpy = (\<lambda>f off vs fl. case fl of
         PMEM_TRANSFER \<Rightarrow> pm_stores f off vs @ pm_flush_range f off (length vs)
       | _ \<Rightarrow> pm_stores f off vs),
     pmem_memcpy_persist = (\<lambda>f off vs. pm_stores f off vs @ pm_flush_range f off (length vs) @ [PFence])\<rparr>"

lemma ex_pmdk_ok: "pmdk_ok ex_pmdk"
proof -
  have w: "writes_back f off n (pm_flush_range f off n)" for f off n by (auto simp: writes_back_def pm_flush_range_def)
  have n: "PFlush f' l \<notin> set (pm_stores f off vs)" for f f' off vs l by (auto simp: pm_stores_def)
  have "pmem_memcpy_persist ex_pmdk f off vs = pm_stores f off vs @ pm_flush_range f off (length vs) @ [PFence]"
    "pmem_memcpy ex_pmdk f off vs PMEM_TRANSFER = pm_stores f off vs @ pm_flush_range f off (length vs)"
    "pmem_memcpy ex_pmdk f off vs PMEM_TRANSFER_CACHE = pm_stores f off vs"
    "pmem_memcpy ex_pmdk f off vs PMEM_TRANSFER_LARGE = pm_stores f off vs" for f off vs
    by (simp_all add: ex_pmdk_def)
  note e = this
  show ?thesis unfolding pmdk_ok_def
    by (intro allI conjI ballI exI, elim insertE emptyE) (auto simp: e n pm_stores_copies intro: w)
qed

end
