(* ===== verification/Node_Codec.thy ===== *)
theory Node_Codec
  imports PMem Disk_Layout
begin

text \<open>
  The bytes of a graph node, \<^verbatim>\<open>[COORD(T)][NNBRS][NBR_ID(_u32)]\<close>, as \<^verbatim>\<open>DiskNode\<close> of
  \<^verbatim>\<open>include/query_buf.h\<close> and \<^verbatim>\<open>src/ssd_index.cpp\<close> reads them, and the sequence of stores with which
  the insert path writes them. Integers are little-endian; coordinates are kept as their bytes.
\<close>

definition u32_bytes :: "nat \<Rightarrow> nat list" where
  "u32_bytes n = [n mod 256, n div 256 mod 256, n div 65536 mod 256, n div 16777216 mod 256]"

definition read_u32 :: "(nat \<Rightarrow> nat) \<Rightarrow> nat \<Rightarrow> nat" where
  "read_u32 rd p = rd p + 256 * rd (p + 1) + 65536 * rd (p + 2) + 16777216 * rd (p + 3)"

record DiskNode =
  node_id :: nat
  coords :: "nat list"
  nnbrs :: nat
  nbrs :: "nat list"

definition coords_len :: "geom \<Rightarrow> nat" where
  "coords_len g = data_dim g * elem_size g"

text \<open>
  \<^verbatim>\<open>DiskNode(id, offset_to_node_coords(buf), offset_to_node_nhood(buf))\<close> over the bytes \<open>rd\<close>, with the
  coordinates and the neighbour ids it gives access to.
\<close>

definition mk_DiskNode :: "geom \<Rightarrow> (nat \<Rightarrow> nat) \<Rightarrow> nat \<Rightarrow> nat \<Rightarrow> DiskNode" where
  "mk_DiskNode g rd i buf =
     (let c = offset_to_node_coords buf; h = offset_to_node_nhood g buf; n = read_u32 rd h
      in \<lparr>node_id = i, coords = map (\<lambda>j. rd (c + j)) [0..<coords_len g], nnbrs = n,
          nbrs = map (\<lambda>j. read_u32 rd (h + 4 + 4 * j)) [0..<n]\<rparr>)"

definition node_bytes :: "nat list \<Rightarrow> nat list \<Rightarrow> nat list" where
  "node_bytes cs ns = cs @ u32_bytes (length ns) @ concat (map u32_bytes ns)"

text \<open>Bytes of a node as they lie at position \<open>p\<close>.\<close>

definition bytes_at :: "(nat \<Rightarrow> nat) \<Rightarrow> nat \<Rightarrow> nat list \<Rightarrow> bool" where
  "bytes_at rd p bs \<longleftrightarrow> (\<forall>i < length bs. rd (p + i) = bs ! i)"

section \<open>Reading back what was written\<close>

lemma bytes_at_append:
  "bytes_at rd p (xs @ ys) \<longleftrightarrow> bytes_at rd p xs \<and> bytes_at rd (p + length xs) ys"
proof
  assume a: "bytes_at rd p (xs @ ys)"
  have "rd (p + length xs + i) = ys ! i" if "i < length ys" for i
    using a that unfolding bytes_at_def by (auto simp: nth_append add.assoc dest: spec[of _ "length xs + i"])
  then show "bytes_at rd p xs \<and> bytes_at rd (p + length xs) ys"
    using a by (auto simp: bytes_at_def nth_append split: if_splits)
next
  assume a: "bytes_at rd p xs \<and> bytes_at rd (p + length xs) ys"
  then have b: "rd (p + length xs + i) = ys ! i" if "i < length ys" for i using that by (simp add: bytes_at_def)
  show "bytes_at rd p (xs @ ys)"
    unfolding bytes_at_def
  proof (intro allI impI)
    fix i assume "i < length (xs @ ys)"
    then show "rd (p + i) = (xs @ ys) ! i"
      using a b[of "i - length xs"] by (cases "i < length xs") (auto simp: nth_append bytes_at_def)
  qed
qed

lemma u32_bytes_length [simp]: "length (u32_bytes n) = 4"
  by (simp add: u32_bytes_def)

lemma u32_bytes_concat_length [simp]: "length (concat (map u32_bytes ns)) = 4 * length ns"
  by (induction ns) auto

lemma node_bytes_length [simp]: "length (node_bytes cs ns) = length cs + 4 + 4 * length ns"
  by (simp add: node_bytes_def)

lemma read_u32_bytes:
  assumes "n < 2 ^ 32" "bytes_at rd p (u32_bytes n)"
  shows "read_u32 rd p = n"
proof -
  have "rd (p + i) = u32_bytes n ! i" if "i < 4" for i using assms(2) that by (simp add: bytes_at_def)
  from this[of 0] this[of 1] this[of 2] this[of 3] have "read_u32 rd p
      = n mod 256 + 256 * (n div 256 mod 256) + 65536 * (n div 65536 mod 256) + 16777216 * (n div 16777216 mod 256)"
    by (simp add: read_u32_def u32_bytes_def)
  also have "\<dots> = n" using assms(1)
  proof -
    define a b c where abc: "a = n div 256" "b = a div 256" "c = b div 256"
    define x y z where xyz: "x = n mod 256" "y = a mod 256" "z = b mod 256"
    have "n = x + 256 * a" "a = y + 256 * b" "b = z + 256 * c" by (simp_all add: abc xyz)
    moreover have e: "n div 65536 = b" "n div 16777216 = c" "c mod 256 = c"
      using assms(1) by (simp_all add: abc div_mult2_eq[symmetric])
    ultimately show ?thesis unfolding e xyz[symmetric] abc(1)[symmetric] by linarith
  qed
  finally show ?thesis .
qed

lemma bytes_at_ids:
  assumes "bytes_at rd p (concat (map u32_bytes ns))" "\<forall>n\<in>set ns. n < 2 ^ 32"
  shows "map (\<lambda>j. read_u32 rd (p + 4 * j)) [0..<length ns] = ns"
  using assms
proof (induction ns arbitrary: p)
  case (Cons n ns)
  have "read_u32 rd p = n" "map (\<lambda>j. read_u32 rd (p + 4 + 4 * j)) [0..<length ns] = ns"
    using Cons read_u32_bytes by (auto simp: bytes_at_append)
  moreover have "[0..<length (n # ns)] = 0 # map Suc [0..<length ns]" by (simp add: upt_conv_Cons map_Suc_upt del: upt_Suc)
  ultimately show ?case by (simp add: comp_def add.assoc)
qed simp

lemma bytes_at_map: "bytes_at rd p bs \<Longrightarrow> map (\<lambda>j. rd (p + j)) [0..<length bs] = bs"
  by (intro nth_equalityI) (auto simp: bytes_at_def)

definition node_fits :: "geom \<Rightarrow> nat list \<Rightarrow> nat list \<Rightarrow> bool" where
  "node_fits g cs ns \<longleftrightarrow> length cs = coords_len g \<and> (\<forall>n\<in>set ns. n < 2 ^ 32) \<and> length ns < 2 ^ 32"

lemma node_read_back:
  assumes "node_fits g cs ns" "bytes_at rd buf (node_bytes cs ns)"
  shows "mk_DiskNode g rd i buf = \<lparr>node_id = i, coords = cs, nnbrs = length ns, nbrs = ns\<rparr>"
proof -
  have l: "length cs = coords_len g" using assms(1) by (simp add: node_fits_def)
  have b: "bytes_at rd buf cs" "bytes_at rd (buf + coords_len g) (u32_bytes (length ns))"
    "bytes_at rd (buf + coords_len g + 4) (concat (map u32_bytes ns))"
    using assms(2) l by (simp_all add: node_bytes_def bytes_at_append add.assoc)
  have "read_u32 rd (buf + coords_len g) = length ns" using b(2) assms(1) by (intro read_u32_bytes) (auto simp: node_fits_def)
  moreover have "map (\<lambda>j. read_u32 rd (buf + coords_len g + 4 + 4 * j)) [0..<length ns] = ns"
    using b(3) assms(1) by (intro bytes_at_ids) (auto simp: node_fits_def)
  moreover have "map (\<lambda>j. rd (buf + j)) [0..<coords_len g] = cs" using bytes_at_map[OF b(1)] l by simp
  ultimately show ?thesis
    by (simp add: mk_DiskNode_def offset_to_node_coords_def offset_to_node_nhood_def Let_def coords_len_def)
qed

text \<open>
  C33. Reading a node from memory that holds its encoding gives back the coordinates, the number of
  neighbours and the neighbour ids.
\<close>

theorem node_roundtrip:
  assumes "node_fits g cs ns" "bytes_at rd buf (node_bytes cs ns)"
  shows "mk_DiskNode g rd i buf = \<lparr>node_id = i, coords = cs, nnbrs = length ns, nbrs = ns\<rparr>"
  by (rule node_read_back[OF assms])

theorem node_roundtrip_witness:
  "mk_DiskNode \<lparr>data_dim = 2, elem_size = 1, max_node_len = 18, nnodes_per_sector = 4\<rparr>
     (\<lambda>i. (node_bytes [7, 9] [300, 5]) ! (i - 100)) 1 100 = \<lparr>node_id = 1, coords = [7, 9], nnbrs = 2, nbrs = [300, 5]\<rparr>"
  using node_roundtrip[of "\<lparr>data_dim = 2, elem_size = 1, max_node_len = 18, nnodes_per_sector = 4\<rparr>" "[7, 9]" "[300, 5]"
    "\<lambda>i. (node_bytes [7, 9] [300, 5]) ! (i - 100)" 100 1]
  by (simp add: node_fits_def coords_len_def bytes_at_def)

section \<open>Writing a node\<close>

text \<open>The stores of one node: the neighbour count first, then the coordinates, then the neighbours.\<close>

definition node_stores :: "pmdk \<Rightarrow> geom \<Rightarrow> nat \<Rightarrow> nat list \<Rightarrow> nat list \<Rightarrow> pm_event list" where
  "node_stores L g buf cs ns =
     pm_stores Graph_f (offset_to_node_nhood g buf) (u32_bytes (length ns))
     @ pmem_memcpy L Graph_f (offset_to_node_coords buf) cs PMEM_TRANSFER_CACHE
     @ pmem_memcpy L Graph_f (offset_to_node_nhood g buf + 4) (concat (map u32_bytes ns)) PMEM_TRANSFER_CACHE"

lemma node_stores_stored:
  assumes "pmdk_ok L" "length cs = coords_len g" "i < length (node_bytes cs ns)"
  shows "stored (pm_run (node_stores L g buf cs ns) m) (Graph_f, buf + i) (node_bytes cs ns ! i)"
proof -
  let ?L = "coords_len g" and ?ids = "concat (map u32_bytes ns)"
  obtain a b where e: "node_stores L g buf cs ns = pm_stores Graph_f (buf + ?L) (u32_bytes (length ns)) @ a @ b"
    and ab: "copies Graph_f buf cs a" "copies Graph_f (buf + ?L + 4) ?ids b"
    using pmdk_cache[OF assms(1)] by (simp add: node_stores_def offset_to_node_nhood_def offset_to_node_coords_def coords_len_def)
  consider (c) "i < ?L" | (n) j where "i = ?L + j" "j < 4" | (b) j where "i = ?L + 4 + j" "j < 4 * length ns"
  proof -
    have "i < ?L \<or> (?L \<le> i \<and> i - ?L < 4) \<or> (?L + 4 \<le> i \<and> i - ?L - 4 < 4 * length ns)" using assms(2,3) by simp arith
    then show ?thesis using that(1) that(2)[of "i - ?L"] that(3)[of "i - ?L - 4"] by auto
  qed
  then show ?thesis
  proof cases
    case c
    then have "node_bytes cs ns ! i = cs ! i" using assms(2) by (simp add: node_bytes_def nth_append)
    then show ?thesis using c copies_stored[OF ab(1), of i] assms(2) copies_untouched[OF ab(2)] unfolding e pm_run_append
      by (simp add: run_keeps(1))
  next
    case n
    then have "node_bytes cs ns ! i = u32_bytes (length ns) ! j" using assms(2) by (simp add: node_bytes_def nth_append)
    moreover have "stored (pm_run (pm_stores Graph_f (buf + ?L) (u32_bytes (length ns))) m) (Graph_f, buf + ?L + j) (u32_bytes (length ns) ! j)"
      using copies_stored[OF pm_stores_copies, of j "u32_bytes (length ns)"] n by simp
    ultimately show ?thesis using n assms(2) copies_untouched[OF ab(1)] copies_untouched[OF ab(2)] unfolding e pm_run_append
      by (simp add: run_keeps(1) add.assoc)
  next
    case b
    then have "node_bytes cs ns ! i = ?ids ! j" using assms(2) by (simp add: node_bytes_def nth_append)
    then show ?thesis using b copies_stored[OF ab(2), of j] unfolding e pm_run_append by (simp add: add.assoc)
  qed
qed

lemma node_stores_untouched:
  assumes "pmdk_ok L" "length cs = coords_len g"
  shows "untouched c (node_stores L g buf cs ns) \<longleftrightarrow>
    \<not> (fst c = Graph_f \<and> buf \<le> snd c \<and> snd c < buf + length (node_bytes cs ns))"
  using assms(2) by (auto simp: node_stores_def untouched_memcpy[OF assms(1)] offset_to_node_nhood_def offset_to_node_coords_def coords_len_def)

end
