(* ===== verification/Soft_Insert.thy ===== *)
theory Soft_Insert
  imports Lock_Order Prune Node_Codec
begin

text \<open>
  \<^verbatim>\<open>insert_phase_pm\<close> of \<^verbatim>\<open>src/update/direct_insert.cpp\<close>: the insertion of a vector into a graph file in
  persistent memory. The new node and a new version of each of its neighbours are built in fresh slots;
  the old versions stay until the location tables are switched. The phase is a function from the state of
  the index to the state after it together with the sequence of its persistent-memory events, so that a
  crash can be placed after any prefix of them. The build variant is the default one (out-of-place update,
  fine-grained concurrency); other threads only show in the lock tables.
\<close>

datatype prune_variant = DELTA_PRUNING | BATCH_PRUNING | FULL_PRUNING

fun select_prune ::
  "prune_variant \<Rightarrow> prune_params \<Rightarrow> (nat \<Rightarrow> nat \<Rightarrow> fl) \<Rightarrow> nat \<Rightarrow> nat \<Rightarrow> nat list \<Rightarrow> nat list run" where
  "select_prune DELTA_PRUNING P pq_dist target_id nbr_id nhood = delta_prune P pq_dist target_id nbr_id nhood"
| "select_prune BATCH_PRUNING P pq_dist target_id nbr_id nhood = batch_prune P pq_dist target_id nbr_id nhood"
| "select_prune FULL_PRUNING P pq_dist target_id nbr_id nhood = full_prune P pq_dist nbr_id nhood"

record soft_cfg =
  spmdk :: pmdk
  sgeom :: geom
  salloc :: alloc_config
  sprune :: prune_params
  svariant :: prune_variant
  enable_tags :: bool

record CommitTask =
  ct_pq_coords :: "nat list"
  ct_target_id :: nat
  ct_terminate :: bool
  ct_point :: "nat list option"

record pm_index =
  meta :: meta_state
  mem :: pmem
  graph_size :: nat
  vec_locks :: "nat slt"
  page_locks :: "nat slt"
  commit_tasks :: "CommitTask option ConcurrentQueue"
  insert_thread_count :: nat

definition MAX_N_EDGES :: nat where
  "MAX_N_EDGES = 512"

definition size_per_io :: "geom \<Rightarrow> nat" where
  "size_per_io g = SECTOR_LEN * (if nnodes_per_sector g > 0 then 1 else DIV_ROUND_UP (max_node_len g) SECTOR_LEN)"

section \<open>Buffers\<close>

text \<open>How far the graph file must be mapped for the new locations.\<close>

definition graph_extent :: "geom \<Rightarrow> nat \<Rightarrow> nat list \<Rightarrow> nat" where
  "graph_extent g fsize locs =
     (let max_loc = foldl (\<lambda>m l. if l > m then l else m) 0 locs;
          extend_fsize = loc_sector_no g max_loc * SECTOR_LEN + SECTOR_LEN
      in if extend_fsize > fsize then extend_fsize else fsize)"

definition rmw_pages :: "geom \<Rightarrow> nat list \<Rightarrow> nat list" where
  "rmw_pages g locs = remdups_adj (sort (map (loc_sector_no g) locs))"

text \<open>
  An entry of \<^verbatim>\<open>page_buf_map\<close>: a copy of the page in \<^verbatim>\<open>update_buf\<close>, or the address of the page in
  the mapped file.
\<close>

datatype page_buf = Dram "nat list" | Dax

definition read_page :: "geom \<Rightarrow> pmem \<Rightarrow> nat \<Rightarrow> nat list" where
  "read_page g m page = map (\<lambda>i. pm_visible m (Graph_f, page * SECTOR_LEN + i)) [0..<size_per_io g]"

fun nbr_sectors :: "geom \<Rightarrow> meta_state \<Rightarrow> nat list \<Rightarrow> nat list outcome" where
  "nbr_sectors g m [] = Inr []"
| "nbr_sectors g m (i # is) =
     and_then (node_sector_no g m i) (\<lambda>p. and_then (nbr_sectors g m is) (\<lambda>ps. Inr (p # ps)))"

definition page_buf_map :: "geom \<Rightarrow> pmem \<Rightarrow> nat list \<Rightarrow> nat list \<Rightarrow> (nat \<rightharpoonup> page_buf)" where
  "page_buf_map g m old_pages rmw =
     fold (\<lambda>p b. if b p = None then b(p \<mapsto> Dax) else b) rmw
       (fold (\<lambda>p b. b(p \<mapsto> Dram (read_page g m p))) old_pages Map.empty)"

definition patch :: "'a list \<Rightarrow> nat \<Rightarrow> 'a list \<Rightarrow> 'a list" where
  "patch bs off vs = take off bs @ vs @ drop (off + length vs) bs"

text \<open>
  Writing a node at a location: into the mapped page, or into the copy of the page and then into the
  mapped page (the shadow copy). The result has the events and the address of the node in the file.
  \<^verbatim>\<open>page_buf_map[sector]\<close> of a page that is not there is a null pointer.
\<close>

definition write_node ::
  "pmdk \<Rightarrow> geom \<Rightarrow> (nat \<rightharpoonup> page_buf) \<Rightarrow> nat \<Rightarrow> nat list \<Rightarrow> nat list
   \<Rightarrow> ((nat \<rightharpoonup> page_buf) \<times> pm_event list \<times> nat) outcome" where
  "write_node L g bufs loc cs ns =
     (let sector = loc_sector_no g loc; pm_node = offset_to_loc g (sector * SECTOR_LEN) loc
      in case bufs sector of
           None \<Rightarrow> Inl Undefined
         | Some Dax \<Rightarrow> Inr (bufs, node_stores L g pm_node cs ns, pm_node)
         | Some (Dram bs) \<Rightarrow>
             Inr (bufs(sector \<mapsto> Dram (patch bs (offset_to_loc g 0 loc) (node_bytes cs ns))),
                  node_stores L g pm_node cs ns, pm_node))"

text \<open>The length that is flushed: it leaves out the four bytes of the neighbour count.\<close>

definition node_len :: "geom \<Rightarrow> nat list \<Rightarrow> nat" where
  "node_len g ns = data_dim g * elem_size g + length ns * 4"

section \<open>New versions of the neighbours\<close>

definition read_nbr :: "geom \<Rightarrow> meta_state \<Rightarrow> (nat \<rightharpoonup> page_buf) \<Rightarrow> nat \<Rightarrow> DiskNode outcome" where
  "read_nbr g m bufs i =
     and_then (node_sector_no g m i) (\<lambda>r_sector.
       case bufs r_sector of
         None \<Rightarrow> Inl Exit
       | Some Dax \<Rightarrow> Inl Assert_failed
       | Some (Dram bs) \<Rightarrow>
           and_then (offset_to_node g m 0 i) (\<lambda>off.
             let r = mk_DiskNode g (\<lambda>j. bs ! j) i off
             in if length bs < offset_to_node_nhood g off + 4 + 4 * nnbrs r then Inl Undefined else Inr r))"

definition add_back_edge ::
  "soft_cfg \<Rightarrow> (nat \<Rightarrow> nat \<Rightarrow> fl) \<Rightarrow> nat \<Rightarrow> DiskNode \<Rightarrow> nat list run" where
  "add_back_edge C pq_dist target_id r =
     (let nhood = nbrs r @ [target_id]
      in if length nhood > prange (sprune C) then select_prune (svariant C) (sprune C) pq_dist target_id (node_id r) nhood
         else Some (Inr nhood))"

fun update_nbrs ::
  "soft_cfg \<Rightarrow> (nat \<Rightarrow> nat \<Rightarrow> fl) \<Rightarrow> meta_state \<Rightarrow> nat \<Rightarrow> (nat \<rightharpoonup> page_buf) \<Rightarrow> nat list \<Rightarrow> nat list
   \<Rightarrow> (pm_event list \<times> (nat \<times> nat) list) run" where
  "update_nbrs C pq_dist m target_id bufs [] locs = Some (Inr ([], []))"
| "update_nbrs C pq_dist m target_id bufs (i # is) [] = Some (Inl Undefined)"
| "update_nbrs C pq_dist m target_id bufs (i # is) (l # ls) =
     bind_run (Some (read_nbr (sgeom C) m bufs i)) (\<lambda>r.
     bind_run (add_back_edge C pq_dist target_id r) (\<lambda>nhood.
     bind_run (Some (write_node (spmdk C) (sgeom C) bufs l (coords r) nhood)) (\<lambda>(bufs, evs, w_node_buf).
     bind_run (update_nbrs C pq_dist m target_id bufs is ls) (\<lambda>(evs', flush_requests).
       Some (Inr (evs @ evs', (w_node_buf, node_len (sgeom C) nhood) # flush_requests))))))"

section \<open>The phase\<close>

text \<open>Step 1: the target's node and tag, up to the first barrier.\<close>

definition target_events :: "soft_cfg \<Rightarrow> nat \<Rightarrow> nat \<Rightarrow> nat list \<Rightarrow> pm_event list \<Rightarrow> nat \<Rightarrow> pm_event list" where
  "target_events C target_id tag new_nhood stores node_buf =
     stores @ flush_dax Graph_f node_buf (node_len (sgeom C) new_nhood)
     @ (if enable_tags C then pmem_memcpy_persist (spmdk C) Tag_f target_id [tag] else [])
     @ barrier_dax"

text \<open>Step 2: the target's location entry, the write-back of the neighbours, the second barrier.\<close>

definition publish_events :: "pmdk \<Rightarrow> nat \<Rightarrow> nat \<Rightarrow> (nat \<times> nat) list \<Rightarrow> pm_event list" where
  "publish_events L target_id loc flush_requests =
     pmem_memcpy L Loc_f target_id [u32 loc] PMEM_TRANSFER
     @ concat (map (\<lambda>(buf, len). flush_dax Graph_f buf len) flush_requests)
     @ barrier_dax"

text \<open>The events of both steps, and the tables in DRAM after the switch.\<close>

definition soft_update ::
  "soft_cfg \<Rightarrow> (nat \<Rightarrow> nat \<Rightarrow> fl) \<Rightarrow> meta_state \<Rightarrow> pmem \<Rightarrow> nat list \<Rightarrow> nat \<Rightarrow> nat \<Rightarrow> nat list \<Rightarrow> nat list
   \<Rightarrow> (meta_state \<times> pm_event list) run" where
  "soft_update C pq_dist m pm point tag target_id new_nhood locs =
     (let g = sgeom C; n = length new_nhood
      in bind_run (Some (nbr_sectors g m new_nhood)) (\<lambda>old_pages.
         let bufs = page_buf_map g pm old_pages (rmw_pages g locs)
         in bind_run (Some (write_node (spmdk C) g bufs (locs ! n) point new_nhood)) (\<lambda>(bufs, stores, node_buf).
            let m1 = m\<lparr>tags := snd (insert_or_assign (tags m) target_id tag)\<rparr>
            in bind_run (update_nbrs C pq_dist m1 target_id bufs new_nhood locs) (\<lambda>(nbr_stores, flush_requests).
               bind_run (Some (publish g m1 target_id new_nhood locs)) (\<lambda>m2.
                 Some (Inr (m2, target_events C target_id tag new_nhood stores node_buf @ nbr_stores
                              @ publish_events (spmdk C) target_id (locs ! n) flush_requests)))))))"

text \<open>
  The whole phase. \<open>sample\<close> is the random draw that keeps a copy of the vector for the in-memory index;
  \<^verbatim>\<open>new_nhood\<close> has the target appended when the locks are released.
\<close>

definition insert_phase_pm ::
  "soft_cfg \<Rightarrow> (nat \<Rightarrow> nat \<Rightarrow> nat slt \<Rightarrow> nat slt) \<Rightarrow> (nat \<Rightarrow> nat \<Rightarrow> fl) \<Rightarrow> bool \<Rightarrow> pm_index
   \<Rightarrow> nat list \<Rightarrow> nat \<Rightarrow> nat \<Rightarrow> nat list \<Rightarrow> nat list \<Rightarrow> nat list \<Rightarrow> (pm_index \<times> pm_event list) run" where
  "insert_phase_pm C env pq_dist sample st point tag target_id new_nhood page_ref pq_coords =
     (let g = sgeom C; n = length new_nhood; m = meta st
      in bind_run (Some (alloc_loc g (salloc C) (alloc m) (n + 1) page_ref {})) (\<lambda>(locs, need, a).
         case lockReqs env (page_locks st) (map (\<lambda>p. (p * SECTOR_LEN, size_per_io g)) (rmw_pages g locs)) of
           None \<Rightarrow> None
         | Some (pages_locked, pl) \<Rightarrow>
             (case lock_vec env (vec_locks st) target_id new_nhood False of
                None \<Rightarrow> None
              | Some vl \<Rightarrow>
                  if \<not> n < MAX_N_EDGES then Some (Inl Assert_failed)
                  else bind_run (soft_update C pq_dist (m\<lparr>alloc := a\<rparr>) (mem st) point tag target_id new_nhood locs) (\<lambda>(m', evs).
                       bind_run (Some (unlock_vec vl target_id (new_nhood @ [target_id]))) (\<lambda>vl'.
                       bind_run (Some (unlockReqs pl pages_locked)) (\<lambda>pl'.
                         Some (Inr (st\<lparr>meta := m', mem := pm_run evs (mem st),
                                graph_size := graph_extent g (graph_size st) locs,
                                vec_locks := vl', page_locks := pl',
                                commit_tasks := cq_push (commit_tasks st)
                                  (Some \<lparr>ct_pq_coords = pq_coords, ct_target_id = target_id, ct_terminate = False,
                                         ct_point = if sample then Some point else None\<rparr>)\<rparr>, evs))))))))"

section \<open>The variants of pruning\<close>

text \<open>When the configured variant is defined on every full neighbour list.\<close>

definition variant_ok :: "soft_cfg \<Rightarrow> bool" where
  "variant_ok C \<longleftrightarrow> (\<exists>a. alpha (sprune C) = Fin a \<and> 1 \<le> a \<and> a < 2 ^ 128)
     \<and> 0 < prange (sprune C) \<and> 0 < maxc (sprune C)
     \<and> (svariant C = BATCH_PRUNING \<longrightarrow>
          16 \<le> prange (sprune C) \<and> PRUNE_BATCH_SIZE (sprune C) dvd prange (sprune C) + 1)"

lemma one_removed_distinct: "one_removed xs ys \<Longrightarrow> distinct xs \<Longrightarrow> distinct ys"
proof -
  assume "one_removed xs ys" "distinct xs"
  then obtain x where x: "mset xs = mset (x # ys)" by (auto simp: one_removed_def)
  show ?thesis using mset_eq_imp_distinct_iff[OF x] \<open>distinct xs\<close> by simp
qed

lemma select_prune_ok:
  assumes "variant_ok C" "distinct nhood" "length nhood = prange (sprune C) + 1" "t \<in> set nhood"
  shows "\<exists>nh. select_prune (svariant C) (sprune C) pq_dist t v nhood = Some (Inr nh)
    \<and> distinct nh \<and> set nh \<subseteq> set nhood \<and> length nh \<le> prange (sprune C)"
proof -
  let ?P = "sprune C"
  obtain a where a: "alpha ?P = Fin a" "1 \<le> a" "a < 2 ^ 128" "0 < prange ?P" "0 < maxc ?P"
    using assms(1) by (auto simp: variant_ok_def)
  show ?thesis
  proof (cases "svariant C")
    case DELTA_PRUNING
    let ?tri = "tri_pool_of nhood (map (pq_dist t) nhood) (map (pq_dist v) nhood)"
    have ids: "mset (map tid ?tri) = mset nhood" by (rule tri_pool_of_ids)
    then have "t \<in> set (map tid ?tri)" using assms(4) mset_eq_setD by blast
    then obtain i where i: "find_target t ?tri = Some i" "i < length ?tri" using find_target_ok by blast
    obtain nh where nh: "delta_prune_neighbors_pq ?P pq_dist ?tri i = Some (Inr nh)" "one_removed (map tid ?tri) nh" "length nh = prange ?P"
      using delta_prune_ok[OF a(1,3) _ i(2), of pq_dist] assms(3) by (auto simp: tri_pool_of_ids)
    have "one_removed nhood nh" using one_removed_cong[OF ids nh(2)] .
    then show ?thesis using one_removed_length one_removed_distinct[OF _ assms(2)] nh i(1) DELTA_PRUNING
      by (auto simp: delta_prune_def Let_def)
  next
    case BATCH_PRUNING
    then have "16 \<le> prange ?P" "PRUNE_BATCH_SIZE ?P dvd prange ?P + 1" using assms(1) by (auto simp: variant_ok_def)
    then obtain nh where "batch_prune ?P pq_dist t v nhood = Some (Inr nh)" "one_removed nhood nh" "length nh = prange ?P"
      using batch_prune_ok[OF a(1,3) _ assms(3,4), of pq_dist v] by auto
    then show ?thesis using one_removed_length one_removed_distinct[OF _ assms(2)] BATCH_PRUNING by auto
  next
    case FULL_PRUNING
    let ?pool = "sort_pool (map (\<lambda>i. mk_Neighbor i (pq_dist v i) False) nhood)"
    have n: "map nid (map (\<lambda>i. mk_Neighbor i (pq_dist v i) False) nhood) = nhood" by (simp add: mk_Neighbor_def comp_def)
    have p: "distinct (map nid ?pool)" "nid ` set ?pool = set nhood" "?pool \<noteq> []"
      using assms(2,4) n by (auto simp: sort_pool_nids simp flip: set_map)
    obtain pl where "prune_neighbors_pq ?P pq_dist ?pool [] = Some (Inr pl)" "distinct pl" "length pl \<le> prange ?P"
      "set pl \<subseteq> nid ` set ?pool"
      using prune_pq_ok[OF a(1,2,4,5) p(3,1) sort_pool_is_sorted, of pq_dist "[]"] by blast
    then show ?thesis using FULL_PRUNING p(2) by (simp add: full_prune_def)
  qed
qed

lemma add_back_edge_ok:
  assumes "variant_ok C" "distinct (nbrs r)" "t \<notin> set (nbrs r)" "length (nbrs r) \<le> prange (sprune C)"
  shows "\<exists>nh. add_back_edge C pq_dist t r = Some (Inr nh)
    \<and> distinct nh \<and> set nh \<subseteq> insert t (set (nbrs r)) \<and> length nh \<le> prange (sprune C)"
proof (cases "length (nbrs r) = prange (sprune C)")
  case True
  then show ?thesis
    using select_prune_ok[OF assms(1), of "nbrs r @ [t]" t pq_dist "node_id r"] assms(2,3) by (auto simp: add_back_edge_def Let_def)
next
  case False
  then show ?thesis using assms by (auto simp: add_back_edge_def Let_def)
qed

section \<open>Page buffers\<close>

lemma offset_to_loc_pm: "offset_to_loc g (loc_sector_no g l * SECTOR_LEN) l = u_loc_offset g l"
  by (simp add: u_loc_offset_def offset_to_loc_def Let_def)

lemma u_loc_offset_split: "u_loc_offset g l = loc_sector_no g l * SECTOR_LEN + offset_to_loc g 0 l"
  by (simp add: u_loc_offset_def offset_to_loc_def Let_def)

lemma slot_disjoint:
  assumes "geom_ok g" "l \<noteq> l'" "j < max_node_len g" "j' < max_node_len g"
  shows "u_loc_offset g l + j \<noteq> u_loc_offset g l' + j'"
  using u_loc_offset_less[OF assms(1), of l l'] u_loc_offset_less[OF assms(1), of l' l] assms(2-4)
  by (cases "l < l'") auto

lemma page_buf_map_eq:
  "page_buf_map g pm old rmw p =
     (if p \<in> set old then Some (Dram (read_page g pm p)) else if p \<in> set rmw then Some Dax else None)"
proof -
  have 1: "fold (\<lambda>p b. b(p \<mapsto> Dram (read_page g pm p))) old b p = (if p \<in> set old then Some (Dram (read_page g pm p)) else b p)" for b
    by (induction old arbitrary: b) auto
  have 2: "fold (\<lambda>p b. if b p = None then b(p \<mapsto> Dax) else b) rmw b p
      = (if b p \<noteq> None then b p else if p \<in> set rmw then Some Dax else None)" for b
    by (induction rmw arbitrary: b) auto
  show ?thesis by (simp add: page_buf_map_def 1 2)
qed

lemma length_patch: "off + length vs \<le> length bs \<Longrightarrow> length (patch bs off vs) = length bs"
  by (simp add: patch_def)

lemma nth_patch:
  "off + length vs \<le> length bs \<Longrightarrow> \<not> (off \<le> j \<and> j < off + length vs) \<Longrightarrow> patch bs off vs ! j = bs ! j"
  by (auto simp: patch_def nth_append not_le)

text \<open>The slots of a page lie apart, inside the page.\<close>

lemma slot_in_page:
  assumes "geom_paged g"
  shows "offset_to_loc g 0 l + max_node_len g \<le> size_per_io g"
proof -
  have n: "0 < nnodes_per_sector g" "nnodes_per_sector g * max_node_len g \<le> SECTOR_LEN"
    using assms by (simp_all add: geom_paged_def geom_ok_def)
  have "Suc (l mod nnodes_per_sector g) * max_node_len g \<le> nnodes_per_sector g * max_node_len g"
    using n(1) by (intro mult_le_mono1) (simp add: Suc_leI)
  then show ?thesis using n by (simp add: size_per_io_def offset_to_loc_def)
qed

lemma slots_apart:
  assumes "geom_paged g" "l \<noteq> l'" "loc_sector_no g l = loc_sector_no g l'" "j < max_node_len g" "j' < max_node_len g"
  shows "offset_to_loc g 0 l + j \<noteq> offset_to_loc g 0 l' + j'"
  using slot_disjoint[of g l l' j j'] assms by (simp add: geom_paged_def u_loc_offset_split)

text \<open>
  Pages with a slot of \<open>L\<close> are buffered and the buffer shows what the file had there; the pages of \<open>N\<close> have
  some buffer.
\<close>

definition bufs_inv :: "geom \<Rightarrow> pmem \<Rightarrow> nat set \<Rightarrow> nat set \<Rightarrow> (nat \<rightharpoonup> page_buf) \<Rightarrow> bool" where
  "bufs_inv g pm L N bufs \<longleftrightarrow>
     (\<forall>l\<in>L. \<exists>bs. bufs (loc_sector_no g l) = Some (Dram bs) \<and>
        (\<forall>j < max_node_len g. bs ! (offset_to_loc g 0 l + j) = pm_visible pm (Graph_f, u_loc_offset g l + j)))
     \<and> (\<forall>l\<in>N. bufs (loc_sector_no g l) \<noteq> None)
     \<and> (\<forall>p bs. bufs p = Some (Dram bs) \<longrightarrow> length bs = size_per_io g)"

lemma bufs_inv_start:
  assumes "geom_paged g" "\<forall>l\<in>L. loc_sector_no g l \<in> set old" "\<forall>l\<in>N. loc_sector_no g l \<in> set rmw"
  shows "bufs_inv g pm L N (page_buf_map g pm old rmw)"
proof -
  have "read_page g pm (loc_sector_no g l) ! (offset_to_loc g 0 l + j) = pm_visible pm (Graph_f, u_loc_offset g l + j)"
    if "j < max_node_len g" for l j
    using slot_in_page[OF assms(1), of l] that by (simp add: read_page_def u_loc_offset_split add.assoc)
  moreover have "length (read_page g pm p) = size_per_io g" for p by (simp add: read_page_def)
  ultimately show ?thesis using assms(2,3) by (auto simp: bufs_inv_def page_buf_map_eq)
qed

lemma write_node_ok:
  assumes g: "geom_paged g" and inv: "bufs_inv g pm L N bufs" and l: "l \<in> N" "l \<notin> L"
    and len: "length (node_bytes cs ns) \<le> max_node_len g"
  shows "\<exists>bufs'. write_node pk g bufs l cs ns = Inr (bufs', node_stores pk g (u_loc_offset g l) cs ns, u_loc_offset g l)
    \<and> bufs_inv g pm L N bufs'"
proof -
  let ?p = "loc_sector_no g l" and ?bs = "node_bytes cs ns" and ?off = "offset_to_loc g 0 l"
  obtain b where b: "bufs ?p = Some b" using inv l(1) by (auto simp: bufs_inv_def)
  show ?thesis
  proof (cases b)
    case Dax
    then show ?thesis using b inv by (simp add: write_node_def Let_def offset_to_loc_pm)
  next
    case (Dram bs)
    let ?b' = "bufs(?p \<mapsto> Dram (patch bs ?off ?bs))"
    have fit: "?off + length ?bs \<le> length bs"
      using inv b Dram slot_in_page[OF g, of l] len by (auto simp: bufs_inv_def)
    have "\<exists>bs. ?b' (loc_sector_no g l') = Some (Dram bs) \<and>
        (\<forall>j < max_node_len g. bs ! (offset_to_loc g 0 l' + j) = pm_visible pm (Graph_f, u_loc_offset g l' + j))"
      if l': "l' \<in> L" for l'
    proof (cases "loc_sector_no g l' = ?p")
      case False
      then show ?thesis using inv l' by (simp add: bufs_inv_def)
    next
      case True
      have old: "bs ! (offset_to_loc g 0 l' + j) = pm_visible pm (Graph_f, u_loc_offset g l' + j)" if "j < max_node_len g" for j
        using inv l' True b Dram that by (auto simp: bufs_inv_def)
      have "patch bs ?off ?bs ! (offset_to_loc g 0 l' + j) = bs ! (offset_to_loc g 0 l' + j)" if j: "j < max_node_len g" for j
      proof (rule nth_patch[OF fit], rule notI)
        assume a: "?off \<le> offset_to_loc g 0 l' + j \<and> offset_to_loc g 0 l' + j < ?off + length ?bs"
        then have "offset_to_loc g 0 l' + j - ?off < max_node_len g" using len by linarith
        then show False using slots_apart[OF g _ True, of j "offset_to_loc g 0 l' + j - ?off"] l l' a j by auto
      qed
      then show ?thesis using True old by simp
    qed
    then have "bufs_inv g pm L N ?b'"
      using inv b Dram length_patch[OF fit] by (auto simp: bufs_inv_def split: if_splits)
    then show ?thesis using b Dram by (simp add: write_node_def Let_def offset_to_loc_pm)
  qed
qed

section \<open>Reading and rewriting the neighbours\<close>

text \<open>The node stored at a location of the graph file.\<close>

abbreviation graph_bytes :: "pmem \<Rightarrow> nat \<Rightarrow> nat" where
  "graph_bytes pm \<equiv> (\<lambda>j. pm_visible pm (Graph_f, j))"

definition node_at :: "geom \<Rightarrow> (nat \<Rightarrow> nat) \<Rightarrow> nat \<Rightarrow> nat list \<Rightarrow> nat list \<Rightarrow> bool" where
  "node_at g rd l cs ns \<longleftrightarrow> node_fits g cs ns \<and> length (node_bytes cs ns) \<le> max_node_len g
     \<and> bytes_at rd (u_loc_offset g l) (node_bytes cs ns)"

definition as_DiskNode :: "nat \<Rightarrow> nat list \<Rightarrow> nat list \<Rightarrow> DiskNode" where
  "as_DiskNode i cs ns = \<lparr>node_id = i, coords = cs, nnbrs = length ns, nbrs = ns\<rparr>"

lemma read_nbr_ok:
  assumes "geom_paged g" "bufs_inv g pm L N bufs" "id2loc_map m i = Some l" "l \<in> L" "node_at g (graph_bytes pm) l cs ns"
  shows "read_nbr g m bufs i = Inr (as_DiskNode i cs ns)"
proof -
  let ?off = "offset_to_loc g 0 l"
  obtain bs where bs: "bufs (loc_sector_no g l) = Some (Dram bs)" "length bs = size_per_io g"
    "\<And>j. j < max_node_len g \<Longrightarrow> bs ! (?off + j) = pm_visible pm (Graph_f, u_loc_offset g l + j)"
    using assms(2,4) unfolding bufs_inv_def by blast
  have n: "node_fits g cs ns" "length (node_bytes cs ns) \<le> max_node_len g"
    "bytes_at (graph_bytes pm) (u_loc_offset g l) (node_bytes cs ns)" using assms(5) by (simp_all add: node_at_def)
  have "bytes_at (\<lambda>j. bs ! j) ?off (node_bytes cs ns)"
    using n(2,3) bs(3) by (simp add: bytes_at_def)
  from node_read_back[OF n(1) this, of i]
  have r: "mk_DiskNode g (\<lambda>j. bs ! j) i ?off = as_DiskNode i cs ns" by (simp add: as_DiskNode_def)
  have "offset_to_node_nhood g ?off + 4 + 4 * length ns \<le> length bs"
    using slot_in_page[OF assms(1), of l] n(1,2) bs(2) by (simp add: offset_to_node_nhood_def node_fits_def coords_len_def)
  then show ?thesis
    using r bs(1) assms(3) by (simp add: read_nbr_def node_sector_no_def offset_to_node_def id2loc_def Let_def as_DiskNode_def)
qed

lemma update_nbrs_ok:
  assumes g: "geom_paged (sgeom C)"
    and nodes: "\<And>i. i \<in> set is \<Longrightarrow> \<exists>l. id2loc_map m i = Some l \<and> l \<in> L \<and> node_at (sgeom C) (graph_bytes pm) l (cs i) (ns i)"
    and bk: "\<And>i. i \<in> set is \<Longrightarrow> add_back_edge C pq_dist t (as_DiskNode i (cs i) (ns i)) = Some (Inr (nh i))"
    and len: "\<And>i. i \<in> set is \<Longrightarrow> length (node_bytes (cs i) (nh i)) \<le> max_node_len (sgeom C)"
    and "bufs_inv (sgeom C) pm L N bufs" "length is \<le> length ls" "set ls \<subseteq> N" "set ls \<inter> L = {}"
  shows "update_nbrs C pq_dist m t bufs is ls = Some (Inr
    (concat (map (\<lambda>(i, l). node_stores (spmdk C) (sgeom C) (u_loc_offset (sgeom C) l) (cs i) (nh i)) (zip is ls)),
     map (\<lambda>(i, l). (u_loc_offset (sgeom C) l, node_len (sgeom C) (nh i))) (zip is ls)))"
  using nodes bk len assms(5-)
proof (induction "is" arbitrary: ls bufs)
  case (Cons i "is")
  obtain l ls' where ls: "ls = l # ls'" using Cons.prems(5) by (cases ls) auto
  obtain l0 where l0: "id2loc_map m i = Some l0" "l0 \<in> L" "node_at (sgeom C) (graph_bytes pm) l0 (cs i) (ns i)"
    using Cons.prems(1) by auto
  have r: "read_nbr (sgeom C) m bufs i = Inr (as_DiskNode i (cs i) (ns i))"
    by (rule read_nbr_ok[OF g Cons.prems(4) l0])
  obtain bufs' where w: "write_node (spmdk C) (sgeom C) bufs l (cs i) (nh i)
      = Inr (bufs', node_stores (spmdk C) (sgeom C) (u_loc_offset (sgeom C) l) (cs i) (nh i), u_loc_offset (sgeom C) l)"
    "bufs_inv (sgeom C) pm L N bufs'"
    using write_node_ok[OF g Cons.prems(4), of l "cs i" "nh i" "spmdk C"] Cons.prems(3,6,7) ls by auto
  have "update_nbrs C pq_dist m t bufs' is ls' = Some (Inr
    (concat (map (\<lambda>(i, l). node_stores (spmdk C) (sgeom C) (u_loc_offset (sgeom C) l) (cs i) (nh i)) (zip is ls')),
     map (\<lambda>(i, l). (u_loc_offset (sgeom C) l, node_len (sgeom C) (nh i))) (zip is ls')))"
    using Cons.prems ls w(2) by (intro Cons.IH) auto
  moreover have "add_back_edge C pq_dist t (as_DiskNode i (cs i) (ns i)) = Some (Inr (nh i))" using Cons.prems(2) by simp
  ultimately show ?case using r w(1) ls by (simp add: as_DiskNode_def)
qed simp

lemma map_inv_alloc:
  assumes "map_inv g m" "claims g (alloc m) a locs" "alloc_inv g a"
  shows "map_inv g (m\<lparr>alloc := a\<rparr>)"
proof -
  have sl: "slots g a = (\<lambda>l. if l \<in> set locs then kAllocatedID else slots g (alloc m) l)"
    "\<forall>l\<in>set locs. slots g (alloc m) l = kInvalidID" using assms(2) by (simp_all add: claims_def)
  have "i < kAllocatedID \<and> slots g a l = i" if "id2loc_map m i = Some l" for i l
  proof -
    have "i < kAllocatedID" "slots g (alloc m) l = i" using map_invD(1,2)[OF assms(1) that] .
    moreover have "l \<notin> set locs" using calculation sl(2) by (auto simp: kInvalidID_def kAllocatedID_def)
    ultimately show ?thesis by (simp add: sl(1))
  qed
  moreover have "id2loc_map m (slots g a l) = Some l" if "slots g a l \<notin> {kInvalidID, kAllocatedID}" for l
    using that assms(1) by (auto simp: sl(1) map_inv_def split: if_splits)
  ultimately show ?thesis using assms(3) by (simp add: map_inv_def)
qed

lemma nbr_sectors_ok:
  "\<forall>i\<in>set is. id2loc_map m i \<noteq> None \<Longrightarrow>
     nbr_sectors g m is = Inr (map (\<lambda>i. loc_sector_no g (the (id2loc_map m i))) is)"
  by (induction "is") (auto simp: node_sector_no_def id2loc_def)

section \<open>The events of an insertion\<close>

text \<open>
  The invariant of the index: the id and location tables are inverse to each other and every live location
  holds the record of a node whose neighbours are live, pairwise different and at most \<^verbatim>\<open>range\<close> many.
\<close>

definition graph_inv :: "soft_cfg \<Rightarrow> meta_state \<Rightarrow> pmem \<Rightarrow> bool" where
  "graph_inv C m pm \<longleftrightarrow> map_inv (sgeom C) m \<and> pm_wf pm
     \<and> (\<forall>i l. id2loc_map m i = Some l \<longrightarrow> (\<exists>cs ns. node_at (sgeom C) (graph_bytes pm) l cs ns \<and> distinct ns
          \<and> set ns \<subseteq> dom (id2loc_map m) \<and> length ns \<le> prange (sprune C)))"

text \<open>A configuration in which a full node fits its record.\<close>

definition cfg_ok :: "soft_cfg \<Rightarrow> bool" where
  "cfg_ok C \<longleftrightarrow> pmdk_ok (spmdk C) \<and> geom_paged (sgeom C) \<and> variant_ok C \<and> prange (sprune C) < 2 ^ 32
     \<and> coords_len (sgeom C) + 4 + 4 * prange (sprune C) \<le> max_node_len (sgeom C)"

definition soft_events ::
  "soft_cfg \<Rightarrow> nat \<Rightarrow> nat \<Rightarrow> nat list \<Rightarrow> nat list \<Rightarrow> nat list \<Rightarrow> (nat \<Rightarrow> nat list) \<Rightarrow> (nat \<Rightarrow> nat list) \<Rightarrow> pm_event list" where
  "soft_events C t tag point new_nhood locs cs nh =
     (let g = sgeom C; lt = locs ! length new_nhood
      in target_events C t tag new_nhood (node_stores (spmdk C) g (u_loc_offset g lt) point new_nhood) (u_loc_offset g lt)
         @ concat (map (\<lambda>(i, l). node_stores (spmdk C) g (u_loc_offset g l) (cs i) (nh i)) (zip new_nhood locs))
         @ publish_events (spmdk C) t lt (map (\<lambda>(i, l). (u_loc_offset g l, node_len g (nh i))) (zip new_nhood locs)))"

text \<open>The new versions: \<open>cs i\<close> and \<open>ns i\<close> were at node \<open>i\<close>, \<open>nh i\<close> are its new neighbours.\<close>

definition new_versions ::
  "soft_cfg \<Rightarrow> (nat \<Rightarrow> nat \<Rightarrow> fl) \<Rightarrow> meta_state \<Rightarrow> pmem \<Rightarrow> nat \<Rightarrow> nat list
   \<Rightarrow> (nat \<Rightarrow> nat list) \<Rightarrow> (nat \<Rightarrow> nat list) \<Rightarrow> (nat \<Rightarrow> nat list) \<Rightarrow> bool" where
  "new_versions C pq_dist m pm t new_nhood cs ns nh \<longleftrightarrow> (\<forall>i\<in>set new_nhood.
     node_at (sgeom C) (graph_bytes pm) (the (id2loc_map m i)) (cs i) (ns i)
     \<and> add_back_edge C pq_dist t (as_DiskNode i (cs i) (ns i)) = Some (Inr (nh i))
     \<and> distinct (nh i) \<and> set (nh i) \<subseteq> insert t (dom (id2loc_map m)) \<and> length (nh i) \<le> prange (sprune C))"

lemma new_versions_exist:
  assumes C: "cfg_ok C" and inv: "graph_inv C m pm" and nh: "set new_nhood \<subseteq> dom (id2loc_map m)" and t: "t \<notin> dom (id2loc_map m)"
  shows "\<exists>cs ns nh. new_versions C pq_dist m pm t new_nhood cs ns nh"
proof -
  have v: "variant_ok C" using C by (simp add: cfg_ok_def)
  define Q where "Q = (\<lambda>i v. case v of (cs, ns, k) \<Rightarrow> node_at (sgeom C) (graph_bytes pm) (the (id2loc_map m i)) cs ns
     \<and> add_back_edge C pq_dist t (as_DiskNode i cs ns) = Some (Inr k)
     \<and> distinct k \<and> set k \<subseteq> insert t (dom (id2loc_map m)) \<and> length k \<le> prange (sprune C))"
  have "\<exists>v. Q i v" if i: "i \<in> set new_nhood" for i
  proof -
    obtain l where l: "id2loc_map m i = Some l" using i nh by blast
    then obtain cs ns where n: "node_at (sgeom C) (graph_bytes pm) l cs ns" "distinct ns" "set ns \<subseteq> dom (id2loc_map m)"
      "length ns \<le> prange (sprune C)" using inv unfolding graph_inv_def by blast
    have "t \<notin> set ns" using n(3) t by blast
    then obtain k where k: "add_back_edge C pq_dist t (as_DiskNode i cs ns) = Some (Inr k)" "distinct k" "set k \<subseteq> insert t (set ns)"
      "length k \<le> prange (sprune C)"
      using add_back_edge_ok[OF v, of "as_DiskNode i cs ns" t pq_dist] n by (auto simp: as_DiskNode_def)
    have "set k \<subseteq> insert t (dom (id2loc_map m))" using k(3) n(3) by blast
    then have "Q i (cs, ns, k)" using n(1) l k by (simp add: Q_def)
    then show ?thesis by blast
  qed
  then obtain f where f: "\<And>i. i \<in> set new_nhood \<Longrightarrow> Q i (f i)" using bchoice[of "set new_nhood" Q] by blast
  have "Q i (fst (f i), fst (snd (f i)), snd (snd (f i)))" if "i \<in> set new_nhood" for i using f[OF that] by simp
  then have "new_versions C pq_dist m pm t new_nhood (\<lambda>i. fst (f i)) (\<lambda>i. fst (snd (f i))) (\<lambda>i. snd (snd (f i)))"
    by (simp add: new_versions_def Q_def case_prod_beta)
  then show ?thesis by blast
qed

lemma node_bytes_fit:
  assumes "cfg_ok C" "length cs = coords_len (sgeom C)" "length ns \<le> prange (sprune C)"
  shows "length (node_bytes cs ns) \<le> max_node_len (sgeom C)"
  using assms by (simp add: cfg_ok_def)

lemma node_at_length: "node_at g rd l cs ns \<Longrightarrow> length cs = coords_len g"
  by (simp add: node_at_def node_fits_def)

lemma soft_update_ok:
  assumes C: "cfg_ok C" and inv: "map_inv (sgeom C) m"
    and ver: "new_versions C pq_dist m pm t new_nhood cs ns nh"
    and dom: "distinct new_nhood" "set new_nhood \<subseteq> dom (id2loc_map m)" "t \<notin> dom (id2loc_map m)" "t < kAllocatedID"
    and pt: "length point = coords_len (sgeom C)" "length new_nhood \<le> prange (sprune C)"
    and ls: "length locs = Suc (length new_nhood)" "distinct locs" "\<forall>l\<in>set locs. slots (sgeom C) (alloc m) l = kAllocatedID"
  shows "\<exists>m2. soft_update C pq_dist m pm point tag t new_nhood locs = Some (Inr (m2, soft_events C t tag point new_nhood locs cs nh))
    \<and> publish (sgeom C) (m\<lparr>tags := (tags m)(t \<mapsto> tag)\<rparr>) t new_nhood locs = Inr m2
    \<and> map_inv (sgeom C) m2 \<and> id2loc_map m2 = id2loc_map m ++ map_of (zip (new_nhood @ [t]) locs)
    \<and> tags m2 t = Some tag
    \<and> cq_items (id2loc_pm_queue m2) = cq_items (id2loc_pm_queue m) @ zip new_nhood locs"
proof -
  let ?g = "sgeom C" and ?m1 = "m\<lparr>tags := (tags m)(t \<mapsto> tag)\<rparr>" and ?L = "(the \<circ> id2loc_map m) ` set new_nhood"
  have g: "geom_paged ?g" using C by (simp add: cfg_ok_def)
  let ?old = "map (\<lambda>i. loc_sector_no ?g (the (id2loc_map m i))) new_nhood"
  have secs: "nbr_sectors ?g m new_nhood = Inr ?old" using dom(2) by (intro nbr_sectors_ok) auto
  have bi: "bufs_inv ?g pm ?L (set locs) (page_buf_map ?g pm ?old (rmw_pages ?g locs))"
    by (rule bufs_inv_start[OF g]) (auto simp: rmw_pages_def)
  have "l \<notin> ?L" if "l \<in> set locs" for l
  proof
    assume "l \<in> ?L"
    then obtain i where i: "i \<in> set new_nhood" "l = the (id2loc_map m i)" by auto
    then obtain l' where "id2loc_map m i = Some l'" using dom(2) by blast
    then have "i < kAllocatedID" "slots ?g (alloc m) l = i" using map_invD(1,2)[OF inv] i by auto
    then show False using ls(3) that by (auto simp: kAllocatedID_def)
  qed
  then have disj: "set locs \<inter> ?L = {}" by blast
  have lt: "locs ! length new_nhood \<in> set locs" using ls(1) by simp
  obtain bufs where w: "write_node (spmdk C) ?g (page_buf_map ?g pm ?old (rmw_pages ?g locs)) (locs ! length new_nhood) point new_nhood
      = Inr (bufs, node_stores (spmdk C) ?g (u_loc_offset ?g (locs ! length new_nhood)) point new_nhood, u_loc_offset ?g (locs ! length new_nhood))"
    "bufs_inv ?g pm ?L (set locs) bufs"
    using write_node_ok[OF g bi lt _ node_bytes_fit[OF C pt]] disj lt by blast
  have v: "\<exists>l. id2loc_map ?m1 i = Some l \<and> l \<in> ?L \<and> node_at ?g (graph_bytes pm) l (cs i) (ns i)"
    "add_back_edge C pq_dist t (as_DiskNode i (cs i) (ns i)) = Some (Inr (nh i))"
    "length (node_bytes (cs i) (nh i)) \<le> max_node_len ?g" if i: "i \<in> set new_nhood" for i
  proof -
    obtain l where "id2loc_map m i = Some l" using i dom(2) by blast
    moreover from this have "l \<in> ?L" using i by force
    ultimately show "\<exists>l. id2loc_map ?m1 i = Some l \<and> l \<in> ?L \<and> node_at ?g (graph_bytes pm) l (cs i) (ns i)"
      using ver i by (auto simp: new_versions_def)
    show "add_back_edge C pq_dist t (as_DiskNode i (cs i) (ns i)) = Some (Inr (nh i))"
      using ver i by (simp add: new_versions_def)
    show "length (node_bytes (cs i) (nh i)) \<le> max_node_len ?g"
      using ver i node_at_length by (intro node_bytes_fit[OF C]) (auto simp: new_versions_def)
  qed
  have u: "update_nbrs C pq_dist ?m1 t bufs new_nhood locs = Some (Inr
    (concat (map (\<lambda>(i, l). node_stores (spmdk C) ?g (u_loc_offset ?g l) (cs i) (nh i)) (zip new_nhood locs)),
     map (\<lambda>(i, l). (u_loc_offset ?g l, node_len ?g (nh i))) (zip new_nhood locs)))"
    by (rule update_nbrs_ok[OF g v w(2)]) (use ls(1) disj in auto)
  have "map_inv ?g ?m1" using inv by (simp add: map_inv_def)
  then obtain m2 where m2: "publish ?g ?m1 t new_nhood locs = Inr m2" "map_inv ?g m2"
    "id2loc_map m2 = id2loc_map m ++ map_of (zip (new_nhood @ [t]) locs)"
    "cq_items (id2loc_pm_queue m2) = cq_items (id2loc_pm_queue m) @ zip new_nhood locs"
    using publish_ok[OF g, of ?m1 new_nhood t locs] dom ls by auto
  moreover have "tags m2 t = Some tag" using publish_frame[OF m2(1)] by simp
  ultimately show ?thesis
    using secs w(1) u by (simp add: soft_update_def soft_events_def Let_def)
qed

section \<open>The graph after an insertion\<close>

text \<open>The stores of several nodes, each at its own location.\<close>

definition stores_of :: "pmdk \<Rightarrow> geom \<Rightarrow> (nat \<times> nat list \<times> nat list) list \<Rightarrow> pm_event list" where
  "stores_of L g W = concat (map (\<lambda>(l, cs, ns). node_stores L g (u_loc_offset g l) cs ns) W)"

definition fit_nodes :: "geom \<Rightarrow> (nat \<times> nat list \<times> nat list) list \<Rightarrow> bool" where
  "fit_nodes g W \<longleftrightarrow> (\<forall>(l, cs, ns)\<in>set W. length cs = coords_len g \<and> length (node_bytes cs ns) \<le> max_node_len g)"

lemma stores_of_other_file: "pmdk_ok L \<Longrightarrow> fit_nodes g W \<Longrightarrow> fst c \<noteq> Graph_f \<Longrightarrow> untouched c (stores_of L g W)"
  unfolding stores_of_def by (rule untouched_concat) (auto simp: fit_nodes_def node_stores_untouched)

lemma stores_of_other_slot:
  assumes pk: "pmdk_ok L" and "geom_ok g" "fit_nodes g W" "l \<notin> fst ` set W" "j < max_node_len g"
  shows "untouched (Graph_f, u_loc_offset g l + j) (stores_of L g W)"
  unfolding stores_of_def
proof (rule untouched_concat)
  fix xs assume "xs \<in> set (map (\<lambda>(l, cs, ns). node_stores L g (u_loc_offset g l) cs ns) W)"
  then obtain l' cs ns where w: "(l', cs, ns) \<in> set W" "xs = node_stores L g (u_loc_offset g l') cs ns" by auto
  have f: "length cs = coords_len g" "length (node_bytes cs ns) \<le> max_node_len g" "l \<noteq> l'"
    using w(1) assms(3,4) by (force simp: fit_nodes_def)+
  have "u_loc_offset g l + j \<noteq> u_loc_offset g l' + k" if "k < length (node_bytes cs ns)" for k
    using slot_disjoint[OF assms(2) f(3) assms(5), of k] f(2) that by simp
  then have "\<not> (u_loc_offset g l' \<le> u_loc_offset g l + j \<and> u_loc_offset g l + j < u_loc_offset g l' + length (node_bytes cs ns))"
    by (metis add_diff_inverse_nat less_diff_conv2 not_less add.commute)
  then show "untouched (Graph_f, u_loc_offset g l + j) xs" using w(2) f(1) by (simp add: node_stores_untouched[OF pk])
qed

lemma stores_of_stored:
  assumes pk: "pmdk_ok L" and "geom_ok g" "fit_nodes g W" "distinct (map fst W)" "(l, cs, ns) \<in> set W" "k < length (node_bytes cs ns)"
  shows "stored (pm_run (stores_of L g W) m) (Graph_f, u_loc_offset g l + k) (node_bytes cs ns ! k)"
proof -
  obtain A B where W: "W = A @ (l, cs, ns) # B" using assms(5) by (meson split_list)
  have f: "length cs = coords_len g" "length (node_bytes cs ns) \<le> max_node_len g"
    using assms(3,5) by (auto simp: fit_nodes_def)
  have "stores_of L g W = stores_of L g A @ node_stores L g (u_loc_offset g l) cs ns @ stores_of L g B"
    by (simp add: stores_of_def W)
  moreover have "untouched (Graph_f, u_loc_offset g l + k) (stores_of L g B)"
  proof (rule stores_of_other_slot[OF pk assms(2)])
    show "fit_nodes g B" using assms(3) by (simp add: fit_nodes_def W)
    show "l \<notin> fst ` set B" using assms(4) by (simp add: W)
    show "k < max_node_len g" using assms(6) f(2) by simp
  qed
  ultimately show ?thesis
    using node_stores_stored[OF pk f(1) assms(6)] run_keeps(1) by (simp add: pm_run_append)
qed

definition nbr_nodes :: "nat list \<Rightarrow> nat list \<Rightarrow> (nat \<Rightarrow> nat list) \<Rightarrow> (nat \<Rightarrow> nat list) \<Rightarrow> (nat \<times> nat list \<times> nat list) list" where
  "nbr_nodes new_nhood locs cs nh = map (\<lambda>(i, l). (l, cs i, nh i)) (zip new_nhood locs)"

lemma soft_events_stores:
  "soft_events C t tag point new_nhood locs cs nh =
     (let g = sgeom C; lt = locs ! length new_nhood
      in target_events C t tag new_nhood (stores_of (spmdk C) g [(lt, point, new_nhood)]) (u_loc_offset g lt)
         @ stores_of (spmdk C) g (nbr_nodes new_nhood locs cs nh)
         @ publish_events (spmdk C) t lt (map (\<lambda>(i, l). (u_loc_offset g l, node_len g (nh i))) (zip new_nhood locs)))"
  by (simp add: soft_events_def stores_of_def nbr_nodes_def Let_def comp_def case_prod_unfold)

lemma publish_events_graph: "pmdk_ok L \<Longrightarrow> fst c \<noteq> Loc_f \<Longrightarrow> untouched c (publish_events L t l fl)"
  unfolding publish_events_def by (auto simp: untouched_memcpy intro!: untouched_concat)

lemma target_events_graph: "pmdk_ok (spmdk C) \<Longrightarrow> fst c = Graph_f \<Longrightarrow> untouched c (target_events C t tag nh st b) \<longleftrightarrow> untouched c st"
  by (simp add: target_events_def untouched_memcpy)

lemma zip_locs:
  assumes "length locs = Suc (length new_nhood)"
  shows "zip new_nhood locs = zip new_nhood (butlast locs)" "locs = butlast locs @ [locs ! length new_nhood]"
    "length (butlast locs) = length new_nhood"
proof -
  show l: "length (butlast locs) = length new_nhood" using assms by simp
  show e: "locs = butlast locs @ [locs ! length new_nhood]"
    using assms by (metis append_butlast_last_id diff_Suc_1 last_conv_nth list.size(3) nat.distinct(1))
  show "zip new_nhood locs = zip new_nhood (butlast locs)" using zip_snoc_same[OF l[symmetric]] e by metis
qed

text \<open>The records that the phase writes do not overlap each other.\<close>

lemma nbr_nodes_ok:
  assumes C: "cfg_ok C" and ver: "new_versions C pq_dist m pm t new_nhood cs ns nh"
    and ls: "length locs = Suc (length new_nhood)" "distinct locs"
  shows "fit_nodes (sgeom C) (nbr_nodes new_nhood locs cs nh)" "distinct (map fst (nbr_nodes new_nhood locs cs nh))"
    "fst ` set (nbr_nodes new_nhood locs cs nh) = set (butlast locs)"
    "locs ! length new_nhood \<notin> set (butlast locs)"
proof -
  have z: "nbr_nodes new_nhood locs cs nh = map (\<lambda>(i, l). (l, cs i, nh i)) (zip new_nhood (butlast locs))"
    by (simp only: nbr_nodes_def zip_locs(1)[OF ls(1)])
  have "length (cs i) = coords_len (sgeom C) \<and> length (node_bytes (cs i) (nh i)) \<le> max_node_len (sgeom C)"
    if "i \<in> set new_nhood" for i
    using ver that node_at_length node_bytes_fit[OF C, of "cs i" "nh i"] by (auto simp: new_versions_def)
  then show "fit_nodes (sgeom C) (nbr_nodes new_nhood locs cs nh)"
    by (auto simp: fit_nodes_def z dest: set_zip_leftD)
  have "map fst (nbr_nodes new_nhood locs cs nh) = butlast locs"
    using zip_locs(3)[OF ls(1)] map_snd_zip[of new_nhood "butlast locs"] by (simp add: z comp_def case_prod_unfold)
  moreover have d: "distinct (butlast locs @ [locs ! length new_nhood])" using zip_locs(2)[OF ls(1)] ls(2) by metis
  ultimately show "distinct (map fst (nbr_nodes new_nhood locs cs nh))"
    "fst ` set (nbr_nodes new_nhood locs cs nh) = set (butlast locs)" by (auto simp flip: set_map)
  show "locs ! length new_nhood \<notin> set (butlast locs)" using d by simp
qed

end
