(* ===== verification/Soft_Graph.thy ===== *)
theory Soft_Graph
  imports Soft_Insert
begin

text \<open>
  What \<^verbatim>\<open>insert_phase_pm\<close> does to the graph: the new node and the new versions of its neighbours are in
  the file at the published locations, all other nodes are untouched, and the invariant of the index holds
  again.
\<close>

section \<open>The contents of the file\<close>

lemma bytes_at_stored:
  assumes "\<And>k. k < length bs \<Longrightarrow> stored pm (Graph_f, p + k) (bs ! k)"
  shows "bytes_at (graph_bytes pm) p bs"
  using assms by (simp add: bytes_at_def stored_visible)

lemma soft_events_graph:
  assumes C: "cfg_ok C" and ver: "new_versions C pq_dist m pm t new_nhood cs ns nh"
    and ls: "length locs = Suc (length new_nhood)" "distinct locs"
    and pt: "length point = coords_len (sgeom C)" "length new_nhood \<le> prange (sprune C)" and wf: "pm_wf pm"
    and pm'_def: "pm' = pm_run (soft_events C t tag point new_nhood locs cs nh) pm"
  shows "bytes_at (graph_bytes pm') (u_loc_offset (sgeom C) (locs ! length new_nhood)) (node_bytes point new_nhood)"
    and "(i, l) \<in> set (zip new_nhood locs) \<Longrightarrow> bytes_at (graph_bytes pm') (u_loc_offset (sgeom C) l) (node_bytes (cs i) (nh i))"
    and "l \<notin> set locs \<Longrightarrow> j < max_node_len (sgeom C) \<Longrightarrow>
      pm_visible pm' (Graph_f, u_loc_offset (sgeom C) l + j) = pm_visible pm (Graph_f, u_loc_offset (sgeom C) l + j)"
proof -
  let ?g = "sgeom C" and ?lt = "locs ! length new_nhood" and ?W = "nbr_nodes new_nhood locs cs nh"
  let ?fl = "map (\<lambda>(i, l). (u_loc_offset ?g l, node_len ?g (nh i))) (zip new_nhood locs)"
  have g: "geom_ok ?g" and pk: "pmdk_ok (spmdk C)" using C by (simp_all add: cfg_ok_def geom_paged_def)
  note W = nbr_nodes_ok[OF C ver ls]
  have T: "fit_nodes ?g [(?lt, point, new_nhood)]" using pt node_bytes_fit[OF C pt] by (simp add: fit_nodes_def)
  have e: "pm' = pm_run (publish_events (spmdk C) t ?lt ?fl) (pm_run (stores_of (spmdk C) ?g ?W)
      (pm_run (target_events C t tag new_nhood (stores_of (spmdk C) ?g [(?lt, point, new_nhood)]) (u_loc_offset ?g ?lt)) pm))"
    by (simp add: pm'_def soft_events_stores Let_def pm_run_append)
  show "bytes_at (graph_bytes pm') (u_loc_offset ?g ?lt) (node_bytes point new_nhood)"
  proof (rule bytes_at_stored)
    fix k assume k: "k < length (node_bytes point new_nhood)"
    let ?c = "(Graph_f, u_loc_offset ?g ?lt + k)"
    have "stored (pm_run (stores_of (spmdk C) ?g [(?lt, point, new_nhood)]) pm) ?c (node_bytes point new_nhood ! k)"
      using stores_of_stored[OF pk g T _ _ k] by simp
    then have "stored (pm_run (target_events C t tag new_nhood (stores_of (spmdk C) ?g [(?lt, point, new_nhood)]) (u_loc_offset ?g ?lt)) pm) ?c (node_bytes point new_nhood ! k)"
      unfolding target_events_def by (simp add: pm_run_append run_keeps(1) untouched_memcpy[OF pk])
    moreover have "untouched ?c (stores_of (spmdk C) ?g ?W)"
      using W k T by (intro stores_of_other_slot[OF pk g]) (auto simp: fit_nodes_def)
    ultimately show "stored pm' ?c (node_bytes point new_nhood ! k)"
      unfolding e by (simp add: run_keeps(1) publish_events_graph[OF pk])
  qed
  show "bytes_at (graph_bytes pm') (u_loc_offset ?g l) (node_bytes (cs i) (nh i))" if il: "(i, l) \<in> set (zip new_nhood locs)"
  proof (rule bytes_at_stored)
    fix k assume k: "k < length (node_bytes (cs i) (nh i))"
    have "(l, cs i, nh i) \<in> set ?W" using il by (force simp: nbr_nodes_def)
    then show "stored pm' (Graph_f, u_loc_offset ?g l + k) (node_bytes (cs i) (nh i) ! k)"
      unfolding e using stores_of_stored[OF pk g W(1,2) _ k] by (simp add: run_keeps(1) publish_events_graph[OF pk])
  qed
  show "pm_visible pm' (Graph_f, u_loc_offset ?g l + j) = pm_visible pm (Graph_f, u_loc_offset ?g l + j)"
    if l: "l \<notin> set locs" "j < max_node_len ?g"
  proof -
    have b: "?lt \<in> set locs" "set (butlast locs) \<subseteq> set locs" using ls(1) by (auto dest: in_set_butlastD)
    have "untouched (Graph_f, u_loc_offset ?g l + j) (stores_of (spmdk C) ?g ?W)"
      using W(1,3) b l by (intro stores_of_other_slot[OF pk g]) auto
    moreover have "untouched (Graph_f, u_loc_offset ?g l + j) (stores_of (spmdk C) ?g [(?lt, point, new_nhood)])"
      using T b l by (intro stores_of_other_slot[OF pk g]) auto
    ultimately have "untouched (Graph_f, u_loc_offset ?g l + j) (soft_events C t tag point new_nhood locs cs nh)"
      by (simp add: soft_events_stores Let_def target_events_graph[OF pk] publish_events_graph[OF pk])
    then show ?thesis unfolding pm'_def by (rule untouched_visible[OF wf])
  qed
qed

section \<open>The tables and the file together\<close>

lemma zip_target:
  assumes "length locs = Suc (length new_nhood)" "t \<notin> set new_nhood" "distinct new_nhood"
  shows "map_of (zip (new_nhood @ [t]) locs) i =
    (if i = t then Some (locs ! length new_nhood) else map_of (zip new_nhood locs) i)"
proof -
  have "zip (new_nhood @ [t]) locs = zip new_nhood (butlast locs) @ [(t, locs ! length new_nhood)]"
    using zip_locs(2,3)[OF assms(1)] by (metis zip_append zip_Cons_Cons zip_Nil)
  moreover have "map_of (zip new_nhood locs) t = None" using assms(2) by (rule map_of_zip_notin)
  ultimately show ?thesis using zip_locs(1)[OF assms(1)] by (auto simp: map_add_def split: option.split)
qed

lemma target_node_at:
  assumes C: "cfg_ok C" and inv: "map_inv (sgeom C) m" and ver: "new_versions C pq_dist m pm t new_nhood cs ns nh"
    and nh: "set new_nhood \<subseteq> dom (id2loc_map m)" and ls: "length locs = Suc (length new_nhood)" "distinct locs"
    and pt: "length point = coords_len (sgeom C)" "length new_nhood \<le> prange (sprune C)" and wf: "pm_wf pm"
    and pm': "pm' = pm_run (soft_events C t tag point new_nhood locs cs nh) pm"
  shows "node_at (sgeom C) (graph_bytes pm') (locs ! length new_nhood) point new_nhood"
proof -
  have "n < 2 ^ 32" if "n \<in> set new_nhood" for n using that nh map_invD(1)[OF inv] by (force simp: kAllocatedID_def)
  moreover have "length new_nhood < 2 ^ 32" using pt(2) C by (simp add: cfg_ok_def)
  ultimately show ?thesis
    using soft_events_graph(1)[OF C ver ls pt wf pm'] pt(1) node_bytes_fit[OF C pt] by (simp add: node_at_def node_fits_def)
qed

lemma nbr_node_at:
  assumes C: "cfg_ok C" and inv: "map_inv (sgeom C) m" and ver: "new_versions C pq_dist m pm t new_nhood cs ns nh"
    and t: "t < kAllocatedID" and ls: "length locs = Suc (length new_nhood)" "distinct locs"
    and pt: "length point = coords_len (sgeom C)" "length new_nhood \<le> prange (sprune C)" and wf: "pm_wf pm"
    and pm': "pm' = pm_run (soft_events C t tag point new_nhood locs cs nh) pm"
    and il: "(i, l) \<in> set (zip new_nhood locs)"
  shows "node_at (sgeom C) (graph_bytes pm') l (cs i) (nh i)"
proof -
  have v: "length (cs i) = coords_len (sgeom C)" "set (nh i) \<subseteq> insert t (dom (id2loc_map m))" "length (nh i) \<le> prange (sprune C)"
    using ver set_zip_leftD[OF il] node_at_length by (auto simp: new_versions_def)
  have "n < 2 ^ 32" if "n \<in> set (nh i)" for n
    using that v(2) t map_invD(1)[OF inv] by (force simp: kAllocatedID_def)
  moreover have "length (nh i) < 2 ^ 32" using v(3) C by (simp add: cfg_ok_def)
  ultimately show ?thesis
    using soft_events_graph(2)[OF C ver ls pt wf pm' il] v(1) node_bytes_fit[OF C v(1,3)] by (simp add: node_at_def node_fits_def)
qed

lemma graph_inv_step:
  assumes C: "cfg_ok C" and inv: "graph_inv C m pm" and m': "map_inv (sgeom C) m'"
    and ver: "new_versions C pq_dist m pm t new_nhood cs ns nh"
    and dom: "distinct new_nhood" "set new_nhood \<subseteq> dom (id2loc_map m)" "t \<notin> dom (id2loc_map m)" "t < kAllocatedID"
    and pt: "length point = coords_len (sgeom C)" "length new_nhood \<le> prange (sprune C)"
    and ls: "length locs = Suc (length new_nhood)" "distinct locs" "\<forall>l\<in>set locs. slots (sgeom C) (alloc m) l = kInvalidID"
    and map: "id2loc_map m' = id2loc_map m ++ map_of (zip (new_nhood @ [t]) locs)"
  shows "graph_inv C m' (pm_run (soft_events C t tag point new_nhood locs cs nh) pm)"
proof -
  let ?g = "sgeom C" and ?pm = "pm_run (soft_events C t tag point new_nhood locs cs nh) pm" and ?lt = "locs ! length new_nhood"
  have wf: "pm_wf pm" and mi: "map_inv ?g m" using inv by (simp_all add: graph_inv_def)
  note G = soft_events_graph[OF C ver ls(1,2) pt wf refl, where tag = tag]
  have tn: "t \<notin> set new_nhood" using dom(2,3) by auto
  have d': "dom (id2loc_map m') = insert t (dom (id2loc_map m))"
  proof -
    have "dom (map_of (zip (new_nhood @ [t]) locs)) = insert t (set new_nhood)" using ls(1) by (simp add: dom_map_of_zip)
    then show ?thesis using dom(2) by (auto simp: map)
  qed
  have "\<exists>cs ns. node_at ?g (graph_bytes ?pm) l cs ns \<and> distinct ns \<and> set ns \<subseteq> dom (id2loc_map m') \<and> length ns \<le> prange (sprune C)"
    if il: "id2loc_map m' i = Some l" for i l
  proof -
    consider (tgt) "i = t" "l = ?lt" | (nbr) "i \<in> set new_nhood" "(i, l) \<in> set (zip new_nhood locs)"
      | (old) "id2loc_map m i = Some l"
    proof (cases "map_of (zip (new_nhood @ [t]) locs) i")
      case None
      then show ?thesis using il that(3) by (simp add: map map_add_def)
    next
      case (Some x)
      then have "x = l" using il by (simp add: map)
      then show ?thesis using Some that(1,2) zip_target[OF ls(1) tn dom(1), of i]
        by (cases "i = t") (auto dest: map_of_SomeD set_zip_leftD)
    qed
    then show ?thesis
    proof cases
      case tgt
      have "node_at ?g (graph_bytes ?pm) l point new_nhood"
        unfolding tgt(2) by (rule target_node_at[OF C mi ver dom(2) ls(1,2) pt wf refl])
      then show ?thesis using dom(1,2) pt(2) d' by blast
    next
      case nbr
      have v: "distinct (nh i)" "set (nh i) \<subseteq> insert t (dom (id2loc_map m))" "length (nh i) \<le> prange (sprune C)"
        using ver nbr(1) by (auto simp: new_versions_def)
      have "node_at ?g (graph_bytes ?pm) l (cs i) (nh i)"
        by (rule nbr_node_at[OF C mi ver dom(4) ls(1,2) pt wf refl nbr(2)])
      then show ?thesis using v d' by blast
    next
      case old
      obtain cs ns where n: "node_at ?g (graph_bytes pm) l cs ns" "distinct ns" "set ns \<subseteq> dom (id2loc_map m)" "length ns \<le> prange (sprune C)"
        using inv old unfolding graph_inv_def by blast
      have "l \<notin> set locs" using map_invD(1,2)[OF mi old] ls(3) by (auto simp: kInvalidID_def kAllocatedID_def)
      then have "node_at ?g (graph_bytes ?pm) l cs ns" using n(1) G(3) by (simp add: node_at_def bytes_at_def)
      then show ?thesis using n d' by blast
    qed
  qed
  then show ?thesis using m' pm_wf_run[OF wf] by (simp add: graph_inv_def)
qed

section \<open>The insert phase\<close>

text \<open>What a caller of the phase guarantees; the locks it needs are free.\<close>

definition insert_ready :: "soft_cfg \<Rightarrow> pm_index \<Rightarrow> nat list \<Rightarrow> nat \<Rightarrow> nat list \<Rightarrow> nat list \<Rightarrow> bool" where
  "insert_ready C st point t new_nhood page_ref \<longleftrightarrow>
     distinct new_nhood \<and> set new_nhood \<subseteq> dom (id2loc_map (meta st)) \<and> t \<notin> dom (id2loc_map (meta st)) \<and> t < kAllocatedID
     \<and> length point = coords_len (sgeom C) \<and> length new_nhood \<le> prange (sprune C) \<and> length new_nhood < MAX_N_EDGES
     \<and> cur_loc (alloc (meta st)) + (length new_nhood + 1) + nnodes_per_sector (sgeom C) \<le> kInvalidID
     \<and> (\<forall>p\<in>set page_ref. p < 2 ^ 32)
     \<and> (\<forall>k\<in>set (t # new_nhood). vec_locks st k = None) \<and> (\<forall>p. page_locks st p = None)"

lemma lock_unlock_vec:
  assumes "distinct (t # nh)" "\<forall>k\<in>set (t # nh). tab k = None" "t \<noteq> kInvalidID"
  shows "\<exists>vl. lock_vec env tab t nh False = Some vl \<and> unlock_vec vl t (nh @ [t]) = Inr tab"
proof -
  let ?ks = "lock_vec_keys t nh"
  have ks: "distinct ?ks" "\<forall>k\<in>set ?ks. tab k = None" "mset ?ks = mset (t # nh)"
    using assms by (auto simp: lock_vec_keys_def)
  have u: "unlock_seq (locked tab ?ks) (t # nh) = Inr tab" using ks by (intro unlock_seq_locked) auto
  have "unlock tab t = Inr tab" using assms(2) by (simp add: unlock_def)
  moreover have "unlock_vec (locked tab ?ks) t (nh @ [t]) = unlock_seq (locked tab ?ks) ((t # nh) @ [t])"
    using assms(3) by (simp add: unlock_vec_def)
  ultimately have "unlock_vec (locked tab ?ks) t (nh @ [t]) = Inr tab"
    unfolding unlock_seq_append u by simp
  then show ?thesis using lock_seq_distinct[OF ks(1,2), of env 0] by (simp add: lock_vec_def)
qed

lemma lock_unlock_reqs:
  assumes "\<forall>p. tab p = None"
  shows "\<exists>pl. lockReqs env tab reqs = Some (lockReqs_keys reqs, pl) \<and> unlockReqs pl (lockReqs_keys reqs) = Inr tab"
proof -
  have d: "distinct (lockReqs_keys reqs)"
    unfolding lockReqs_keys_def by (rule sorted_remdups_adj_distinct) simp
  have "unlock_seq (locked tab (lockReqs_keys reqs)) (lockReqs_keys reqs) = Inr tab"
    using d assms by (intro unlock_seq_locked) auto
  then show ?thesis using lock_seq_distinct[OF d, of tab env 0] assms by (simp add: lockReqs_def unlockReqs_def Let_def)
qed

lemma insert_phase_pm_run:
  assumes C: "cfg_ok C" and inv: "graph_inv C (meta st) (mem st)" and rdy: "insert_ready C st point t new_nhood page_ref"
  shows "\<exists>st' locs cs ns nh. insert_phase_pm C env pq_dist sample st point tag t new_nhood page_ref pq
        = Some (Inr (st', soft_events C t tag point new_nhood locs cs nh))
    \<and> mem st' = pm_run (soft_events C t tag point new_nhood locs cs nh) (mem st)
    \<and> new_versions C pq_dist (meta st) (mem st) t new_nhood cs ns nh
    \<and> length locs = Suc (length new_nhood) \<and> distinct locs
    \<and> (\<forall>l\<in>set locs. slots (sgeom C) (alloc (meta st)) l = kInvalidID \<and> l < kInvalidID)
    \<and> (\<exists>need a. alloc_loc (sgeom C) (salloc C) (alloc (meta st)) (length new_nhood + 1) page_ref {} = Inr (locs, need, a)
         \<and> publish (sgeom C) ((meta st)\<lparr>alloc := a, tags := (tags (meta st))(t \<mapsto> tag)\<rparr>) t new_nhood locs = Inr (meta st'))
    \<and> map_inv (sgeom C) (meta st') \<and> id2loc_map (meta st') = id2loc_map (meta st) ++ map_of (zip (new_nhood @ [t]) locs)
    \<and> tags (meta st') t = Some tag
    \<and> cq_items (id2loc_pm_queue (meta st')) = cq_items (id2loc_pm_queue (meta st)) @ zip new_nhood locs
    \<and> vec_locks st' = vec_locks st \<and> page_locks st' = page_locks st
    \<and> graph_size st' = graph_extent (sgeom C) (graph_size st) locs
    \<and> commit_tasks st' = cq_push (commit_tasks st) (Some \<lparr>ct_pq_coords = pq, ct_target_id = t, ct_terminate = False,
         ct_point = if sample then Some point else None\<rparr>)
    \<and> cur_loc (alloc (meta st')) < cur_loc (alloc (meta st)) + (length new_nhood + 1) + nnodes_per_sector (sgeom C)
    \<and> cur_id (meta st') = cur_id (meta st)"
proof -
  let ?g = "sgeom C" and ?m = "meta st" and ?n = "length new_nhood"
  have g: "geom_paged ?g" using C by (simp add: cfg_ok_def)
  have mi: "map_inv ?g ?m" and ai: "alloc_inv ?g (alloc ?m)" using inv by (simp_all add: graph_inv_def map_inv_def)
  have d: "distinct new_nhood" "set new_nhood \<subseteq> dom (id2loc_map ?m)" "t \<notin> dom (id2loc_map ?m)" "t < kAllocatedID"
    and pt: "length point = coords_len ?g" "?n \<le> prange (sprune C)" "?n < MAX_N_EDGES"
    and sp: "cur_loc (alloc ?m) + (?n + 1) + nnodes_per_sector ?g \<le> kInvalidID" "\<forall>p\<in>set page_ref. p < 2 ^ 32"
    and lk: "\<forall>k\<in>set (t # new_nhood). vec_locks st k = None" "\<forall>p. page_locks st p = None"
    using rdy unfolding insert_ready_def by blast+
  obtain locs need a where al: "alloc_loc ?g (salloc C) (alloc ?m) (?n + 1) page_ref {} = Inr (locs, need, a)" "length locs = ?n + 1"
    "claims ?g (alloc ?m) a locs" "alloc_inv ?g a" "cur_loc a < cur_loc (alloc ?m) + (?n + 1) + nnodes_per_sector ?g"
    using alloc_loc_claims[OF g ai _ sp, of "salloc C" "{}"] by auto
  have cl: "distinct locs" "\<forall>l\<in>set locs. slots ?g (alloc ?m) l = kInvalidID" "\<forall>l\<in>set locs. slots ?g a l = kAllocatedID"
    using al(3) by (simp_all add: claims_def)
  have small: "l < kInvalidID" if "l \<in> set locs" for l
  proof -
    have "l < cur_loc a" using slots_live_bound[OF al(4), of l] cl(3) that sentinels_distinct by auto
    then show ?thesis using al(4) by (simp add: alloc_inv_def)
  qed
  obtain cs ns nh where ver: "new_versions C pq_dist ?m (mem st) t new_nhood cs ns nh"
    using new_versions_exist[OF C inv d(2,3)] by blast
  have "new_versions C pq_dist (?m\<lparr>alloc := a\<rparr>) (mem st) t new_nhood cs ns nh" using ver by (simp add: new_versions_def)
  then obtain m2 where su: "soft_update C pq_dist (?m\<lparr>alloc := a\<rparr>) (mem st) point tag t new_nhood locs
      = Some (Inr (m2, soft_events C t tag point new_nhood locs cs nh))"
    "map_inv ?g m2" "id2loc_map m2 = id2loc_map ?m ++ map_of (zip (new_nhood @ [t]) locs)" "tags m2 t = Some tag"
    "publish ?g (?m\<lparr>alloc := a, tags := (tags ?m)(t \<mapsto> tag)\<rparr>) t new_nhood locs = Inr m2"
    "cq_items (id2loc_pm_queue m2) = cq_items (id2loc_pm_queue ?m) @ zip new_nhood locs"
    using soft_update_ok[OF C map_inv_alloc[OF mi al(3,4)], of pq_dist "mem st" t new_nhood cs ns nh point locs tag] d pt al(2) cl by auto
  have "distinct (t # new_nhood)" "t \<noteq> kInvalidID" using d by (auto simp: kInvalidID_def kAllocatedID_def)
  from lock_unlock_vec[OF this(1) lk(1) this(2), of env] obtain vl where vl:
    "lock_vec env (vec_locks st) t new_nhood False = Some vl" "unlock_vec vl t (new_nhood @ [t]) = Inr (vec_locks st)" by blast
  let ?reqs = "map (\<lambda>p. (p * SECTOR_LEN, size_per_io ?g)) (rmw_pages ?g locs)"
  obtain pl where pl: "lockReqs env (page_locks st) ?reqs = Some (lockReqs_keys ?reqs, pl)" "unlockReqs pl (lockReqs_keys ?reqs) = Inr (page_locks st)"
    using lock_unlock_reqs[OF lk(2)] by blast
  have "insert_phase_pm C env pq_dist sample st point tag t new_nhood page_ref pq = Some (Inr
     (st\<lparr>meta := m2, mem := pm_run (soft_events C t tag point new_nhood locs cs nh) (mem st),
         graph_size := graph_extent ?g (graph_size st) locs, vec_locks := vec_locks st, page_locks := page_locks st,
         commit_tasks := cq_push (commit_tasks st) (Some \<lparr>ct_pq_coords = pq, ct_target_id = t, ct_terminate = False,
           ct_point = if sample then Some point else None\<rparr>)\<rparr>, soft_events C t tag point new_nhood locs cs nh))"
    using al(1) pl vl su(1) pt(3) by (simp add: insert_phase_pm_def Let_def)
  moreover note publish_keeps[OF su(5)]
  moreover have "\<exists>need a. alloc_loc ?g (salloc C) (alloc ?m) (?n + 1) page_ref {} = Inr (locs, need, a)
      \<and> publish ?g (?m\<lparr>alloc := a, tags := (tags ?m)(t \<mapsto> tag)\<rparr>) t new_nhood locs = Inr m2"
    using al(1) su(5) by blast
  ultimately show ?thesis
    by - (rule exI, rule exI, rule exI, rule exI, rule exI, intro conjI, assumption, use al(2,5) su ver cl small in simp_all)
qed

lemma foldl_max: "l \<in> set ls \<or> l \<le> m \<Longrightarrow> l \<le> foldl (\<lambda>m l. if l > m then l else m) m (ls :: nat list)"
proof (induction ls arbitrary: m)
  case (Cons a ls)
  have "l \<in> set ls \<or> l \<le> (if a > m then a else m)" using Cons.prems by auto
  from Cons.IH[OF this] show ?case by simp
qed simp

lemma graph_extent_covers:
  assumes "geom_paged g" "l \<in> set locs"
  shows "u_loc_offset g l + max_node_len g \<le> graph_extent g fsize locs"
proof -
  let ?m = "foldl (\<lambda>m l. if l > m then l else m) 0 locs"
  have "loc_sector_no g l \<le> loc_sector_no g ?m" using foldl_max[of l locs 0] assms(2) by (intro loc_sector_no_mono) simp
  then have "(loc_sector_no g l + 1) * SECTOR_LEN \<le> (loc_sector_no g ?m + 1) * SECTOR_LEN" by (intro mult_le_mono1) simp
  moreover have "u_loc_offset g l + max_node_len g \<le> (loc_sector_no g l + 1) * SECTOR_LEN"
    using u_loc_offset_sector[of g l] assms(1) by (simp add: geom_paged_def)
  moreover have "(loc_sector_no g ?m + 1) * SECTOR_LEN \<le> graph_extent g fsize locs" by (simp add: graph_extent_def Let_def)
  ultimately show ?thesis by (meson order_trans)
qed

lemma insert_nbr_loc:
  assumes "length locs = Suc (length new_nhood)" "t \<notin> set new_nhood" "distinct new_nhood" "i \<in> set new_nhood"
  shows "\<exists>l. map_of (zip (new_nhood @ [t]) locs) i = Some l \<and> (i, l) \<in> set (zip new_nhood locs)"
proof -
  have "\<exists>l. map_of (zip new_nhood (butlast locs)) i = Some l"
    using assms(4) zip_locs(3)[OF assms(1)] by (intro map_of_zip_Some) simp_all
  then obtain l where l: "map_of (zip new_nhood locs) i = Some l" using zip_locs(1)[OF assms(1)] by auto
  have "i \<noteq> t" using assms(2,4) by auto
  then have "map_of (zip (new_nhood @ [t]) locs) i = Some l" using l zip_target[OF assms(1-3), of i] by simp
  then show ?thesis using map_of_SomeD[OF l] by blast
qed

lemma insert_phase_pm_ok:
  assumes "cfg_ok C" "graph_inv C (meta st) (mem st)" "insert_ready C st point t new_nhood page_ref"
  shows "\<exists>st' evs. insert_phase_pm C env pq_dist sample st point tag t new_nhood page_ref pq = Some (Inr (st', evs))
    \<and> graph_inv C (meta st') (mem st')
    \<and> dom (id2loc_map (meta st')) = insert t (dom (id2loc_map (meta st)))
    \<and> (\<exists>l. id2loc_map (meta st') t = Some l \<and> node_at (sgeom C) (graph_bytes (mem st')) l point new_nhood)
    \<and> (\<forall>i\<in>set new_nhood. \<exists>l cs ns l' nh. id2loc_map (meta st) i = Some l \<and> node_at (sgeom C) (graph_bytes (mem st)) l cs ns
         \<and> add_back_edge C pq_dist t (as_DiskNode i cs ns) = Some (Inr nh)
         \<and> id2loc_map (meta st') i = Some l' \<and> node_at (sgeom C) (graph_bytes (mem st')) l' cs nh)
    \<and> (\<forall>i l. i \<notin> set new_nhood \<longrightarrow> id2loc_map (meta st) i = Some l \<longrightarrow> id2loc_map (meta st') i = Some l
         \<and> (\<forall>j < max_node_len (sgeom C). graph_bytes (mem st') (u_loc_offset (sgeom C) l + j) = graph_bytes (mem st) (u_loc_offset (sgeom C) l + j)))
    \<and> tags (meta st') t = Some tag \<and> vec_locks st' = vec_locks st \<and> page_locks st' = page_locks st
    \<and> (\<forall>i\<in>set (t # new_nhood). u_loc_offset (sgeom C) (the (id2loc_map (meta st') i)) + max_node_len (sgeom C) \<le> graph_size st')"
proof -
  let ?g = "sgeom C" and ?m = "meta st"
  obtain st' locs cs ns nh where run: "insert_phase_pm C env pq_dist sample st point tag t new_nhood page_ref pq
        = Some (Inr (st', soft_events C t tag point new_nhood locs cs nh))"
    and mem: "mem st' = pm_run (soft_events C t tag point new_nhood locs cs nh) (mem st)"
    and ver: "new_versions C pq_dist ?m (mem st) t new_nhood cs ns nh"
    and ls: "length locs = Suc (length new_nhood)" "distinct locs" "\<forall>l\<in>set locs. slots ?g (alloc ?m) l = kInvalidID \<and> l < kInvalidID"
    and m': "map_inv ?g (meta st')" "id2loc_map (meta st') = id2loc_map ?m ++ map_of (zip (new_nhood @ [t]) locs)"
    "tags (meta st') t = Some tag" "vec_locks st' = vec_locks st" "page_locks st' = page_locks st"
    "graph_size st' = graph_extent ?g (graph_size st) locs"
    using insert_phase_pm_run[OF assms, of env pq_dist sample tag pq] by blast
  have d: "distinct new_nhood" "set new_nhood \<subseteq> dom (id2loc_map ?m)" "t \<notin> dom (id2loc_map ?m)" "t < kAllocatedID"
    and pt: "length point = coords_len ?g" "length new_nhood \<le> prange (sprune C)"
    using assms(3) unfolding insert_ready_def by blast+
  have g: "geom_paged ?g" using assms(1) by (simp add: cfg_ok_def)
  have tn: "t \<notin> set new_nhood" using d by auto
  have wf: "pm_wf (mem st)" and mi: "map_inv ?g ?m" using assms(2) by (simp_all add: graph_inv_def)
  have ls': "\<forall>l\<in>set locs. slots ?g (alloc ?m) l = kInvalidID" using ls(3) by blast
  have inv: "graph_inv C (meta st') (mem st')"
    unfolding mem by (rule graph_inv_step[OF assms(1,2) m'(1) ver d pt ls(1,2) ls' m'(2)])
  note G = soft_events_graph[OF assms(1) ver ls(1,2) pt wf mem]
  note Z = zip_target[OF ls(1) tn d(1)] insert_nbr_loc[OF ls(1) tn d(1)]
  have lt: "id2loc_map (meta st') t = Some (locs ! length new_nhood)" using Z(1)[of t] by (simp add: m'(2))
  have dom: "dom (id2loc_map (meta st')) = insert t (dom (id2loc_map ?m))"
  proof -
    have "dom (map_of (zip (new_nhood @ [t]) locs)) = insert t (set new_nhood)" using ls(1) by (simp add: dom_map_of_zip)
    then show ?thesis using d(2) by (auto simp: m'(2))
  qed
  have tgt: "node_at ?g (graph_bytes (mem st')) (locs ! length new_nhood) point new_nhood"
    by (rule target_node_at[OF assms(1) mi ver d(2) ls(1,2) pt wf mem])
  have nbr: "\<exists>l cs ns l' nh. id2loc_map ?m i = Some l \<and> node_at ?g (graph_bytes (mem st)) l cs ns
         \<and> add_back_edge C pq_dist t (as_DiskNode i cs ns) = Some (Inr nh)
         \<and> id2loc_map (meta st') i = Some l' \<and> node_at ?g (graph_bytes (mem st')) l' cs nh"
    if i: "i \<in> set new_nhood" for i
  proof -
    obtain l where l: "id2loc_map ?m i = Some l" using i d(2) by blast
    have v: "node_at ?g (graph_bytes (mem st)) l (cs i) (ns i)" "add_back_edge C pq_dist t (as_DiskNode i (cs i) (ns i)) = Some (Inr (nh i))"
      using ver i l by (auto simp: new_versions_def)
    obtain l' where l': "id2loc_map (meta st') i = Some l'" "(i, l') \<in> set (zip new_nhood locs)"
      using Z(2)[OF i] by (auto simp: m'(2))
    have "node_at ?g (graph_bytes (mem st')) l' (cs i) (nh i)"
      by (rule nbr_node_at[OF assms(1) mi ver d(4) ls(1,2) pt wf mem l'(2)])
    then show ?thesis using l v l' by blast
  qed
  have rest: "id2loc_map (meta st') i = Some l
         \<and> (\<forall>j < max_node_len ?g. graph_bytes (mem st') (u_loc_offset ?g l + j) = graph_bytes (mem st) (u_loc_offset ?g l + j))"
    if i: "i \<notin> set new_nhood" and l: "id2loc_map ?m i = Some l" for i l
  proof -
    have "l \<notin> set locs" using map_invD(1,2)[OF mi l] ls' by (auto simp: kInvalidID_def kAllocatedID_def)
    moreover have "i \<noteq> t" using l d(3) by auto
    then have "map_of (zip (new_nhood @ [t]) locs) i = None" using Z(1)[of i] i map_of_zip_notin[of i new_nhood locs] by simp
    ultimately show ?thesis using G(3) l by (simp add: m'(2) map_add_def)
  qed
  have size: "u_loc_offset ?g (the (id2loc_map (meta st') i)) + max_node_len ?g \<le> graph_size st'" if "i \<in> set (t # new_nhood)" for i
  proof -
    have "\<exists>l. id2loc_map (meta st') i = Some l \<and> l \<in> set locs"
    proof (cases "i = t")
      case False
      then have "i \<in> set new_nhood" using that by simp
      from Z(2)[OF this] show ?thesis by (auto simp: m'(2) dest: set_zip_rightD)
    qed (use lt ls(1) in simp)
    then show ?thesis using graph_extent_covers[OF g] by (auto simp: m'(6))
  qed
  show ?thesis
    by (intro exI conjI, rule run) (use inv dom lt tgt nbr rest m'(3-5) size in blast)+
qed

text \<open>
  C1. On an index whose invariant holds, \<^verbatim>\<open>insert_phase_pm\<close> ends without a fault. Afterwards the invariant
  holds again, the new node is found with its coordinates and neighbours, each of its neighbours is found at
  a new location with its old coordinates and its old neighbours extended by the new node (pruned to
  \<^verbatim>\<open>range\<close>), every other node is where it was with the same bytes, the tag is set, both lock tables are as
  before, and the records lie inside the mapped file.
\<close>

theorem insert_phase_pm_correct:
  assumes "cfg_ok C" "graph_inv C (meta st) (mem st)" "insert_ready C st point t new_nhood page_ref"
  shows "\<exists>st' evs. insert_phase_pm C env pq_dist sample st point tag t new_nhood page_ref pq = Some (Inr (st', evs))
    \<and> graph_inv C (meta st') (mem st')
    \<and> dom (id2loc_map (meta st')) = insert t (dom (id2loc_map (meta st)))
    \<and> (\<exists>l. id2loc_map (meta st') t = Some l \<and> node_at (sgeom C) (graph_bytes (mem st')) l point new_nhood)
    \<and> (\<forall>i\<in>set new_nhood. \<exists>l cs ns l' nh. id2loc_map (meta st) i = Some l \<and> node_at (sgeom C) (graph_bytes (mem st)) l cs ns
         \<and> add_back_edge C pq_dist t (as_DiskNode i cs ns) = Some (Inr nh)
         \<and> id2loc_map (meta st') i = Some l' \<and> node_at (sgeom C) (graph_bytes (mem st')) l' cs nh)
    \<and> (\<forall>i l. i \<notin> set new_nhood \<longrightarrow> id2loc_map (meta st) i = Some l \<longrightarrow> id2loc_map (meta st') i = Some l
         \<and> (\<forall>j < max_node_len (sgeom C). graph_bytes (mem st') (u_loc_offset (sgeom C) l + j) = graph_bytes (mem st) (u_loc_offset (sgeom C) l + j)))
    \<and> tags (meta st') t = Some tag \<and> vec_locks st' = vec_locks st \<and> page_locks st' = page_locks st
    \<and> (\<forall>i\<in>set (t # new_nhood). u_loc_offset (sgeom C) (the (id2loc_map (meta st') i)) + max_node_len (sgeom C) \<le> graph_size st')"
  by (rule insert_phase_pm_ok[OF assms])

text \<open>The example file with five isolated nodes at the origin, and a configuration for it.\<close>

definition ex_cfg :: soft_cfg where
  "ex_cfg = \<lparr>spmdk = ex_pmdk, sgeom = ex_geom, salloc = default_config,
     sprune = \<lparr>alpha = Fin (6 / 5), prange = 16, maxc = 10, medoid0 = 0\<rparr>, svariant = BATCH_PRUNING, enable_tags = True\<rparr>"

definition ex_index :: pm_index where
  "ex_index = \<lparr>meta = ex_meta, mem = (\<lambda>_. ([], [0])), graph_size = 12288, vec_locks = Map.empty, page_locks = Map.empty,
     commit_tasks = cq_new None, insert_thread_count = 0\<rparr>"

lemma ex_cfg_ok: "cfg_ok ex_cfg"
proof -
  have "\<exists>a. Fin (6 / 5) = Fin a \<and> 1 \<le> a \<and> a < 2 ^ 128" by (intro exI[of _ "6 / 5"]) simp
  then have "variant_ok ex_cfg" by (simp only: variant_ok_def ex_cfg_def soft_cfg.simps prune_params.simps) (simp add: PRUNE_BATCH_SIZE_def)
  moreover have "coords_len ex_geom + 4 + 4 * 16 \<le> max_node_len ex_geom" by (simp add: coords_len_def ex_geom_def)
  ultimately show ?thesis using ex_geom_paged ex_pmdk_ok by (simp add: cfg_ok_def ex_cfg_def)
qed

lemma ex_graph_inv: "graph_inv ex_cfg (meta ex_index) (mem ex_index)"
proof -
  have "node_bytes (replicate 100 0) [] = replicate 104 0"
    by (simp add: node_bytes_def u32_bytes_def flip: replicate_Suc replicate_add) (simp add: eval_nat_numeral)
  then have "node_at ex_geom (\<lambda>_. 0) l (replicate 100 0) []" for l
    by (simp add: node_at_def node_fits_def coords_len_def ex_geom_def bytes_at_def)
  then show ?thesis using ex_map_inv
    by (force simp: graph_inv_def ex_cfg_def ex_index_def pm_wf_def pm_visible_def)
qed

lemma ex_ready: "insert_ready ex_cfg ex_index (replicate 100 1) 5 [0, 4] [2]"
  by (simp add: insert_ready_def ex_cfg_def ex_index_def ex_meta_def coords_len_def ex_geom_def ex_alloc_def
      kAllocatedID_def kInvalidID_def MAX_N_EDGES_def)

theorem insert_phase_pm_correct_witness:
  "\<exists>st' evs. insert_phase_pm ex_cfg (\<lambda>_ _ t. t) (\<lambda>_ _. Fin 1) False ex_index (replicate 100 1) 77 5 [0, 4] [2] [] = Some (Inr (st', evs))
     \<and> graph_inv ex_cfg (meta st') (mem st') \<and> tags (meta st') 5 = Some 77"
  using insert_phase_pm_correct[OF ex_cfg_ok ex_graph_inv ex_ready, of "\<lambda>_ _ t. t" "\<lambda>_ _. Fin 1" False 77 "[]"] by blast

end
