(* ===== verification/Soft_Crash.thy ===== *)
theory Soft_Crash
  imports Soft_Graph
begin

text \<open>
  Crash consistency of \<^verbatim>\<open>insert_phase_pm\<close>: a crash is placed after any prefix of the persistent-memory events
  of the phase, and the contents of the files after it are any crash image of the memory at that point. The
  first ordering (vector and tag before the location of the vector) and the second one (neighbours before
  their locations) hold as far as \<^verbatim>\<open>flush_dax\<close> reaches the end of the record; the length it is given
  leaves out the neighbour count, and a start that is not aligned to a cache line loses the last line.
\<close>

text \<open>The write-back of \<open>len\<close> bytes from \<open>buf\<close> covers the lines of \<open>bytes\<close> bytes.\<close>

definition flush_reaches :: "nat \<Rightarrow> nat \<Rightarrow> nat \<Rightarrow> bool" where
  "flush_reaches buf bytes len \<longleftrightarrow> (buf + bytes - 1) div 64 < buf div 64 + ROUND_UP len 64 div 64"

lemma flush_reaches_line:
  assumes "flush_reaches buf bytes len" "k < bytes"
  shows "PFlush Graph_f (line_of (Graph_f, buf + k)) \<in> set (flush_dax Graph_f buf len)"
proof -
  have "buf div 64 \<le> (buf + k) div 64" "(buf + k) div 64 \<le> (buf + bytes - 1) div 64"
    using assms(2) by (intro div_le_mono; simp)+
  then show ?thesis using assms(1) by (simp add: flush_dax_lines line_of_def flush_reaches_def)
qed

section \<open>The first ordering\<close>

lemma target_durable:
  assumes pk: "pmdk_ok (spmdk C)" and "length point = coords_len (sgeom C)" "k < length (node_bytes point nh)"
    and "flush_reaches buf (length (node_bytes point nh)) (node_len (sgeom C) nh)"
  shows "durable (pm_run (target_events C t tag nh (node_stores (spmdk C) (sgeom C) buf point nh) buf) m) (Graph_f, buf + k) (node_bytes point nh ! k)"
proof -
  let ?c = "(Graph_f, buf + k)"
  have "flushed (pm_run (flush_dax Graph_f buf (node_len (sgeom C) nh)) (pm_run (node_stores (spmdk C) (sgeom C) buf point nh) m)) ?c (node_bytes point nh ! k)"
    using flush_reaches_line[OF assms(4,3)] node_stores_stored[OF pk assms(2,3)] by (intro run_flushes) auto
  moreover define tail where "tail = (if enable_tags C then pmem_memcpy_persist (spmdk C) Tag_f t [tag] else []) @ barrier_dax"
  have "untouched ?c tail" "PFence \<in> set tail" by (auto simp: tail_def barrier_dax_def untouched_memcpy[OF pk])
  ultimately have "durable (pm_run tail (pm_run (flush_dax Graph_f buf (node_len (sgeom C) nh)) (pm_run (node_stores (spmdk C) (sgeom C) buf point nh) m))) ?c (node_bytes point nh ! k)"
    by (intro run_fences)
  moreover have "target_events C t tag nh (node_stores (spmdk C) (sgeom C) buf point nh) buf
      = node_stores (spmdk C) (sgeom C) buf point nh @ flush_dax Graph_f buf (node_len (sgeom C) nh) @ tail"
    by (simp add: target_events_def tail_def)
  ultimately show ?thesis by (simp add: pm_run_append)
qed

lemma tag_durable:
  assumes "pmdk_ok (spmdk C)" "enable_tags C"
  shows "durable (pm_run (target_events C t tag nh st buf) m) (Tag_f, t) tag"
proof -
  have "durable (pm_run (pmem_memcpy_persist (spmdk C) Tag_f t [tag]) m') (Tag_f, t) tag" for m'
    using memcpy_persist_durable[OF assms(1), of 0 "[tag]" Tag_f t m'] by simp
  then show ?thesis using assms unfolding target_events_def by (simp add: pm_run_append run_keeps(3))
qed

lemma loc_untouched:
  assumes pk: "pmdk_ok (spmdk C)" and "fit_nodes (sgeom C) [(lt, point, new_nhood)]"
  shows "untouched (Loc_f, i) (target_events C t tag new_nhood (stores_of (spmdk C) (sgeom C) [(lt, point, new_nhood)]) buf)"
  using stores_of_other_file[OF assms, of "(Loc_f, i)"] by (simp add: target_events_def untouched_memcpy[OF pk])

lemma publish_loc:
  assumes "pmdk_ok L" "i \<noteq> t"
  shows "untouched (Loc_f, i) (publish_events L t l fl)"
  unfolding publish_events_def using assms by (auto simp: untouched_memcpy intro!: untouched_concat)

text \<open>The values that the location entry of the target can have after a crash.\<close>

lemma crash_loc_values:
  assumes "pmdk_ok L" "durable m (Loc_f, t) 0" "crash_image (pm_run (take n (publish_events L t l fl)) m) img"
  shows "img (Loc_f, t) = 0 \<or> img (Loc_f, t) = u32 l"
proof (rule crash_values[OF assms(2) _ assms(3)])
  fix w assume "PStore (fst (Loc_f, t)) (snd (Loc_f, t)) w \<in> set (take n (publish_events L t l fl))"
  then have w: "PStore Loc_f t w \<in> set (publish_events L t l fl)" by (auto dest: in_set_takeD)
  obtain a b where e: "pmem_memcpy L Loc_f t [u32 l] PMEM_TRANSFER = a @ b" "copies Loc_f t [u32 l] a" "writes_back Loc_f t 1 b"
    using pmdk_nodrain[OF assms(1), of Loc_f t "[u32 l]"] by auto
  from w have "PStore Loc_f t w \<in> set a" using e(3)
    by (auto simp: publish_events_def e(1) writes_back_def flush_dax_def barrier_dax_def)
  then have "w = [u32 l] ! (t - t)" using e(2) unfolding copies_def by blast
  then show "w = u32 l" by simp
qed

text \<open>
  After every prefix of the events: the entry of the target is unset, or the target's record and tag are
  complete; the live records and the other entries are as before.
\<close>

lemma soft_events_crash:
  assumes C: "cfg_ok C" and ver: "new_versions C pq_dist m pm t new_nhood cs ns nh"
    and ls: "length locs = Suc (length new_nhood)" "distinct locs"
    and pt: "length point = coords_len (sgeom C)" "length new_nhood \<le> prange (sprune C)"
    and lt: "lt = locs ! length new_nhood" "lt < kInvalidID"
    and d0: "durable pm (Loc_f, t) 0"
    and fr: "flush_reaches (u_loc_offset (sgeom C) lt) (length (node_bytes point new_nhood)) (node_len (sgeom C) new_nhood)"
    and img: "crash_image (pm_run (take n (soft_events C t tag point new_nhood locs cs nh)) pm) img"
  shows "img (Loc_f, t) = 0 \<or> (img (Loc_f, t) = lt
      \<and> bytes_at (\<lambda>j. img (Graph_f, j)) (u_loc_offset (sgeom C) lt) (node_bytes point new_nhood)
      \<and> (enable_tags C \<longrightarrow> img (Tag_f, t) = tag))"
proof -
  let ?g = "sgeom C" and ?W = "nbr_nodes new_nhood locs cs nh"
  let ?A = "target_events C t tag new_nhood (stores_of (spmdk C) ?g [(lt, point, new_nhood)]) (u_loc_offset ?g lt)"
  let ?P = "publish_events (spmdk C) t lt (map (\<lambda>(i, l). (u_loc_offset ?g l, node_len ?g (nh i))) (zip new_nhood locs))"
  have g: "geom_ok ?g" and pk: "pmdk_ok (spmdk C)" using C by (simp_all add: cfg_ok_def geom_paged_def)
  note W = nbr_nodes_ok[OF C ver ls]
  have T: "fit_nodes ?g [(lt, point, new_nhood)]" using pt node_bytes_fit[OF C pt] by (simp add: fit_nodes_def)
  have ev: "soft_events C t tag point new_nhood locs cs nh = ?A @ stores_of (spmdk C) ?g ?W @ ?P"
    by (simp add: soft_events_stores Let_def lt(1))
  have u: "u32 lt = lt" using lt(2) by (intro u32_small) (simp add: kInvalidID_def)
  have A: "untouched (Loc_f, t) ?A" by (rule loc_untouched[OF pk T])
  have B: "untouched (Loc_f, t) (stores_of (spmdk C) ?g ?W)" by (rule stores_of_other_file[OF pk W(1)]) simp
  show ?thesis
  proof (cases rule: take_append_cases[of n ?A "stores_of (spmdk C) ?g ?W @ ?P"])
    case 1
    have "crash_image (pm_run (take n ?A) pm) img" using img unfolding ev 1 .
    from durable_crash[OF run_keeps(3)[OF untouched_take[OF A] d0] this] show ?thesis by blast
  next
    case (2 k)
    let ?m1 = "pm_run ?A pm"
    have img1: "crash_image (pm_run (take k (stores_of (spmdk C) ?g ?W @ ?P)) ?m1) img" using img unfolding ev 2 pm_run_append .
    have loc: "img (Loc_f, t) = 0 \<or> img (Loc_f, t) = lt"
    proof (cases rule: take_append_cases[of k "stores_of (spmdk C) ?g ?W" ?P])
      case 1
      have "crash_image (pm_run (take k (stores_of (spmdk C) ?g ?W)) ?m1) img" using img1 unfolding 1 .
      from durable_crash[OF run_keeps(3)[OF untouched_take[OF B] run_keeps(3)[OF A d0]] this] show ?thesis by blast
    next
      case (2 j)
      have "durable (pm_run (stores_of (spmdk C) ?g ?W) ?m1) (Loc_f, t) 0" by (rule run_keeps(3)[OF B run_keeps(3)[OF A d0]])
      from crash_loc_values[OF pk this, of j lt] show ?thesis using img1 unfolding 2 pm_run_append u by blast
    qed
    have "img (Graph_f, u_loc_offset ?g lt + j) = node_bytes point new_nhood ! j" if j: "j < length (node_bytes point new_nhood)" for j
    proof -
      let ?c = "(Graph_f, u_loc_offset ?g lt + j)"
      have "durable ?m1 ?c (node_bytes point new_nhood ! j)"
        using target_durable[OF pk pt(1) j fr] by (simp add: stores_of_def)
      moreover have "untouched ?c (stores_of (spmdk C) ?g ?W)"
        using W j T lt(1) by (intro stores_of_other_slot[OF pk g]) (auto simp: fit_nodes_def)
      then have "untouched ?c (take k (stores_of (spmdk C) ?g ?W @ ?P))"
        by (intro untouched_take) (simp add: publish_events_graph[OF pk])
      ultimately show ?thesis using durable_crash[OF run_keeps(3) img1] by blast
    qed
    moreover have "img (Tag_f, t) = tag" if "enable_tags C"
    proof -
      have "untouched (Tag_f, t) (take k (stores_of (spmdk C) ?g ?W @ ?P))"
        using stores_of_other_file[OF pk W(1), of "(Tag_f, t)"] by (intro untouched_take) (simp add: publish_events_graph[OF pk])
      then show ?thesis using durable_crash[OF run_keeps(3)[OF _ tag_durable[OF pk that]] img1] by blast
    qed
    ultimately show ?thesis using loc by (auto simp: bytes_at_def)
  qed
qed

lemma soft_events_target_durable:
  assumes C: "cfg_ok C" and ver: "new_versions C pq_dist m pm t new_nhood cs ns nh"
    and ls: "length locs = Suc (length new_nhood)" "distinct locs" and lt: "lt = locs ! length new_nhood"
    and pt: "length point = coords_len (sgeom C)" "length new_nhood \<le> prange (sprune C)"
    and fr: "flush_reaches (u_loc_offset (sgeom C) lt) (length (node_bytes point new_nhood)) (node_len (sgeom C) new_nhood)"
    and j: "j < length (node_bytes point new_nhood)"
  shows "durable (pm_run (soft_events C t tag point new_nhood locs cs nh) pm) (Graph_f, u_loc_offset (sgeom C) lt + j) (node_bytes point new_nhood ! j)"
proof -
  let ?g = "sgeom C" and ?W = "nbr_nodes new_nhood locs cs nh" and ?c = "(Graph_f, u_loc_offset (sgeom C) lt + j)"
  have g: "geom_ok ?g" and pk: "pmdk_ok (spmdk C)" using C by (simp_all add: cfg_ok_def geom_paged_def)
  note W = nbr_nodes_ok[OF C ver ls]
  have T: "fit_nodes ?g [(lt, point, new_nhood)]" using pt node_bytes_fit[OF C pt] by (simp add: fit_nodes_def)
  have "untouched ?c (stores_of (spmdk C) ?g ?W)"
    using W j T lt by (intro stores_of_other_slot[OF pk g]) (auto simp: fit_nodes_def)
  then show ?thesis using target_durable[OF pk pt(1) j fr]
    by (simp add: soft_events_stores Let_def lt[symmetric] pm_run_append stores_of_def run_keeps(3) publish_events_graph[OF pk])
qed

lemma soft_events_frame:
  assumes C: "cfg_ok C" and ver: "new_versions C pq_dist m pm t new_nhood cs ns nh"
    and ls: "length locs = Suc (length new_nhood)" "distinct locs"
    and pt: "length point = coords_len (sgeom C)" "length new_nhood \<le> prange (sprune C)"
  shows "l \<notin> set locs \<Longrightarrow> j < max_node_len (sgeom C) \<Longrightarrow>
      untouched (Graph_f, u_loc_offset (sgeom C) l + j) (soft_events C t tag point new_nhood locs cs nh)"
    and "i \<noteq> t \<Longrightarrow> untouched (Loc_f, i) (soft_events C t tag point new_nhood locs cs nh)"
proof -
  let ?g = "sgeom C" and ?lt = "locs ! length new_nhood" and ?W = "nbr_nodes new_nhood locs cs nh"
  have g: "geom_ok ?g" and pk: "pmdk_ok (spmdk C)" using C by (simp_all add: cfg_ok_def geom_paged_def)
  note W = nbr_nodes_ok[OF C ver ls]
  have T: "fit_nodes ?g [(?lt, point, new_nhood)]" using pt node_bytes_fit[OF C pt] by (simp add: fit_nodes_def)
  show "untouched (Graph_f, u_loc_offset ?g l + j) (soft_events C t tag point new_nhood locs cs nh)"
    if l: "l \<notin> set locs" "j < max_node_len ?g"
  proof -
    have b: "?lt \<in> set locs" "set (butlast locs) \<subseteq> set locs" using ls(1) by (auto dest: in_set_butlastD)
    have "untouched (Graph_f, u_loc_offset ?g l + j) (stores_of (spmdk C) ?g ?W)"
      using W(1,3) b l by (intro stores_of_other_slot[OF pk g]) auto
    moreover have "untouched (Graph_f, u_loc_offset ?g l + j) (stores_of (spmdk C) ?g [(?lt, point, new_nhood)])"
      using T b l by (intro stores_of_other_slot[OF pk g]) auto
    ultimately show ?thesis by (simp add: soft_events_stores Let_def target_events_graph[OF pk] publish_events_graph[OF pk])
  qed
  show "untouched (Loc_f, i) (soft_events C t tag point new_nhood locs cs nh)" if "i \<noteq> t"
    using loc_untouched[OF pk T] publish_loc[OF pk that] stores_of_other_file[OF pk W(1), of "(Loc_f, i)"]
    by (simp add: soft_events_stores Let_def)
qed


lemma ex_aligned: "\<exists>q. u_loc_offset ex_geom l = 64 * q"
proof -
  have "u_loc_offset ex_geom l = 64 * (loc_sector_no ex_geom l * 64 + l mod 4 * 16)"
    by (simp add: u_loc_offset_def ex_geom_def SECTOR_LEN_def Let_def)
  then show ?thesis by blast
qed

lemma ex_flush: "flush_reaches (u_loc_offset ex_geom l) 112 108"
proof -
  obtain q where q: "u_loc_offset ex_geom l = 64 * q" using ex_aligned by blast
  have "(64 * q + 111) div 64 = q + 1" by simp
  then show ?thesis by (simp add: q flush_reaches_def ROUND_UP_def round_up'_def)
qed

lemma ex_cfg_sel: "sgeom ex_cfg = ex_geom" "enable_tags ex_cfg = True"
  by (simp_all add: ex_cfg_def)


section \<open>The second ordering\<close>

lemma publish_flushes:
  assumes pk: "pmdk_ok L" and "(buf, len) \<in> set fl" "flush_reaches buf bytes len" "k < bytes" "stored m (Graph_f, buf + k) v"
  shows "durable (pm_run (publish_events L t l fl) m) (Graph_f, buf + k) v"
proof -
  let ?c = "(Graph_f, buf + k)"
  define pre where "pre = pmem_memcpy L Loc_f t [u32 l] PMEM_TRANSFER @ concat (map (\<lambda>(buf, len). flush_dax Graph_f buf len) fl)"
  have "PFlush Graph_f (line_of ?c) \<in> set pre"
    using flush_reaches_line[OF assms(3,4)] assms(2) by (force simp: pre_def)
  moreover have "untouched ?c pre" by (auto simp: pre_def untouched_memcpy[OF pk] intro!: untouched_concat)
  ultimately have "flushed (pm_run pre m) ?c v" using assms(5) by (intro run_flushes) auto
  then have "durable (pm_run barrier_dax (pm_run pre m)) ?c v" by (intro run_fences) (auto simp: barrier_dax_def)
  moreover have "publish_events L t l fl = pre @ barrier_dax" by (simp add: publish_events_def pre_def)
  ultimately show ?thesis by (simp add: pm_run_append)
qed

lemma publish_loc_durable: "pmdk_ok L \<Longrightarrow> durable (pm_run (publish_events L t l fl) m) (Loc_f, t) (u32 l)"
proof -
  assume pk: "pmdk_ok L"
  have "flushed (pm_run (pmem_memcpy L Loc_f t [u32 l] PMEM_TRANSFER) m) (Loc_f, t) (u32 l)"
    using memcpy_nodrain_flushed[OF pk, of 0 "[u32 l]" Loc_f t m] by simp
  moreover define tail where "tail = concat (map (\<lambda>(buf, len). flush_dax Graph_f buf len) fl) @ barrier_dax"
  have "untouched (Loc_f, t) tail" "PFence \<in> set tail" by (auto simp: tail_def barrier_dax_def intro!: untouched_concat)
  ultimately have "durable (pm_run tail (pm_run (pmem_memcpy L Loc_f t [u32 l] PMEM_TRANSFER) m)) (Loc_f, t) (u32 l)" by (intro run_fences)
  then show ?thesis by (simp add: publish_events_def tail_def pm_run_append)
qed



section \<open>Two defects\<close>

lemma unflushed_keeps:
  assumes "\<forall>e\<in>set evs. e \<noteq> PFlush (fst c) (line_of c)" "snd (m c) = [v]"
  shows "snd (pm_run evs m c) = [v]"
  using assms
proof (induction evs arbitrary: m)
  case (Cons e evs)
  have "snd (pm_step e m c) = [v]" using Cons.prems by (cases e) auto
  then show ?case using Cons by simp
qed simp

lemma crash_image_pick:
  assumes "pm_wf m" "v \<in> set (fst (m c) @ snd (m c))"
  shows "crash_image m ((pm_visible m)(c := v))"
proof -
  have "pm_visible m d \<in> set (fst (m d) @ snd (m d))" for d
    using assms(1) unfolding pm_visible_def pm_wf_def by (intro hd_in_set) (cases d; simp)
  then show ?thesis using assms(2) by (auto simp: crash_image_def)
qed

text \<open>
  C40. When the write-back does not reach the last byte of the new record, a crash after the first barrier can
  leave the location entry of the new node set and the end of its record as it was before the insertion.
\<close>

theorem torn_record_after_crash:
  assumes pk: "pmdk_ok (spmdk C)" and "length point = coords_len (sgeom C)" "pm_wf m"
    and "\<not> flush_reaches buf (length (node_bytes point nh)) (node_len (sgeom C) nh)"
    and "durable m (Graph_f, buf + length (node_bytes point nh) - 1) old"
  shows "\<exists>img. crash_image (pm_run (target_events C t tag nh (node_stores (spmdk C) (sgeom C) buf point nh) buf @ pmem_memcpy (spmdk C) Loc_f t [u32 lt] PMEM_TRANSFER) m) img
    \<and> img (Loc_f, t) = u32 lt \<and> img (Graph_f, buf + length (node_bytes point nh) - 1) = old"
proof -
  let ?c = "(Graph_f, buf + length (node_bytes point nh) - 1)"
  let ?evs = "target_events C t tag nh (node_stores (spmdk C) (sgeom C) buf point nh) buf @ pmem_memcpy (spmdk C) Loc_f t [u32 lt] PMEM_TRANSFER"
  have "\<forall>e\<in>set ?evs. e \<noteq> PFlush (fst ?c) (line_of ?c)"
    using assms(4) flush_dax_lines[of Graph_f "line_of ?c" buf "node_len (sgeom C) nh"]
    by (auto simp: target_events_def node_stores_def pmdk_flushes(1)[OF pk] pm_stores_def
        barrier_dax_def flush_reaches_def line_of_def split: if_splits dest: pmdk_flushes(2,3)[OF pk])
  then have "snd (pm_run ?evs m ?c) = [old]" using assms(5) by (intro unflushed_keeps) (simp_all add: durable_def)
  then have img: "crash_image (pm_run ?evs m) ((pm_visible (pm_run ?evs m))(?c := old))"
    using pm_wf_run[OF assms(3)] by (intro crash_image_pick) auto
  have "flushed (pm_run ?evs m) (Loc_f, t) (u32 lt)"
    using memcpy_nodrain_flushed[OF pk, of 0 "[u32 lt]" Loc_f t] by (simp add: pm_run_append)
  then have "pm_visible (pm_run ?evs m) (Loc_f, t) = u32 lt" by (intro stored_visible flushed_stored)
  then show ?thesis using img by (intro exI[of _ "(pm_visible (pm_run ?evs m))(?c := old)"]) simp
qed

text \<open>128 coordinates of type \<^verbatim>\<open>float\<close> and 64 neighbours: 772 bytes, of which 768 are flushed.\<close>

theorem torn_record_after_crash_witness:
  "\<exists>img. crash_image (pm_run (target_events (ex_cfg\<lparr>sgeom := \<lparr>data_dim = 128, elem_size = 4, max_node_len = 772, nnodes_per_sector = 5\<rparr>\<rparr>) 9 7 [0..<64]
        (node_stores ex_pmdk \<lparr>data_dim = 128, elem_size = 4, max_node_len = 772, nnodes_per_sector = 5\<rparr> 4096 (replicate 512 1) [0..<64]) 4096
      @ pmem_memcpy ex_pmdk Loc_f 9 [u32 3] PMEM_TRANSFER) (\<lambda>_. ([], [255]))) img \<and> img (Loc_f, 9) = u32 3 \<and> img (Graph_f, 4096 + 771) = 255"
  using torn_record_after_crash[of "ex_cfg\<lparr>sgeom := \<lparr>data_dim = 128, elem_size = 4, max_node_len = 772, nnodes_per_sector = 5\<rparr>\<rparr>"
    "replicate 512 1" "\<lambda>_. ([], [255])" 4096 "[0..<64]" 255 9 7 3] ex_pmdk_ok
  by (simp add: ex_cfg_def coords_len_def pm_wf_def durable_def flush_reaches_def node_len_def ROUND_UP_def round_up'_def)

text \<open>
  C39. The location a neighbour leaves is free as soon as \<^verbatim>\<open>insert_phase_pm\<close> has switched the maps in memory,
  while the persistent location table still names it until the commit thread has written the queued entry. An
  insertion that takes the free location in between writes its own record there: after a crash the persistent
  table leads from the neighbour's id to the record of the other node.
\<close>

theorem freed_location_reused_before_switch:
  assumes "cfg_ok C" "graph_inv C (meta st) (mem st)" "insert_ready C st point t new_nhood page_ref"
    and "insert_phase_pm C env pq_dist sample st point tag t new_nhood page_ref pq = Some (Inr (st1, evs1))"
    and "i \<in> set new_nhood" "id2loc_map (meta st) i = Some l" "durable (mem st) (Loc_f, i) l"
    and "insert_ready C st1 point2 t2 new_nhood2 page_ref2"
    and "insert_phase_pm C env pq_dist sample st1 point2 tag2 t2 new_nhood2 page_ref2 pq2 = Some (Inr (st2, evs2))"
    and "id2loc_map (meta st2) t2 = Some l"
    and "flush_reaches (u_loc_offset (sgeom C) l) (length (node_bytes point2 new_nhood2)) (node_len (sgeom C) new_nhood2)"
  shows "\<forall>img. crash_image (mem st2) img \<longrightarrow> img (Loc_f, i) = l
    \<and> bytes_at (\<lambda>j. img (Graph_f, j)) (u_loc_offset (sgeom C) l) (node_bytes point2 new_nhood2)
    \<and> id2loc_map (meta st2) i \<noteq> Some l"
proof -
  let ?g = "sgeom C"
  obtain locs cs ns nh where e1: "mem st1 = pm_run (soft_events C t tag point new_nhood locs cs nh) (mem st)"
    and ver: "new_versions C pq_dist (meta st) (mem st) t new_nhood cs ns nh"
    and ls: "length locs = Suc (length new_nhood)" "distinct locs"
    and m1: "id2loc_map (meta st1) = id2loc_map (meta st) ++ map_of (zip (new_nhood @ [t]) locs)"
    using insert_phase_pm_run[OF assms(1-3), of env pq_dist sample tag pq] assms(4) by auto
  have inv1: "graph_inv C (meta st1) (mem st1)"
    using insert_phase_pm_ok[OF assms(1-3), of env pq_dist sample tag pq] assms(4) by auto
  obtain locs2 cs2 ns2 nh2 where e2: "mem st2 = pm_run (soft_events C t2 tag2 point2 new_nhood2 locs2 cs2 nh2) (mem st1)"
    and ver2: "new_versions C pq_dist (meta st1) (mem st1) t2 new_nhood2 cs2 ns2 nh2"
    and ls2: "length locs2 = Suc (length new_nhood2)" "distinct locs2" and mi2: "map_inv ?g (meta st2)"
    and m2: "id2loc_map (meta st2) = id2loc_map (meta st1) ++ map_of (zip (new_nhood2 @ [t2]) locs2)"
    using insert_phase_pm_run[OF assms(1) inv1 assms(8), of env pq_dist sample tag2 pq2] assms(9) by auto
  have r: "length point = coords_len ?g" "length new_nhood \<le> prange (sprune C)" "t \<notin> set new_nhood"
    "length point2 = coords_len ?g" "length new_nhood2 \<le> prange (sprune C)" "t2 \<notin> set new_nhood2" "distinct new_nhood2"
    "t2 \<notin> dom (id2loc_map (meta st1))"
    using assms(3,8) unfolding insert_ready_def by blast+
  have i: "i \<noteq> t" "i \<noteq> t2" using assms(5,6) r(3,8) by (auto simp: m1)
  have lt: "l = locs2 ! length new_nhood2"
    using zip_target[OF ls2(1) r(6,7), of t2] assms(10) by (simp add: m2)
  have "durable (mem st2) (Loc_f, i) l"
    unfolding e2 e1 by (intro run_keeps(3)[OF soft_events_frame(2)[OF assms(1) ver2 ls2 r(4,5) i(2)]]
      run_keeps(3)[OF soft_events_frame(2)[OF assms(1) ver ls r(1,2) i(1)]] assms(7))
  moreover have "durable (mem st2) (Graph_f, u_loc_offset ?g l + j) (node_bytes point2 new_nhood2 ! j)"
    if "j < length (node_bytes point2 new_nhood2)" for j
    unfolding e2 by (rule soft_events_target_durable[OF assms(1) ver2 ls2 lt r(4,5) assms(11) that])
  moreover have "id2loc_map (meta st2) i \<noteq> Some l"
    using map_invD(2)[OF mi2, of i l] map_invD(2)[OF mi2, of t2 l] assms(10) i(2) by auto
  ultimately show ?thesis unfolding bytes_at_def using durable_crash by blast
qed

text \<open>
  Node 4 lives in location 6. The first insertion moves it to location 4, the second one takes location 6.
\<close>

definition ex_index2 :: pm_index where
  "ex_index2 = ex_index\<lparr>mem := (\<lambda>c. if c = (Loc_f, 4) then ([], [6]) else ([], [0]))\<rparr>"

lemma ex_index2_inv: "graph_inv ex_cfg (meta ex_index2) (mem ex_index2)"
proof -
  have "graph_bytes (mem ex_index2) = graph_bytes (mem ex_index)"
    by (simp add: ex_index2_def ex_index_def pm_visible_def fun_eq_iff)
  moreover have "pm_wf (mem ex_index2)" by (simp add: pm_wf_def ex_index2_def)
  ultimately show ?thesis using ex_graph_inv by (simp add: graph_inv_def) (simp add: ex_index2_def)
qed

lemma ex_ready2: "insert_ready ex_cfg ex_index2 (replicate 100 1) 5 [4] [2]"
  by (simp add: insert_ready_def ex_cfg_def ex_index_def ex_index2_def ex_meta_def coords_len_def ex_geom_def ex_alloc_def
      kAllocatedID_def kInvalidID_def MAX_N_EDGES_def)

definition ex_alloc3 :: alloc_state where
  "ex_alloc3 = ex_alloc\<lparr>page_layout := (page_layout ex_alloc)(2 \<mapsto> [4, 5, kInvalidID, kInvalidID] @ replicate 12 0)\<rparr>"

lemma ex_publish:
  "\<exists>m. publish ex_geom (ex_meta\<lparr>alloc := ex_alloc2, tags := T\<rparr>) 5 [4] [4, 5] = Inr m \<and> alloc m = ex_alloc3"
  by (simp add: publish_def Let_def id2loc_def find_fn_def insert_or_assign_def id2loc_insert_or_assign_def u32_def
      erase_and_set_loc_def set_loc2id_def erase_loc2id_def upsert_ctx_def uprase_fn_def upsert_one_def loc_sector_no_def
      page_is_empty_def upt_4 kInvalidID_def kAllocatedID_def numeral_2_eq_2[symmetric]
      ex_meta_def ex_alloc3_def ex_alloc2_def ex_alloc_def ex_geom_def)

lemma ex_alloc3_run: "\<exists>a. alloc_loc ex_geom default_config ex_alloc3 1 [2] {} = Inr ([6], {2}, a)"
  by (simp add: alloc_loc_def alloc_rule1.simps cq_pop_def ex_alloc3_def ex_alloc_def ex_geom_def
      default_config_def cq_new_def u32_def count_holes_def alloc_threshold_def kIndexSizeFactor_def
      sector_to_loc_def update_fn_def kInvalidID_def kAllocatedID_def Let_def upt_4)

lemma ex_run2:
  "\<exists>st1 evs1. insert_phase_pm ex_cfg (\<lambda>_ _ t. t) (\<lambda>_ _. Fin 1) False ex_index2 (replicate 100 1) 77 5 [4] [2] [] = Some (Inr (st1, evs1))
    \<and> alloc (meta st1) = ex_alloc3 \<and> graph_inv ex_cfg (meta st1) (mem st1)
    \<and> insert_ready ex_cfg st1 (replicate 100 2) 6 [] [2]"
proof -
  have sel: "sgeom ex_cfg = ex_geom" "salloc ex_cfg = default_config" "meta ex_index2 = ex_meta" "alloc ex_meta = ex_alloc"
    "vec_locks ex_index2 = Map.empty" "page_locks ex_index2 = Map.empty" "length [4 :: nat] + 1 = 2"
    by (simp_all add: ex_index2_def ex_index_def ex_cfg_def ex_meta_def)
  obtain st1 locs cs nh need a where r: "insert_phase_pm ex_cfg (\<lambda>_ _ t. t) (\<lambda>_ _. Fin 1) False ex_index2 (replicate 100 1) 77 5 [4] [2] []
      = Some (Inr (st1, soft_events ex_cfg 5 77 (replicate 100 1) [4] locs cs nh))"
    and al: "alloc_loc ex_geom default_config ex_alloc 2 [2] {} = Inr (locs, need, a)"
    and pb: "publish ex_geom (ex_meta\<lparr>alloc := a, tags := (tags ex_meta)(5 \<mapsto> 77)\<rparr>) 5 [4] locs = Inr (meta st1)"
    and m1: "id2loc_map (meta st1) = id2loc_map ex_meta ++ map_of (zip ([4] @ [5]) locs)"
    and lk: "vec_locks st1 = Map.empty" "page_locks st1 = Map.empty"
    using insert_phase_pm_run[OF ex_cfg_ok ex_index2_inv ex_ready2, of "\<lambda>_ _ t. t" "\<lambda>_ _. Fin 1" False 77 "[]"]
    unfolding sel by blast
  have a: "alloc (meta st1) = ex_alloc3" using pb ex_publish[of "(tags ex_meta)(5 \<mapsto> 77)"] al ex_alloc_run by auto
  have "locs = [4, 5]" using al ex_alloc_run by simp
  then have "dom (id2loc_map (meta st1)) = {0, 1, 2, 3, 4, 5}" by (auto simp: m1 ex_meta_def)
  then have "insert_ready ex_cfg st1 (replicate 100 2) 6 [] [2]"
    by (simp add: insert_ready_def a ex_alloc3_def ex_alloc_def ex_cfg_def coords_len_def ex_geom_def lk kAllocatedID_def kInvalidID_def MAX_N_EDGES_def)
  moreover have "graph_inv ex_cfg (meta st1) (mem st1)"
    using insert_phase_pm_ok[OF ex_cfg_ok ex_index2_inv ex_ready2, of "\<lambda>_ _ t. t" "\<lambda>_ _. Fin 1" False 77 "[]"] r by auto
  ultimately show ?thesis using r a by blast
qed

theorem freed_location_reused_before_switch_witness:
  "\<exists>st1 evs1 st2 evs2. insert_phase_pm ex_cfg (\<lambda>_ _ t. t) (\<lambda>_ _. Fin 1) False ex_index2 (replicate 100 1) 77 5 [4] [2] [] = Some (Inr (st1, evs1))
    \<and> insert_phase_pm ex_cfg (\<lambda>_ _ t. t) (\<lambda>_ _. Fin 1) False st1 (replicate 100 2) 78 6 [] [2] [] = Some (Inr (st2, evs2))
    \<and> (\<forall>img. crash_image (mem st2) img \<longrightarrow> img (Loc_f, 4) = 6
         \<and> bytes_at (\<lambda>j. img (Graph_f, j)) (u_loc_offset ex_geom 6) (node_bytes (replicate 100 2) []))"
proof -
  obtain st1 evs1 where r1: "insert_phase_pm ex_cfg (\<lambda>_ _ t. t) (\<lambda>_ _. Fin 1) False ex_index2 (replicate 100 1) 77 5 [4] [2] [] = Some (Inr (st1, evs1))"
    and a1: "alloc (meta st1) = ex_alloc3" and i1: "graph_inv ex_cfg (meta st1) (mem st1)"
    and rd: "insert_ready ex_cfg st1 (replicate 100 2) 6 [] [2]" using ex_run2 by blast
  obtain st2 evs2 locs need a where r2: "insert_phase_pm ex_cfg (\<lambda>_ _ t. t) (\<lambda>_ _. Fin 1) False st1 (replicate 100 2) 78 6 [] [2] [] = Some (Inr (st2, evs2))"
    and al: "alloc_loc ex_geom default_config ex_alloc3 1 [2] {} = Inr (locs, need, a)"
    and m2: "id2loc_map (meta st2) = id2loc_map (meta st1) ++ map_of (zip ([] @ [6]) locs)"
    using insert_phase_pm_run[OF ex_cfg_ok i1 rd, of "\<lambda>_ _ t. t" "\<lambda>_ _. Fin 1" False 78 "[]"] by (auto simp: ex_cfg_def a1)
  have "locs = [6]" using al ex_alloc3_run by auto
  then have l: "id2loc_map (meta st2) 6 = Some 6" by (simp add: m2)
  have o: "4 \<in> set [4 :: nat]" "id2loc_map (meta ex_index2) 4 = Some 6" "durable (mem ex_index2) (Loc_f, 4) 6"
    by (simp_all add: ex_index2_def ex_index_def ex_meta_def durable_def)
  obtain q where "u_loc_offset ex_geom 6 = 64 * q" using ex_aligned by blast
  then have "flush_reaches (u_loc_offset ex_geom 6) 104 100" by (simp add: flush_reaches_def ROUND_UP_def round_up'_def)
  then have f: "flush_reaches (u_loc_offset (sgeom ex_cfg) 6) (length (node_bytes (replicate 100 2) [])) (node_len (sgeom ex_cfg) [])"
    by (simp add: ex_cfg_def node_len_def) (simp add: ex_geom_def)
  from freed_location_reused_before_switch[OF ex_cfg_ok ex_index2_inv ex_ready2 r1 o rd r2 l f]
  show ?thesis unfolding ex_cfg_sel using r1 r2 by blast
qed

end
