(* ===== verification/Bin_File.thy ===== *)
theory Bin_File
  imports CCANN_Prelude
begin

text \<open>
  The \<^verbatim>\<open>.bin\<close> format of \<^verbatim>\<open>include/utils.h\<close>: two 32-bit counts, then the elements row by row. A file is the
  list of its bytes, or \<open>None\<close> when it does not exist; an element is the little-endian number that its \<open>sz\<close>
  bytes are (for a \<^verbatim>\<open>float\<close>, its bit pattern). Reading past the end leaves the variables of the code
  uninitialised, which is the fault \<open>Undefined\<close>.
\<close>

type_synonym bytes = "nat list"
type_synonym dfile = "bytes option"

section \<open>Little-endian numbers\<close>

fun le_bytes :: "nat \<Rightarrow> nat \<Rightarrow> bytes" where
  "le_bytes 0 n = []"
| "le_bytes (Suc k) n = n mod 256 # le_bytes k (n div 256)"

fun le_val :: "bytes \<Rightarrow> nat" where
  "le_val [] = 0"
| "le_val (b # bs) = b + 256 * le_val bs"

lemma length_le_bytes [simp]: "length (le_bytes k n) = k"
  by (induction k arbitrary: n) auto

lemma le_bytes_Nil [simp]: "le_bytes k n = [] \<longleftrightarrow> k = 0"
  using length_le_bytes[of k n] by (cases "le_bytes k n") auto

lemma le_val_bytes: "le_val (le_bytes k n) = n mod 256 ^ k"
proof (induction k arbitrary: n)
  case (Suc k)
  have "n mod 256 + 256 * (n div 256 mod 256 ^ k) = n mod (256 * 256 ^ k)" by (simp add: mod_mult2_eq)
  then show ?case using Suc by simp
qed simp

lemma le_val_bytes_fit [simp]: "n < 256 ^ k \<Longrightarrow> le_val (le_bytes k n) = n"
  by (simp add: le_val_bytes)

section \<open>Reading and writing at a position\<close>

text \<open>\<^verbatim>\<open>seekg\<close> and \<^verbatim>\<open>read\<close>: \<open>None\<close> is a read that fails.\<close>

definition read_at :: "dfile \<Rightarrow> nat \<Rightarrow> nat \<Rightarrow> bytes option" where
  "read_at f pos n =
     (case f of None \<Rightarrow> None | Some bs \<Rightarrow> if pos + n \<le> length bs then Some (take n (drop pos bs)) else None)"

text \<open>\<^verbatim>\<open>seekp\<close> and \<^verbatim>\<open>write\<close>: a gap behind the old end is filled with zeros.\<close>

definition write_at :: "bytes \<Rightarrow> nat \<Rightarrow> bytes \<Rightarrow> bytes" where
  "write_at bs pos ws = (if ws = [] then bs
     else take pos (bs @ replicate (pos - length bs) 0) @ ws @ drop (pos + length ws) bs)"

definition file_exists :: "dfile \<Rightarrow> bool" where
  "file_exists f \<longleftrightarrow> f \<noteq> None"

definition get_file_size :: "dfile \<Rightarrow> nat" where
  "get_file_size f = (case f of None \<Rightarrow> 0 | Some bs \<Rightarrow> length bs)"

text \<open>An existing file is opened without truncation.\<close>

definition open_file_to_write :: "dfile \<Rightarrow> bytes" where
  "open_file_to_write f = (case f of None \<Rightarrow> [] | Some bs \<Rightarrow> bs)"

definition delete_file :: "dfile \<Rightarrow> dfile" where
  "delete_file f = (if file_exists f then None else f)"

lemma write_at_split:
  assumes "ws \<noteq> []"
  obtains pre where "write_at bs pos ws = pre @ ws @ drop (pos + length ws) bs" "length pre = pos" "\<forall>i<min pos (length bs). pre ! i = bs ! i"
proof
  show "write_at bs pos ws = take pos (bs @ replicate (pos - length bs) 0) @ ws @ drop (pos + length ws) bs"
    using assms by (simp add: write_at_def)
  show "length (take pos (bs @ replicate (pos - length bs) 0)) = pos" by simp
  show "\<forall>i<min pos (length bs). take pos (bs @ replicate (pos - length bs) 0) ! i = bs ! i" by (simp add: nth_append)
qed

lemma length_write_at: "length (write_at bs pos ws) = (if ws = [] then length bs else max (length bs) (pos + length ws))"
proof (cases "ws = []")
  case False
  from write_at_split[OF this, of bs pos] obtain pre where "write_at bs pos ws = pre @ ws @ drop (pos + length ws) bs" "length pre = pos" .
  then show ?thesis using False by simp
qed (simp add: write_at_def)

lemma read_write_same:
  assumes "pos + n \<le> length ws" "ws \<noteq> []"
  shows "read_at (Some (write_at bs off ws)) (off + pos) n = Some (take n (drop pos ws))"
proof -
  from write_at_split[OF assms(2), of bs off] obtain pre where p: "write_at bs off ws = pre @ ws @ drop (off + length ws) bs" "length pre = off" .
  have "take n (drop (off + pos) (write_at bs off ws)) = take n (drop pos ws)" unfolding p(1) using assms(1) p(2) by simp
  then show ?thesis using assms by (simp add: read_at_def length_write_at)
qed

lemma write_at_nth:
  assumes "i < length bs" "i < off \<or> off + length ws \<le> i"
  shows "write_at bs off ws ! i = bs ! i"
proof (cases "ws = []")
  case False
  from write_at_split[OF this, of bs off] obtain pre where p: "write_at bs off ws = pre @ ws @ drop (off + length ws) bs"
    "length pre = off" "\<forall>i<min off (length bs). pre ! i = bs ! i" .
  show ?thesis
  proof (cases "i < off")
    case True
    then show ?thesis using p assms(1) by (simp add: nth_append)
  next
    case F: False
    then obtain k where k: "i = off + length ws + k" using assms(2) le_Suc_ex by auto
    have "write_at bs off ws ! i = drop (off + length ws) bs ! k"
      unfolding p(1) k using p(2) by (simp add: nth_append)
    then show ?thesis using assms(1) by (simp add: k)
  qed
qed (simp add: write_at_def)

lemma read_write_other:
  assumes "read_at (Some bs) pos n = Some xs" "pos + n \<le> off \<or> off + length ws \<le> pos"
  shows "read_at (Some (write_at bs off ws)) pos n = Some xs"
proof -
  have b: "pos + n \<le> length bs" "xs = take n (drop pos bs)" using assms(1) by (auto simp: read_at_def split: if_splits)
  have l: "pos + n \<le> length (write_at bs off ws)" using b(1) by (simp add: length_write_at le_max_iff_disj)
  have "take n (drop pos (write_at bs off ws)) = take n (drop pos bs)"
  proof (rule nth_equalityI)
    show "length (take n (drop pos (write_at bs off ws))) = length (take n (drop pos bs))" using b(1) l by simp
    fix i assume "i < length (take n (drop pos (write_at bs off ws)))"
    then have i: "i < n" by simp
    have "write_at bs off ws ! (pos + i) = bs ! (pos + i)" using i b(1) assms(2) by (intro write_at_nth) auto
    then show "take n (drop pos (write_at bs off ws)) ! i = take n (drop pos bs) ! i" using i b(1) l by simp
  qed
  then show ?thesis using b l by (simp add: read_at_def)
qed

lemma read_write_Some:
  "read_at f pos n = Some xs \<Longrightarrow> pos + n \<le> off \<or> off + length ws \<le> pos \<Longrightarrow>
   read_at (Some (write_at (open_file_to_write f) off ws)) pos n = Some xs"
  using read_write_other by (cases f) (auto simp: open_file_to_write_def read_at_def)

section \<open>Element arrays\<close>

definition elems :: "nat \<Rightarrow> nat \<Rightarrow> bytes \<Rightarrow> nat list" where
  "elems sz k bs = map (\<lambda>i. le_val (take sz (drop (i * sz) bs))) [0..<k]"

definition elem_bytes :: "nat \<Rightarrow> nat list \<Rightarrow> bytes" where
  "elem_bytes sz xs = concat (map (le_bytes sz) xs)"

lemma length_elem_bytes [simp]: "length (elem_bytes sz xs) = length xs * sz"
  by (induction xs) (simp_all add: elem_bytes_def)

lemma length_elems [simp]: "length (elems sz k bs) = k"
  by (simp add: elems_def)

lemma elem_bytes_append: "elem_bytes sz (xs @ ys) = elem_bytes sz xs @ elem_bytes sz ys"
  by (simp add: elem_bytes_def)

lemma take_drop_elem_bytes:
  assumes "i < length xs"
  shows "take sz (drop (i * sz) (elem_bytes sz xs)) = le_bytes sz (xs ! i)"
proof -
  have "xs = take i xs @ xs ! i # drop (Suc i) xs" using assms by (simp add: id_take_nth_drop)
  then have "elem_bytes sz xs = elem_bytes sz (take i xs) @ le_bytes sz (xs ! i) @ elem_bytes sz (drop (Suc i) xs)"
    by (metis elem_bytes_append elem_bytes_def concat.simps(2) list.simps(9))
  moreover have "length (elem_bytes sz (take i xs)) = i * sz" using assms by simp
  ultimately show ?thesis by (simp del: length_elem_bytes)
qed

lemma elems_elem_bytes: "\<forall>x\<in>set xs. x < 256 ^ sz \<Longrightarrow> elems sz (length xs) (elem_bytes sz xs) = xs"
  by (intro nth_equalityI) (simp_all add: elems_def take_drop_elem_bytes)

section \<open>The operations\<close>

definition METADATA_SIZE :: nat where
  "METADATA_SIZE = 4096"

text \<open>The counts are read as \<^verbatim>\<open>int\<close> and widened to \<^verbatim>\<open>size_t\<close>: a count with the top bit set becomes huge.\<close>

definition sext :: "nat \<Rightarrow> nat" where
  "sext n = (if n < 2 ^ 31 then n else 2 ^ 64 - 2 ^ 32 + n)"

definition get_bin_metadata :: "dfile \<Rightarrow> nat \<Rightarrow> (nat \<times> nat) outcome" where
  "get_bin_metadata f off =
     (case read_at f off 8 of
        None \<Rightarrow> Inl Undefined
      | Some h \<Rightarrow> Inr (sext (le_val (take 4 h)), sext (le_val (drop 4 h))))"

definition bin_header :: "dfile \<Rightarrow> nat \<Rightarrow> (nat \<times> nat) outcome" where
  "bin_header f off =
     (case read_at f off 8 of
        None \<Rightarrow> Inl Undefined
      | Some h \<Rightarrow> Inr (le_val (take 4 h), le_val (drop 4 h)))"

text \<open>Into a new array, whose elements stay indeterminate when the data is cut off.\<close>

definition load_bin :: "nat \<Rightarrow> dfile \<Rightarrow> nat \<Rightarrow> (nat list \<times> nat \<times> nat) outcome" where
  "load_bin sz f off =
     and_then (bin_header f off) (\<lambda>(npts, dim).
       case read_at f (off + 8) (npts * dim * sz) of
         None \<Rightarrow> Inl Undefined
       | Some bs \<Rightarrow> Inr (elems sz (npts * dim) bs, npts, dim))"

text \<open>Into a vector: \<^verbatim>\<open>resize\<close> clears the new elements, and the bytes that are there overwrite them.\<close>

definition load_bin_vec :: "nat \<Rightarrow> nat list \<Rightarrow> dfile \<Rightarrow> nat \<Rightarrow> (nat list \<times> nat \<times> nat) outcome" where
  "load_bin_vec sz old f off =
     and_then (bin_header f off) (\<lambda>(npts, dim).
       let n = npts * dim * sz; cleared = elem_bytes sz (take (npts * dim) (old @ replicate (npts * dim) 0));
           avail = take n (drop (off + 8) (the f))
       in Inr (elems sz (npts * dim) (avail @ drop (length avail) cleared), npts, dim))"

definition header_bytes :: "nat \<Rightarrow> nat \<Rightarrow> bytes" where
  "header_bytes npts ndims = le_bytes 4 npts @ le_bytes 4 ndims"

definition save_bin :: "nat \<Rightarrow> dfile \<Rightarrow> nat list \<Rightarrow> nat \<Rightarrow> nat \<Rightarrow> nat \<Rightarrow> (dfile \<times> nat) outcome" where
  "save_bin sz f data npts ndims off =
     (if length data < npts * ndims then Inl Undefined
      else Inr (Some (write_at (open_file_to_write f) off
                  (header_bytes npts ndims @ elem_bytes sz (take (npts * ndims) data))),
                npts * ndims * sz + 8))"

definition save_bin_sector_aligned :: "nat \<Rightarrow> dfile \<Rightarrow> nat list \<Rightarrow> nat \<Rightarrow> nat \<Rightarrow> nat \<Rightarrow> (dfile \<times> nat) outcome" where
  "save_bin_sector_aligned sz f data npts ndims off =
     (if length data < npts * ndims then Inl Undefined
      else Inr (Some (write_at (write_at (open_file_to_write f) off (header_bytes npts ndims))
                  (off + METADATA_SIZE) (elem_bytes sz (take (npts * ndims) data))),
                npts * ndims * sz + 8))"

text \<open>Rows of \<open>dim\<close> elements are spread to rows of \<open>rounded\<close> elements, or gathered from them.\<close>

definition spread :: "nat \<Rightarrow> nat \<Rightarrow> nat \<Rightarrow> nat list \<Rightarrow> nat list" where
  "spread npts dim rounded xs = concat (map (\<lambda>i. take dim (drop (i * dim) xs) @ replicate (rounded - dim) 0) [0..<npts])"

definition gather :: "nat \<Rightarrow> nat \<Rightarrow> nat \<Rightarrow> nat list \<Rightarrow> nat list" where
  "gather npts dim rounded xs = concat (map (\<lambda>i. take dim (drop (i * rounded) xs)) [0..<npts])"

definition load_aligned_bin :: "nat \<Rightarrow> dfile \<Rightarrow> nat \<Rightarrow> (nat list \<times> nat \<times> nat \<times> nat) outcome" where
  "load_aligned_bin sz f off =
     and_then (load_bin sz f off) (\<lambda>(xs, npts, dim).
       let rounded = ROUND_UP dim 8
       in if \<not> IS_ALIGNED (npts * rounded * sz) (8 * sz) then Inl Assert_failed
          else Inr (spread npts dim rounded xs, npts, dim, rounded))"

text \<open>Into an array that the caller allocated; the rows that the file does not have stay as they are.\<close>

definition copy_aligned_data_from_file :: "nat \<Rightarrow> dfile \<Rightarrow> nat list option \<Rightarrow> nat \<Rightarrow> nat \<Rightarrow> (nat list \<times> nat \<times> nat) outcome" where
  "copy_aligned_data_from_file sz f data rounded off =
     (case data of
        None \<Rightarrow> Inl Exit
      | Some old \<Rightarrow>
          and_then (load_bin sz f off) (\<lambda>(xs, npts, dim).
            if rounded < dim \<or> length old < npts * rounded then Inl Undefined
            else Inr (spread npts dim rounded xs @ drop (npts * rounded) old, npts, dim)))"

definition save_data_in_base_dimensions ::
  "nat \<Rightarrow> dfile \<Rightarrow> nat list \<Rightarrow> nat \<Rightarrow> nat \<Rightarrow> nat \<Rightarrow> nat \<Rightarrow> (dfile \<times> nat) outcome" where
  "save_data_in_base_dimensions sz f data npts ndims aligned_dim off =
     (if 0 < npts \<and> length data < (npts - 1) * aligned_dim + ndims then Inl Undefined
      else Inr (Some (write_at (open_file_to_write f) off
                  (header_bytes npts ndims @ elem_bytes sz (gather npts ndims aligned_dim data))),
                8 + npts * ndims * sz))"

text \<open>A truth set has ids, then optionally distances and tags; the file size tells which.\<close>

definition truthset_type :: "nat \<Rightarrow> nat \<Rightarrow> nat \<Rightarrow> nat option" where
  "truthset_type fsize npts dim =
     (if fsize = 3 * npts * dim * 4 + 8 then Some 3
      else if fsize = npts * dim * 4 + 8 then Some 2
      else if fsize = 2 * npts * dim * 4 + 8 then Some 1 else None)"

definition load_truthset :: "dfile \<Rightarrow> bool \<Rightarrow> (nat list \<times> nat list option \<times> nat list option \<times> nat \<times> nat) outcome" where
  "load_truthset f want_tags =
     and_then (bin_header f 0) (\<lambda>(npts, dim).
       case truthset_type (get_file_size f) npts dim of
         None \<Rightarrow> Inl Trap
       | Some ty \<Rightarrow>
           let n = npts * dim; part = (\<lambda>k. elems 4 n (take (n * 4) (drop (8 + k * (n * 4)) (the f))))
           in Inr (part 0, if ty = 1 \<or> ty = 3 then Some (part 1) else None,
                   if ty = 3 \<and> want_tags then Some (part 2) else None, npts, dim))"

definition convert_types :: "('a \<Rightarrow> 'b) \<Rightarrow> 'a list \<Rightarrow> nat \<Rightarrow> nat \<Rightarrow> 'b list" where
  "convert_types cast srcmat npts dim = concat (map (\<lambda>i. map (\<lambda>j. cast (srcmat ! (i * dim + j))) [0..<dim]) [0..<npts])"

section \<open>What was saved is what is loaded\<close>

lemma bin_header_write:
  assumes "npts < 2 ^ 32" "ndims < 2 ^ 32"
  shows "bin_header (Some (write_at bs off (header_bytes npts ndims @ ws))) off = Inr (npts, ndims)"
proof -
  have "read_at (Some (write_at bs off (header_bytes npts ndims @ ws))) (off + 0) 8 = Some (header_bytes npts ndims)"
    by (subst read_write_same) (auto simp: header_bytes_def)
  then show ?thesis using assms by (simp add: bin_header_def header_bytes_def)
qed

lemma load_written:
  assumes "npts < 2 ^ 32" "ndims < 2 ^ 32" "length xs = npts * ndims" "\<forall>x\<in>set xs. x < 256 ^ sz"
  shows "load_bin sz (Some (write_at bs off (header_bytes npts ndims @ elem_bytes sz xs))) off = Inr (xs, npts, ndims)"
proof -
  have "read_at (Some (write_at bs off (header_bytes npts ndims @ elem_bytes sz xs))) (off + 8) (npts * ndims * sz)
      = Some (elem_bytes sz xs)"
    by (subst read_write_same) (simp_all add: header_bytes_def assms(3))
  then show ?thesis using bin_header_write[OF assms(1,2)] elems_elem_bytes[OF assms(4)] by (simp add: load_bin_def assms(3))
qed

text \<open>A region that a write does not touch loads as before.\<close>

lemma load_bin_frame:
  assumes "load_bin sz f off = Inr (xs, npts, dim)" "off + 8 + npts * dim * sz \<le> off' \<or> off' + length ws \<le> off"
  shows "load_bin sz (Some (write_at (open_file_to_write f) off' ws)) off = Inr (xs, npts, dim)"
proof -
  obtain h where h: "read_at f off 8 = Some h" "npts = le_val (take 4 h)" "dim = le_val (drop 4 h)"
    using assms(1) by (auto simp: load_bin_def bin_header_def split: option.splits)
  then obtain bs where b: "read_at f (off + 8) (npts * dim * sz) = Some bs" "xs = elems sz (npts * dim) bs"
    using assms(1) by (auto simp: load_bin_def bin_header_def split: option.splits)
  have "read_at (Some (write_at (open_file_to_write f) off' ws)) off 8 = Some h"
    using assms(2) by (intro read_write_Some[OF h(1)]) auto
  moreover have "read_at (Some (write_at (open_file_to_write f) off' ws)) (off + 8) (npts * dim * sz) = Some bs"
    using assms(2) by (intro read_write_Some[OF b(1)]) auto
  ultimately show ?thesis using h b by (simp add: load_bin_def bin_header_def)
qed

lemma save_bin_ok:
  assumes "npts < 2 ^ 32" "ndims < 2 ^ 32" "length xs = npts * ndims" "\<forall>x\<in>set xs. x < 256 ^ sz"
  shows "\<exists>f'. save_bin sz f xs npts ndims off = Inr (f', 8 + npts * ndims * sz) \<and> load_bin sz f' off = Inr (xs, npts, ndims)
    \<and> (\<forall>sz' off' ys n d. load_bin sz' f off' = Inr (ys, n, d) \<longrightarrow>
         off' + 8 + n * d * sz' \<le> off \<or> off + 8 + npts * ndims * sz \<le> off' \<longrightarrow> load_bin sz' f' off' = Inr (ys, n, d))"
proof -
  let ?f = "Some (write_at (open_file_to_write f) off (header_bytes npts ndims @ elem_bytes sz xs))"
  have "save_bin sz f xs npts ndims off = Inr (?f, 8 + npts * ndims * sz)" using assms(3) by (simp add: save_bin_def)
  moreover have "load_bin sz ?f off = Inr (xs, npts, ndims)" by (rule load_written[OF assms])
  moreover have "load_bin sz' ?f off' = Inr (ys, n, d)"
    if "load_bin sz' f off' = Inr (ys, n, d)" "off' + 8 + n * d * sz' \<le> off \<or> off + 8 + npts * ndims * sz \<le> off'" for sz' off' ys n d
    using that by (intro load_bin_frame) (auto simp: header_bytes_def assms(3))
  ultimately show ?thesis by blast
qed

text \<open>
  C31. What \<^verbatim>\<open>save_bin\<close> writes at an offset is what \<^verbatim>\<open>load_bin\<close> reads there, with the same counts; the returned
  size is the length of the region; and every other array of the file whose region is disjoint still loads as
  before, which is what the files that hold several arrays rely on.
\<close>

theorem save_load_bin:
  assumes "npts < 2 ^ 32" "ndims < 2 ^ 32" "length xs = npts * ndims" "\<forall>x\<in>set xs. x < 256 ^ sz"
  shows "\<exists>f'. save_bin sz f xs npts ndims off = Inr (f', 8 + npts * ndims * sz) \<and> load_bin sz f' off = Inr (xs, npts, ndims)
    \<and> (\<forall>sz' off' ys n d. load_bin sz' f off' = Inr (ys, n, d) \<longrightarrow>
         off' + 8 + n * d * sz' \<le> off \<or> off + 8 + npts * ndims * sz \<le> off' \<longrightarrow> load_bin sz' f' off' = Inr (ys, n, d))"
  by (rule save_bin_ok[OF assms])

theorem save_load_bin_witness:
  "\<exists>f'. save_bin 4 None [7, 4294967295, 0, 1, 2, 3] 3 2 100 = Inr (f', 32) \<and> load_bin 4 f' 100 = Inr ([7, 4294967295, 0, 1, 2, 3], 3, 2)"
  using save_load_bin[of 3 2 "[7, 4294967295, 0, 1, 2, 3]" 4 None 100] by auto

lemma length_gather: "\<forall>i<npts. i * rounded + dim \<le> length xs \<Longrightarrow> length (gather npts dim rounded xs) = npts * dim"
proof (induction npts)
  case (Suc n)
  then have "length (gather n dim rounded xs) = n * dim" "n * rounded + dim \<le> length xs" by auto
  then show ?case by (simp add: gather_def)
qed (simp add: gather_def)

lemma concat_rows: "\<forall>i<n. length (f i) = d \<Longrightarrow> i < n \<Longrightarrow> take d (drop (i * d) (concat (map f [0..<n]))) = f i"
proof (induction n)
  case (Suc n)
  have l: "length (concat (map f [0..<n])) = n * d" using Suc.prems(1) by (simp add: length_concat comp_def) (induction n, auto)
  show ?case
  proof (cases "i = n")
    case True
    then show ?thesis using l Suc.prems by simp
  next
    case False
    then have i: "i < n" using Suc.prems(2) by simp
    then have "i * d + d \<le> n * d" by (metis Suc_leI add.commute mult_Suc mult_le_mono1)
    then show ?thesis using Suc i l by simp
  qed
qed simp

lemma rows_concat: "length xs = n * d \<Longrightarrow> concat (map (\<lambda>i. take d (drop (i * d) xs)) [0..<n]) = xs"
proof (induction n arbitrary: xs)
  case (Suc n)
  have "concat (map (\<lambda>i. take d (drop (i * d) xs)) [0..<n]) = concat (map (\<lambda>i. take d (drop (i * d) (take (n * d) xs))) [0..<n])"
  proof (rule arg_cong[of _ _ concat], rule map_cong[OF refl])
    fix i assume "i \<in> set [0..<n]"
    then have "i * d + d \<le> n * d" by simp (metis Suc_leI add.commute mult_Suc mult_le_mono1)
    then show "take d (drop (i * d) xs) = take d (drop (i * d) (take (n * d) xs))" by (simp add: drop_take min_def)
  qed
  also have "\<dots> = take (n * d) xs" using Suc.prems by (intro Suc.IH) simp
  finally show ?case using Suc.prems by simp
qed simp

text \<open>Rows with zero padding are recovered from their first \<open>dim\<close> elements.\<close>

lemma spread_gather:
  assumes "dim \<le> r" "length xs = npts * r" "\<forall>i<npts. \<forall>j<r. dim \<le> j \<longrightarrow> xs ! (i * r + j) = 0"
  shows "spread npts dim r (gather npts dim r xs) = xs"
proof -
  have fit: "i * r + r \<le> length xs" if "i < npts" for i
    using that assms(2) by (metis Suc_leI add.commute mult_Suc mult_le_mono1)
  have "take dim (drop (i * dim) (gather npts dim r xs)) @ replicate (r - dim) 0 = take r (drop (i * r) xs)" if "i < npts" for i
  proof (rule nth_equalityI)
    have g: "take dim (drop (i * dim) (gather npts dim r xs)) = take dim (drop (i * r) xs)"
      unfolding gather_def using fit assms(1) that by (intro concat_rows) (auto simp: min_def, fastforce)
    show "length (take dim (drop (i * dim) (gather npts dim r xs)) @ replicate (r - dim) 0) = length (take r (drop (i * r) xs))"
      unfolding g using fit[OF that] assms(1) by simp
    fix j assume "j < length (take dim (drop (i * dim) (gather npts dim r xs)) @ replicate (r - dim) 0)"
    then have "j < r" unfolding g using fit[OF that] assms(1) by simp
    then show "(take dim (drop (i * dim) (gather npts dim r xs)) @ replicate (r - dim) 0) ! j = take r (drop (i * r) xs) ! j"
      unfolding g using fit[OF that] assms(1,3) that by (auto simp: nth_append)
  qed
  then have "spread npts dim r (gather npts dim r xs) = concat (map (\<lambda>i. take r (drop (i * r) xs)) [0..<npts])"
    unfolding spread_def by (intro arg_cong[of _ _ concat] map_cong) auto
  then show ?thesis using rows_concat[OF assms(2)] by simp
qed

text \<open>
  Saving the rows of an aligned array in their base dimension and loading them aligned gives the array back,
  when its padding is zero and its rows are as long as the loader rounds them.
\<close>

lemma aligned_roundtrip:
  assumes "npts < 2 ^ 32" "ndims < 2 ^ 32" "length xs = npts * ROUND_UP ndims 8" "\<forall>x\<in>set xs. x < 256 ^ sz"
    and "\<forall>i<npts. \<forall>j<ROUND_UP ndims 8. ndims \<le> j \<longrightarrow> xs ! (i * ROUND_UP ndims 8 + j) = 0"
  shows "\<exists>f'. save_data_in_base_dimensions sz f xs npts ndims (ROUND_UP ndims 8) off = Inr (f', 8 + npts * ndims * sz)
    \<and> load_aligned_bin sz f' off = Inr (xs, npts, ndims, ROUND_UP ndims 8)"
proof -
  let ?r = "ROUND_UP ndims 8"
  let ?g = "gather npts ndims ?r xs"
  let ?f = "Some (write_at (open_file_to_write f) off (header_bytes npts ndims @ elem_bytes sz ?g))"
  have r: "ndims \<le> ?r" by (rule ROUND_UP_ge) simp
  have fit: "i * ?r + ?r \<le> length xs" if "i < npts" for i
    using that assms(3) by (metis Suc_leI add.commute mult_Suc mult_le_mono1)
  then have lg: "length ?g = npts * ndims" using r by (intro length_gather) fastforce
  have "set ?g \<subseteq> set xs" by (auto simp: gather_def dest: in_set_takeD in_set_dropD)
  then have b: "\<forall>x\<in>set ?g. x < 256 ^ sz" using assms(4) by blast
  have "\<not> (0 < npts \<and> length xs < (npts - 1) * ?r + ndims)"
    using fit[of "npts - 1"] r by auto
  then have "save_data_in_base_dimensions sz f xs npts ndims ?r off = Inr (?f, 8 + npts * ndims * sz)"
    by (simp add: save_data_in_base_dimensions_def)
  moreover have "IS_ALIGNED (npts * ?r * sz) (8 * sz)"
    using ROUND_UP_aligned[of ndims 8] by (auto simp: IS_ALIGNED_def mod_eq_0_iff_dvd intro!: mult_dvd_mono)
  ultimately show ?thesis
    using load_written[OF assms(1,2) lg b] spread_gather[OF r assms(3,5)] by (simp add: load_aligned_bin_def Let_def)
qed

lemma aligned_roundtrip_witness:
  "\<exists>f'. save_data_in_base_dimensions 4 None [7, 8, 0, 0, 0, 0, 0, 0, 9, 5, 0, 0, 0, 0, 0, 0] 2 2 8 0 = Inr (f', 24)
     \<and> load_aligned_bin 4 f' 0 = Inr ([7, 8, 0, 0, 0, 0, 0, 0, 9, 5, 0, 0, 0, 0, 0, 0], 2, 2, 8)"
proof -
  let ?xs = "[7, 8, 0, 0, 0, 0, 0, 0, 9, 5, 0, 0, 0, 0, 0, 0] :: nat list"
  have r: "ROUND_UP 2 8 = 8" by (simp add: ROUND_UP_def round_up'_def)
  have "\<forall>i<2. \<forall>j<8. 2 \<le> j \<longrightarrow> ?xs ! (i * 8 + j) = 0"
    by (simp add: numeral_eq_Suc All_less_Suc)
  from aligned_roundtrip[of 2 2 ?xs 4 None 0, unfolded r, OF _ _ _ _ this] show ?thesis by simp
qed

text \<open>
  The counts of a large file: \<^verbatim>\<open>get_bin_metadata\<close> widens the signed number, \<^verbatim>\<open>load_bin\<close> the unsigned one, so the
  two disagree from \<open>2 ^ 31\<close> on.
\<close>

lemma metadata_header:
  "bin_header f off = Inr (n, d) \<Longrightarrow> get_bin_metadata f off = Inr (sext n, sext d)"
  by (auto simp: bin_header_def get_bin_metadata_def split: option.splits)

lemma metadata_disagrees:
  assumes "2 ^ 31 \<le> n" "n < 2 ^ 32"
  shows "\<exists>f. bin_header f 0 = Inr (n, 1) \<and> get_bin_metadata f 0 = Inr (2 ^ 64 - 2 ^ 32 + n, 1)"
proof -
  have "bin_header (Some (write_at [] 0 (header_bytes n 1 @ []))) 0 = Inr (n, 1)" using assms by (intro bin_header_write) simp_all
  from this metadata_header[OF this] show ?thesis using assms by (auto simp: sext_def)
qed

end
