(* ===== verification/PQ_Table.thy ===== *)
theory PQ_Table
  imports Float32 Bin_File
begin

text \<open>
  The product-quantisation table of \<^verbatim>\<open>include/pq_table.h\<close> and its users in \<^verbatim>\<open>include/ssd_index.h\<close> and
  \<^verbatim>\<open>src/ssd_index.cpp\<close>: loading and preparing the table, the distance table of a query, distances between
  compressed vectors, and compression. Arithmetic is binary32, one rounding per operation; an optimiser that
  fuses a multiplication and an addition is not modelled. An array is a list, indexed as the code indexes it.
\<close>

section \<open>Addition and subtraction\<close>

fun fneg :: "fl \<Rightarrow> fl" where
  "fneg (Fin a) = Fin (- a)"
| "fneg PInf = NInf"
| "fneg NInf = PInf"
| "fneg NaN = NaN"

fun fadd :: "fl \<Rightarrow> fl \<Rightarrow> fl" where
  "fadd NaN _ = NaN"
| "fadd _ NaN = NaN"
| "fadd (Fin a) (Fin b) = round32 (a + b)"
| "fadd (Fin a) b = b"
| "fadd a (Fin b) = a"
| "fadd PInf b = (if b = PInf then PInf else NaN)"
| "fadd NInf b = (if b = NInf then NInf else NaN)"

definition fsub :: "fl \<Rightarrow> fl \<Rightarrow> fl" where
  "fsub a b = fadd a (fneg b)"

definition fsq :: "fl \<Rightarrow> fl" where
  "fsq d = fmul d d"

text \<open>The value of a 32-bit pattern.\<close>

definition fl_of_bits :: "nat \<Rightarrow> fl" where
  "fl_of_bits w =
     (let neg = w div 2 ^ 31 mod 2 = 1; e = w div 2 ^ 23 mod 256; m = w mod 2 ^ 23
      in if e = 255 then (if m \<noteq> 0 then NaN else if neg then NInf else PInf)
         else let a = (if e = 0 then scale2 (- 149) (of_nat m) else scale2 (int e - 150) (of_nat (2 ^ 23 + m)))
              in Fin (if neg then - a else a))"

lemma round32_neg: "round32 (- x) = fneg (round32 x)"
  by (auto simp: round32_def Let_def)

lemma round32_0 [simp]: "round32 0 = Fin 0"
  by (simp add: round32_def)

lemma round32_not_NaN: "round32 x \<noteq> NaN"
  by (simp add: round32_def Let_def split: if_splits)

lemma fneg_fneg [simp]: "fneg (fneg a) = a"
  by (cases a) auto

lemma fneg_fadd: "fneg (fadd a b) = fadd (fneg a) (fneg b)"
  by (cases a; cases b) (simp_all add: round32_neg[symmetric])

lemma fadd_commute: "fadd a b = fadd b a"
  by (cases a; cases b) (simp_all add: add.commute)

lemma fsub_swap: "fsub a b = fneg (fsub b a)"
  by (simp add: fsub_def fneg_fadd fadd_commute)

lemma fsq_fneg [simp]: "fsq (fneg d) = fsq d"
  by (cases d) (simp_all add: fsq_def fsgn_def)

lemma fsq_fsub_commute: "fsq (fsub a b) = fsq (fsub b a)"
  by (metis fsub_swap fsq_fneg)

text \<open>Values that are zero, positive or positive infinity.\<close>

definition fnonneg :: "fl \<Rightarrow> bool" where
  "fnonneg x \<longleftrightarrow> (case x of Fin a \<Rightarrow> 0 \<le> a | PInf \<Rightarrow> True | _ \<Rightarrow> False)"

lemma round_even_nonneg: "0 \<le> x \<Longrightarrow> 0 \<le> round_even x"
proof -
  assume "0 \<le> x"
  then have "0 \<le> \<lfloor>x\<rfloor>" by simp
  then show ?thesis by (auto simp: round_even_def Let_def)
qed

lemma round32_nonneg: "0 \<le> x \<Longrightarrow> fnonneg (round32 x)"
  by (auto simp: fnonneg_def round32_def Let_def scale2_two_pow less_imp_le intro!: mult_nonneg_nonneg round_even_nonneg)

lemma fadd_nonneg: "fnonneg a \<Longrightarrow> fnonneg b \<Longrightarrow> fnonneg (fadd a b)"
  by (cases a; cases b) (auto simp: fnonneg_def[of "Fin _"] fnonneg_def[of PInf] fnonneg_def[of NInf] fnonneg_def[of NaN] intro: round32_nonneg)

lemma fsq_nonneg: "d \<noteq> NaN \<Longrightarrow> fnonneg (fsq d)"
  by (cases d) (auto simp: fsq_def fsgn_def finf_def fnonneg_def[of PInf] intro: round32_nonneg)

section \<open>Accumulating loops\<close>

text \<open>A loop of the shape \<^verbatim>\<open>for (k ...) a[ix(k)] += val(k)\<close>.\<close>

definition accum :: "('k \<Rightarrow> nat) \<Rightarrow> ('k \<Rightarrow> fl) \<Rightarrow> 'k list \<Rightarrow> fl list \<Rightarrow> fl list" where
  "accum ix val ks a = fold (\<lambda>k a. a[ix k := fadd (a ! ix k) (val k)]) ks a"

definition fsum :: "fl list \<Rightarrow> fl" where
  "fsum xs = foldl fadd (Fin 0) xs"

lemma length_accum [simp]: "length (accum ix val ks a) = length a"
  by (induction ks arbitrary: a) (auto simp: accum_def)

lemma accum_nth:
  "p < length a \<Longrightarrow> accum ix val ks a ! p = foldl fadd (a ! p) (map val (filter (\<lambda>k. ix k = p) ks))"
proof (induction ks arbitrary: a)
  case (Cons k ks)
  then have "accum ix val ks (a[ix k := fadd (a ! ix k) (val k)]) ! p =
      foldl fadd (a[ix k := fadd (a ! ix k) (val k)] ! p) (map val (filter (\<lambda>k. ix k = p) ks))" by simp
  then show ?case using Cons.prems by (simp add: accum_def)
qed (simp add: accum_def)

lemma filter_rows:
  assumes "i < n" "\<And>x y. x < n \<Longrightarrow> y \<in> set (f x) \<Longrightarrow> P y \<Longrightarrow> x = i"
  shows "filter P (concat (map f [0..<n])) = filter P (f i)"
proof -
  have "filter P (concat (map f xs)) = []" if "\<forall>x\<in>set xs. x < n \<and> x \<noteq> i" for xs
    using that assms(2) by (induction xs) (auto simp: filter_empty_conv)
  then have "filter P (concat (map f [0..<i])) = []" "filter P (concat (map f [Suc i..<n])) = []" using assms(1) by auto
  moreover have "[0..<n] = [0..<i] @ i # [Suc i..<n]" using upt_add_eq_append[of 0 i "n - i"] upt_conv_Cons[of i n] assms(1) by simp
  ultimately show ?thesis by simp
qed

lemma filter_upt_eq: "i < n \<Longrightarrow> filter (\<lambda>x. x = i) [0..<n] = [i]"
  by (induction n) (auto simp: less_Suc_eq filter_empty_conv)

lemma fsum_nonneg: "\<forall>x\<in>set xs. fnonneg x \<Longrightarrow> fnonneg (fsum xs)"
proof -
  have "fnonneg a \<Longrightarrow> \<forall>x\<in>set xs. fnonneg x \<Longrightarrow> fnonneg (foldl fadd a xs)" for a
    by (induction xs arbitrary: a) (auto intro: fadd_nonneg)
  moreover have "fnonneg (Fin 0)" by (simp add: fnonneg_def)
  ultimately show "\<forall>x\<in>set xs. fnonneg x \<Longrightarrow> fnonneg (fsum xs)" by (simp add: fsum_def)
qed

section \<open>The table\<close>

definition NUM_PQ_CENTROIDS :: nat where
  "NUM_PQ_CENTROIDS = 256"

definition NUM_PQ_OFFSETS :: nat where
  "NUM_PQ_OFFSETS = 5"

record FixedChunkPQTable =
  tables :: "fl list"
  centroid :: "fl list"
  ndims :: nat
  pq_nchunks :: nat
  chunk_offsets :: "nat list"
  rearrangement :: "nat list"
  tables_T :: "fl list"
  all_to_all_dists :: "fl list"

definition all_to_all_dist_size :: "FixedChunkPQTable \<Rightarrow> nat" where
  "all_to_all_dist_size T = 4 * pq_nchunks T * NUM_PQ_CENTROIDS * NUM_PQ_CENTROIDS"

text \<open>The number of columns of the offset array is not checked before its entries are used.\<close>

definition load_pq_pivots_new :: "dfile \<Rightarrow> nat \<Rightarrow> nat \<Rightarrow> FixedChunkPQTable outcome" where
  "load_pq_pivots_new f num_chunks offset =
     and_then (load_bin 8 f offset) (\<lambda>(file_offset_data, nr, nc).
     if nr \<noteq> NUM_PQ_OFFSETS then Inl Trap
     else if length file_offset_data < 4 then Inl Undefined
     else and_then (load_bin 4 f (file_offset_data ! 0 + offset)) (\<lambda>(tb, nr, nc).
     if nr \<noteq> NUM_PQ_CENTROIDS then Inl Trap
     else let nd = nc in
     and_then (load_bin 4 f (file_offset_data ! 1 + offset)) (\<lambda>(cen, nr, nc).
     if nr \<noteq> nd \<or> nc \<noteq> 1 then Inl Trap
     else and_then (load_bin 4 f (file_offset_data ! 2 + offset)) (\<lambda>(rearr, nr, nc).
     if nr \<noteq> nd \<or> nc \<noteq> 1 then Inl Trap
     else and_then (load_bin 4 f (file_offset_data ! 3 + offset)) (\<lambda>(offs, nr, nc).
     if nr \<noteq> num_chunks + 1 \<or> nc \<noteq> 1 then Inl Trap
     else Inr \<lparr>tables = map fl_of_bits tb, centroid = map fl_of_bits cen, ndims = nd, pq_nchunks = num_chunks,
               chunk_offsets = offs, rearrangement = rearr, tables_T = [], all_to_all_dists = []\<rparr>)))))"

definition chunk_dims :: "FixedChunkPQTable \<Rightarrow> nat \<Rightarrow> nat list" where
  "chunk_dims T c = [chunk_offsets T ! c ..< chunk_offsets T ! (c + 1)]"

definition post_load_pq_table :: "FixedChunkPQTable \<Rightarrow> FixedChunkPQTable" where
  "post_load_pq_table T =
     T\<lparr>tables_T := fold (\<lambda>(i, j) tt. tt[j * 256 + i := tables T ! (i * ndims T + j)])
          (List.product [0..<256] [0..<ndims T]) (replicate (256 * ndims T) (Fin 0)),
       all_to_all_dists := accum (\<lambda>(i, j, c, d). i * 256 * pq_nchunks T + j * pq_nchunks T + c)
          (\<lambda>(i, j, c, d). fsq (fsub (tables T ! (i * ndims T + d)) (tables T ! (j * ndims T + d))))
          [(i, j, c, d). i \<leftarrow> [0..<256], j \<leftarrow> [0..<256], c \<leftarrow> [0..<pq_nchunks T], d \<leftarrow> chunk_dims T c]
          (replicate (256 * 256 * pq_nchunks T) (Fin 0))\<rparr>"

definition load_pq_centroid_bin :: "dfile \<Rightarrow> nat \<Rightarrow> nat \<Rightarrow> FixedChunkPQTable outcome" where
  "load_pq_centroid_bin f num_chunks offset =
     and_then (get_bin_metadata f offset) (\<lambda>_.
       and_then (load_pq_pivots_new f num_chunks offset) (\<lambda>T. Inr (post_load_pq_table T)))"

section \<open>Distances\<close>

text \<open>
  The difference is computed in \<^verbatim>\<open>float\<close>; its square is formed in \<^verbatim>\<open>double\<close>, where the product of two
  \<^verbatim>\<open>float\<close> values is exact, and rounded once.
\<close>

definition query_diff :: "FixedChunkPQTable \<Rightarrow> fl list \<Rightarrow> nat \<Rightarrow> fl" where
  "query_diff T q j = fsub (q ! (rearrangement T ! j)) (centroid T ! (rearrangement T ! j))"

definition populate_chunk_distances :: "FixedChunkPQTable \<Rightarrow> fl list \<Rightarrow> fl list" where
  "populate_chunk_distances T query_vec =
     accum (\<lambda>(chunk, j, idx). 256 * chunk + idx)
       (\<lambda>(chunk, j, idx). fsq (fsub (tables_T T ! (256 * j + idx)) (query_diff T query_vec j)))
       [(chunk, j, idx). chunk \<leftarrow> [0..<pq_nchunks T], j \<leftarrow> chunk_dims T chunk, idx \<leftarrow> [0..<256]]
       (replicate (256 * pq_nchunks T) (Fin 0))"

text \<open>The vector version: sixteen lanes at a time, the same operations in each lane.\<close>

definition populate_chunk_distances_nt :: "FixedChunkPQTable \<Rightarrow> fl list \<Rightarrow> fl list" where
  "populate_chunk_distances_nt T query_vec =
     fold (\<lambda>(chunk, j, blk) dv.
         let lo = 256 * chunk + 16 * blk;
             center = take 16 (drop (256 * j + 16 * blk) (tables_T T));
             diff = map (\<lambda>x. fsub x (query_diff T query_vec j)) center;
             sum = map2 fadd (take 16 (drop lo dv)) (map fsq diff)
         in take lo dv @ sum @ drop (lo + 16) dv)
       [(chunk, j, blk). chunk \<leftarrow> [0..<pq_nchunks T], j \<leftarrow> chunk_dims T chunk, blk \<leftarrow> [0..<16]]
       (replicate (256 * pq_nchunks T) (Fin 0))"

definition compute_distances_alltoall :: "FixedChunkPQTable \<Rightarrow> nat list \<Rightarrow> nat list \<Rightarrow> nat \<Rightarrow> fl list" where
  "compute_distances_alltoall T comp_src comp_dsts count =
     accum (\<lambda>(c, i). i)
       (\<lambda>(c, i). all_to_all_dists T ! (comp_src ! c * 256 * pq_nchunks T + comp_dsts ! (i * pq_nchunks T + c) * pq_nchunks T + c))
       (List.product [0..<pq_nchunks T] [0..<count]) (replicate count (Fin 0))"

text \<open>The loop nest that the code has as a comment, one destination after the other.\<close>

definition alltoall_reference :: "FixedChunkPQTable \<Rightarrow> nat list \<Rightarrow> nat list \<Rightarrow> nat \<Rightarrow> fl list" where
  "alltoall_reference T comp_src comp_dsts count =
     accum (\<lambda>(i, c). i)
       (\<lambda>(i, c). all_to_all_dists T ! (comp_src ! c * 256 * pq_nchunks T + comp_dsts ! (i * pq_nchunks T + c) * pq_nchunks T + c))
       (List.product [0..<count] [0..<pq_nchunks T]) (replicate count (Fin 0))"

definition aggregate_coords :: "nat list \<Rightarrow> nat list \<Rightarrow> nat \<Rightarrow> nat list" where
  "aggregate_coords ids all_coords nd = concat (map (\<lambda>i. take nd (drop (i * nd) all_coords)) ids)"

definition pq_dist_lookup :: "nat list \<Rightarrow> nat \<Rightarrow> nat \<Rightarrow> fl list \<Rightarrow> fl list" where
  "pq_dist_lookup pq_ids n_pts nchunks pq_dists =
     accum (\<lambda>(chunk, idx). idx) (\<lambda>(chunk, idx). pq_dists ! (256 * chunk + pq_ids ! (nchunks * idx + chunk)))
       (List.product [0..<nchunks] [0..<n_pts]) (replicate n_pts (Fin 0))"

definition compute_pq_dists :: "FixedChunkPQTable \<Rightarrow> nat list \<Rightarrow> nat \<Rightarrow> nat list \<Rightarrow> fl list outcome" where
  "compute_pq_dists T data src ids =
     (if 32768 \<le> length ids then Inl Trap
      else Inr (compute_distances_alltoall T (take (pq_nchunks T) (drop (pq_nchunks T * src) data))
                  (aggregate_coords ids data (pq_nchunks T)) (length ids)))"

section \<open>Compression\<close>

definition center_dist :: "FixedChunkPQTable \<Rightarrow> fl list \<Rightarrow> nat \<Rightarrow> nat \<Rightarrow> fl" where
  "center_dist T v c i =
     foldl (\<lambda>cur_dist d. fadd cur_dist (fsq (fsub (tables T ! (i * ndims T + d)) (query_diff T v d)))) (Fin 0) (chunk_dims T c)"

definition closest_center :: "(nat \<Rightarrow> fl) \<Rightarrow> nat \<Rightarrow> nat list \<Rightarrow> fl \<times> nat" where
  "closest_center dst out is =
     fold (\<lambda>i (closest_dist, out). if flt (dst i) closest_dist then (dst i, i) else (closest_dist, out)) is (f_max, out)"

text \<open>An entry of the output is written only when some centre is closer than the largest \<^verbatim>\<open>float\<close>.\<close>

definition deflate_vec :: "FixedChunkPQTable \<Rightarrow> fl list \<Rightarrow> nat list \<Rightarrow> nat list" where
  "deflate_vec T fp_vec out = map (\<lambda>c. snd (closest_center (center_dist T fp_vec c) (out ! c) [0..<256])) [0..<pq_nchunks T]"

text \<open>\<open>fp_vec\<close> has the elements of the vector, converted to \<^verbatim>\<open>float\<close>.\<close>

definition deflate_vector :: "FixedChunkPQTable \<Rightarrow> fl list \<Rightarrow> nat list" where
  "deflate_vector T fp_vec = deflate_vec T fp_vec (replicate (pq_nchunks T) 0)"

lemma length_deflate_vector: "length (deflate_vector T v) = pq_nchunks T"
  by (simp add: deflate_vector_def deflate_vec_def)

lemma closest_center_in: "snd (closest_center dst out is) = out \<or> snd (closest_center dst out is) \<in> set is"
proof -
  have "snd (fold (\<lambda>i (cd, out). if flt (dst i) cd then (dst i, i) else (cd, out)) is (cd, out)) = out
      \<or> snd (fold (\<lambda>i (cd, out). if flt (dst i) cd then (dst i, i) else (cd, out)) is (cd, out)) \<in> set is" for cd
  proof (induction "is" arbitrary: cd out)
    case (Cons i "is")
    show ?case using Cons[of "dst i" i] Cons[of cd out] by auto
  qed simp
  then show ?thesis unfolding closest_center_def by blast
qed

lemma deflate_vector_bytes: "x \<in> set (deflate_vector T v) \<Longrightarrow> x < 256"
proof -
  assume "x \<in> set (deflate_vector T v)"
  then obtain c where "x = snd (closest_center (center_dist T v c) 0 [0..<256])"
    by (auto simp: deflate_vector_def deflate_vec_def)
  then show "x < 256" using closest_center_in[of "center_dist T v c" 0 "[0..<256]"] by auto
qed

section \<open>The prepared tables\<close>

definition pq_ok :: "FixedChunkPQTable \<Rightarrow> bool" where
  "pq_ok T \<longleftrightarrow> length (tables T) = 256 * ndims T \<and> length (centroid T) = ndims T \<and> length (rearrangement T) = ndims T
     \<and> (\<forall>r\<in>set (rearrangement T). r < ndims T)
     \<and> length (chunk_offsets T) = pq_nchunks T + 1 \<and> (\<forall>d\<in>set (chunk_offsets T). d \<le> ndims T)"

definition pq_ready :: "FixedChunkPQTable \<Rightarrow> bool" where
  "pq_ready T \<longleftrightarrow> pq_ok T \<and> (\<exists>T0. T = post_load_pq_table T0)"

lemma post_load_frame [simp]:
  "tables (post_load_pq_table T) = tables T" "ndims (post_load_pq_table T) = ndims T"
  "pq_nchunks (post_load_pq_table T) = pq_nchunks T" "chunk_dims (post_load_pq_table T) = chunk_dims T"
  by (simp_all add: post_load_pq_table_def chunk_dims_def fun_eq_iff)

lemma chunk_dims_bound:
  assumes "pq_ok T" "c < pq_nchunks T" "d \<in> set (chunk_dims T c)"
  shows "d < ndims T"
proof -
  have "chunk_offsets T ! (c + 1) \<in> set (chunk_offsets T)" using assms(1,2) by (intro nth_mem) (simp add: pq_ok_def)
  then have "chunk_offsets T ! (c + 1) \<le> ndims T" using assms(1) by (simp add: pq_ok_def)
  then show ?thesis using assms(3) by (simp add: chunk_dims_def)
qed

lemma fold_update_nth:
  "p < length a \<Longrightarrow> fold (\<lambda>k a. a[ix k := val k]) ks a ! p =
     (case find (\<lambda>k. ix k = p) (rev ks) of Some k \<Rightarrow> val k | None \<Rightarrow> a ! p)"
proof (induction ks rule: rev_induct)
  case (snoc k ks)
  have "length (fold (\<lambda>k a. a[ix k := val k]) ks a) = length a" by (induction ks arbitrary: a) auto
  then show ?case using snoc by simp
qed simp

lemma slot_inj: "(i :: nat) < n \<Longrightarrow> i' < n \<Longrightarrow> j * n + i = j' * n + i' \<longleftrightarrow> j = j' \<and> i = i'"
proof
  assume a: "i < n" "i' < n" "j * n + i = j' * n + i'"
  then have "(j * n + i) div n = (j' * n + i') div n" "(j * n + i) mod n = (j' * n + i') mod n" by simp_all
  then show "j = j' \<and> i = i'" using a(1,2) by simp
qed simp

lemma tables_T_nth:
  assumes "pq_ready T" "i < 256" "j < ndims T"
  shows "tables_T T ! (j * 256 + i) = tables T ! (i * ndims T + j)"
proof -
  obtain T0 where T: "T = post_load_pq_table T0" using assms(1) by (auto simp: pq_ready_def)
  let ?ks = "List.product [0..<256] [0..<ndims T]" and ?P = "\<lambda>k. (case k of (i', j') \<Rightarrow> j' * 256 + i') = j * 256 + i"
  have "find ?P (rev ?ks) = Some (i, j)"
  proof (cases "find ?P (rev ?ks)")
    case None
    have "(i, j) \<in> set ?ks" using assms(2,3) by simp
    then show ?thesis using None by (auto simp: find_None_iff)
  next
    case (Some k)
    obtain a b where k: "k = (a, b)" by fastforce
    from find_in_set[OF Some] have "(a, b) \<in> set ?ks" "?P (a, b)" unfolding k by auto
    then have "k = (i, j)" using assms(2) by (simp add: k slot_inj)
    then show ?thesis using Some by simp
  qed
  moreover have "j * 256 + i < 256 * ndims T"
  proof -
    have "j * 256 + 256 \<le> ndims T * 256" using assms(3) by (metis Suc_leI add.commute mult_Suc mult_le_mono1)
    then show ?thesis using assms(2) by simp
  qed
  ultimately show ?thesis unfolding T
    using fold_update_nth[of "j * 256 + i" "replicate (256 * ndims T) (Fin 0)" "\<lambda>(i, j). j * 256 + i" "\<lambda>(i, j). tables T0 ! (i * ndims T + j)" ?ks]
    by (simp add: post_load_pq_table_def[of T0] T case_prod_unfold)
qed

text \<open>The squared distance of two centres of a chunk.\<close>

definition centers_dist :: "FixedChunkPQTable \<Rightarrow> nat \<Rightarrow> nat \<Rightarrow> nat \<Rightarrow> fl" where
  "centers_dist T c i j = fsum (map (\<lambda>d. fsq (fsub (tables T ! (i * ndims T + d)) (tables T ! (j * ndims T + d)))) (chunk_dims T c))"

lemma all_to_all_loop:
  assumes "pq_ready T"
  shows "all_to_all_dists T = accum (\<lambda>(i, j, c, d). i * 256 * pq_nchunks T + j * pq_nchunks T + c)
          (\<lambda>(i, j, c, d). fsq (fsub (tables T ! (i * ndims T + d)) (tables T ! (j * ndims T + d))))
          [(i, j, c, d). i \<leftarrow> [0..<256], j \<leftarrow> [0..<256], c \<leftarrow> [0..<pq_nchunks T], d \<leftarrow> chunk_dims T c]
          (replicate (256 * 256 * pq_nchunks T) (Fin 0))"
proof -
  obtain T0 where T: "T = post_load_pq_table T0" using assms by (auto simp: pq_ready_def)
  show ?thesis unfolding T post_load_frame by (simp add: post_load_pq_table_def)
qed

lemma all_to_all_nth:
  assumes "pq_ready T" "i < 256" "j < 256" "c < pq_nchunks T"
  shows "all_to_all_dists T ! (i * 256 * pq_nchunks T + j * pq_nchunks T + c) = centers_dist T c i j"
proof -
  let ?n = "pq_nchunks T"
  let ?ix = "\<lambda>(i, j, c, d). i * 256 * ?n + j * ?n + c"
  let ?p = "i * 256 * ?n + j * ?n + c"
  have key: "?ix (i', j', c', d) = ?p \<longleftrightarrow> i' = i \<and> j' = j \<and> c' = c" if "j' < 256" "c' < ?n" for i' j' c' d
  proof -
    have e: "x * 256 * ?n + y * ?n + z = (x * 256 + y) * ?n + z" for x y z by (simp add: algebra_simps)
    show ?thesis using that assms(3,4) by (simp add: e slot_inj)
  qed
  let ?ks = "[(i, j, c, d). i \<leftarrow> [0..<256], j \<leftarrow> [0..<256], c \<leftarrow> [0..<?n], d \<leftarrow> chunk_dims T c]"
  have "filter (\<lambda>k. ?ix k = ?p) ?ks = map (\<lambda>d. (i, j, c, d)) (chunk_dims T c)"
  proof -
    have "filter (\<lambda>k. ?ix k = ?p) ?ks = filter (\<lambda>k. ?ix k = ?p) (concat (map (\<lambda>j. concat (map (\<lambda>c. map (\<lambda>d. (i, j, c, d)) (chunk_dims T c)) [0..<?n])) [0..<256]))"
      by (rule filter_rows[OF assms(2)]) (use key in auto)
    also have "\<dots> = filter (\<lambda>k. ?ix k = ?p) (concat (map (\<lambda>c. map (\<lambda>d. (i, j, c, d)) (chunk_dims T c)) [0..<?n]))"
      by (rule filter_rows[OF assms(3)]) (use assms(4) in \<open>auto simp: slot_inj\<close>)
    also have "\<dots> = filter (\<lambda>k. ?ix k = ?p) (map (\<lambda>d. (i, j, c, d)) (chunk_dims T c))"
      by (rule filter_rows[OF assms(4)]) (use key assms(3) in auto)
    finally show ?thesis by (simp add: filter_map comp_def)
  qed
  moreover have "?p < 256 * 256 * ?n"
  proof -
    have "i * 256 + j < 256 * 256" using assms(2,3) by simp
    then have "(i * 256 + j) * ?n + ?n \<le> 256 * 256 * ?n" by (metis Suc_leI add.commute mult_Suc mult_le_mono1)
    then show ?thesis using assms(4) by (simp add: algebra_simps)
  qed
  ultimately show ?thesis unfolding all_to_all_loop[OF assms(1)]
    by (subst accum_nth) (simp_all add: centers_dist_def fsum_def comp_def)
qed

section \<open>Distances between codes\<close>

lemma filter_product_snd: "i < n \<Longrightarrow> filter (\<lambda>(x, y). y = i) (List.product xs [0..<n]) = map (\<lambda>x. (x, i)) xs"
  by (induction xs) (simp_all add: filter_map comp_def filter_upt_eq)

lemma filter_product_fst: "i < n \<Longrightarrow> filter (\<lambda>(x, y). x = i) (List.product [0..<n] ys) = map (Pair i) ys"
proof -
  assume i: "i < n"
  have p: "List.product xs ys = concat (map (\<lambda>x. map (Pair x) ys) xs)" for xs :: "nat list" by (induction xs) auto
  show ?thesis unfolding p by (subst filter_rows[OF i]) (auto simp: filter_map comp_def)
qed

lemma alltoall_nth:
  assumes "i < count"
  shows "compute_distances_alltoall T s d count ! i = fsum (map (\<lambda>c. all_to_all_dists T !
    (s ! c * 256 * pq_nchunks T + d ! (i * pq_nchunks T + c) * pq_nchunks T + c)) [0..<pq_nchunks T])"
  unfolding compute_distances_alltoall_def using assms filter_product_snd[OF assms, of "[0..<pq_nchunks T]"]
  by (subst accum_nth) (simp_all add: fsum_def comp_def case_prod_unfold)

text \<open>
  The chunk-by-chunk loop of \<^verbatim>\<open>compute_distances_alltoall\<close> gives exactly the distances of the loop nest
  that it replaced: for each destination the roundings happen in the same order.
\<close>

lemma alltoall_equals_reference:
  "compute_distances_alltoall T comp_src comp_dsts count = alltoall_reference T comp_src comp_dsts count"
proof (rule nth_equalityI)
  show "length (compute_distances_alltoall T comp_src comp_dsts count) = length (alltoall_reference T comp_src comp_dsts count)"
    by (simp add: compute_distances_alltoall_def alltoall_reference_def)
  fix i assume "i < length (compute_distances_alltoall T comp_src comp_dsts count)"
  then have i: "i < count" by (simp add: compute_distances_alltoall_def)
  show "compute_distances_alltoall T comp_src comp_dsts count ! i = alltoall_reference T comp_src comp_dsts count ! i"
    unfolding alltoall_nth[OF i] unfolding alltoall_reference_def
    using i filter_product_fst[OF i, of "[0..<pq_nchunks T]"]
    by (subst accum_nth) (simp_all add: fsum_def comp_def case_prod_unfold)
qed

text \<open>The distance of two ids by their codes in the array; the distances of a batch do not depend on each other.\<close>

definition code_of_id :: "FixedChunkPQTable \<Rightarrow> nat list \<Rightarrow> nat \<Rightarrow> nat list" where
  "code_of_id T data i = take (pq_nchunks T) (drop (i * pq_nchunks T) data)"

definition pq_dist_of :: "FixedChunkPQTable \<Rightarrow> nat list \<Rightarrow> nat \<Rightarrow> nat \<Rightarrow> fl" where
  "pq_dist_of T data a b = fsum (map (\<lambda>c. all_to_all_dists T !
     (code_of_id T data a ! c * 256 * pq_nchunks T + code_of_id T data b ! c * pq_nchunks T + c)) [0..<pq_nchunks T])"

lemma aggregate_nth:
  assumes "\<forall>i\<in>set ids. i * nd + nd \<le> length data" "k < length ids" "c < nd"
  shows "aggregate_coords ids data nd ! (k * nd + c) = data ! (ids ! k * nd + c)"
  using assms
proof (induction ids arbitrary: k)
  case (Cons i ids)
  have "i * nd + nd \<le> length data" using Cons.prems(1) by simp
  then have l: "length (take nd (drop (i * nd) data)) = nd" unfolding length_take length_drop by linarith
  show ?case
  proof (cases k)
    case 0
    then show ?thesis using l Cons.prems by (simp add: aggregate_coords_def nth_append)
  next
    case (Suc k')
    then have "aggregate_coords (i # ids) data nd ! (k * nd + c) = aggregate_coords ids data nd ! (k' * nd + c)"
      using l by (simp add: aggregate_coords_def nth_append)
    then show ?thesis using Cons Suc by simp
  qed
qed simp

lemma compute_pq_dists_map:
  assumes "\<forall>i\<in>set ids. i * pq_nchunks T + pq_nchunks T \<le> length data" "length ids < 32768"
  shows "compute_pq_dists T data src ids = Inr (map (pq_dist_of T data src) ids)"
proof -
  let ?n = "pq_nchunks T"
  let ?L = "compute_distances_alltoall T (take ?n (drop (?n * src) data)) (aggregate_coords ids data ?n) (length ids)"
  have "?L = map (pq_dist_of T data src) ids"
  proof (rule nth_equalityI)
    show "length ?L = length (map (pq_dist_of T data src) ids)" by (simp add: compute_distances_alltoall_def)
    fix k assume "k < length ?L"
    then have k: "k < length ids" by (simp add: compute_distances_alltoall_def)
    have "code_of_id T data (ids ! k) ! c = aggregate_coords ids data ?n ! (k * ?n + c)" if "c < ?n" for c
    proof -
      have "ids ! k * ?n + ?n \<le> length data" using assms(1) k by simp
      then show ?thesis using that aggregate_nth[OF assms(1) k that] by (simp add: code_of_id_def)
    qed
    then show "?L ! k = map (pq_dist_of T data src) ids ! k"
      unfolding alltoall_nth[OF k] using k
      by (auto simp: pq_dist_of_def code_of_id_def mult.commute intro!: arg_cong[of _ _ fsum] map_cong)
  qed
  then show ?thesis using assms(2) by (simp add: compute_pq_dists_def)
qed

definition codes_ok :: "FixedChunkPQTable \<Rightarrow> nat list \<Rightarrow> nat \<Rightarrow> bool" where
  "codes_ok T data i \<longleftrightarrow> i * pq_nchunks T + pq_nchunks T \<le> length data \<and> (\<forall>x\<in>set data. x < 256)"

lemma code_bound: "codes_ok T data i \<Longrightarrow> c < pq_nchunks T \<Longrightarrow> code_of_id T data i ! c < 256"
  by (auto simp: codes_ok_def code_of_id_def)

lemma pq_dist_centers:
  assumes "pq_ready T" "codes_ok T data a" "codes_ok T data b"
  shows "pq_dist_of T data a b = fsum (map (\<lambda>c. centers_dist T c (code_of_id T data a ! c) (code_of_id T data b ! c)) [0..<pq_nchunks T])"
  unfolding pq_dist_of_def using assms by (intro arg_cong[of _ _ fsum] map_cong) (auto intro: all_to_all_nth code_bound)

lemma centers_dist_commute: "centers_dist T c i j = centers_dist T c j i"
  unfolding centers_dist_def by (intro arg_cong[of _ _ fsum] map_cong) (auto intro: fsq_fsub_commute)

lemma fsum_zero: "\<forall>x\<in>set xs. x = Fin 0 \<Longrightarrow> fsum xs = Fin 0"
proof -
  have "fadd (Fin 0) (Fin 0) = Fin 0" by (simp add: round32_def)
  then show "\<forall>x\<in>set xs. x = Fin 0 \<Longrightarrow> fsum xs = Fin 0" by (induction xs) (auto simp: fsum_def)
qed

definition finite_fl :: "fl \<Rightarrow> bool" where
  "finite_fl x \<longleftrightarrow> (\<exists>a. x = Fin a)"

lemma fsq_fsub_self: "finite_fl a \<Longrightarrow> fsq (fsub a a) = Fin 0"
  by (auto simp: finite_fl_def fsub_def fsq_def round32_def)

lemma table_entry: "pq_ok T \<Longrightarrow> i < 256 \<Longrightarrow> d < ndims T \<Longrightarrow> tables T ! (i * ndims T + d) \<in> set (tables T)"
proof (rule nth_mem)
  assume a: "pq_ok T" "i < 256" "d < ndims T"
  then have "i * ndims T + ndims T \<le> 256 * ndims T" by (metis Suc_leI add.commute mult_Suc mult_le_mono1)
  moreover have "length (tables T) = 256 * ndims T" using a(1) by (simp add: pq_ok_def)
  ultimately show "i * ndims T + d < length (tables T)" using a(3) by linarith
qed

text \<open>
  C26. Distances between compressed vectors behave like distances although they are sums of rounded squares read
  from a precomputed table: they are symmetric, a vector is at distance zero from every vector with the same
  code, and no distance is negative or a NaN.
\<close>

theorem compute_pq_dists_metric:
  assumes "pq_ready T" "\<forall>x\<in>set (tables T). finite_fl x" "codes_ok T data a" "codes_ok T data b"
  shows "\<exists>d. compute_pq_dists T data a [b] = Inr [d] \<and> compute_pq_dists T data b [a] = Inr [d] \<and> fnonneg d
    \<and> (code_of_id T data a = code_of_id T data b \<longrightarrow> d = Fin 0)"
proof -
  have ok: "pq_ok T" using assms(1) by (simp add: pq_ready_def)
  let ?d = "pq_dist_of T data a b"
  have fin: "finite_fl (tables T ! (i * ndims T + d))" if "i < 256" "c < pq_nchunks T" "d \<in> set (chunk_dims T c)" for i c d
    using assms(2) table_entry[OF ok that(1) chunk_dims_bound[OF ok that(2,3)]] by blast
  have "compute_pq_dists T data a [b] = Inr [?d]" "compute_pq_dists T data b [a] = Inr [pq_dist_of T data b a]"
    using assms(3,4) by (simp_all add: compute_pq_dists_map codes_ok_def)
  moreover have "pq_dist_of T data b a = ?d"
    unfolding pq_dist_centers[OF assms(1,3,4)] pq_dist_centers[OF assms(1,4,3)] by (subst centers_dist_commute) simp
  moreover have "fnonneg (centers_dist T c i j)" if "i < 256" "j < 256" "c < pq_nchunks T" for c i j
  proof -
    have "fsub x y \<noteq> NaN" if "finite_fl x" "finite_fl y" for x y
      using that by (auto simp: finite_fl_def fsub_def round32_not_NaN)
    then show ?thesis unfolding centers_dist_def using fin that by (intro fsum_nonneg) (auto intro!: fsq_nonneg)
  qed
  then have "fnonneg ?d" unfolding pq_dist_centers[OF assms(1,3,4)]
    using code_bound[OF assms(3)] code_bound[OF assms(4)] by (intro fsum_nonneg) auto
  moreover have "centers_dist T c i i = Fin 0" if "i < 256" "c < pq_nchunks T" for c i
    unfolding centers_dist_def using fin that by (intro fsum_zero) (auto intro: fsq_fsub_self)
  then have "?d = Fin 0" if "code_of_id T data a = code_of_id T data b"
    unfolding pq_dist_centers[OF assms(1,3,4)] that using code_bound[OF assms(4)] by (intro fsum_zero) auto
  ultimately show ?thesis by auto
qed

section \<open>The distance table of a query\<close>

lemma fold_step_nth:
  assumes "\<forall>k\<in>set ks. \<forall>dv. length dv = n \<longrightarrow> length (step k dv) = n \<and> step k dv ! p = (if hit k then fadd (dv ! p) (val k) else dv ! p)"
    and "length a = n"
  shows "fold step ks a ! p = foldl fadd (a ! p) (map val (filter hit ks))"
  using assms by (induction ks arbitrary: a) auto

lemma query_keys:
  assumes "c < pq_nchunks T" "i < 256"
  shows "filter (\<lambda>(chunk, j, idx). 256 * chunk + idx = 256 * c + i)
      [(chunk, j, idx). chunk \<leftarrow> [0..<pq_nchunks T], j \<leftarrow> chunk_dims T chunk, idx \<leftarrow> [0..<256]]
    = map (\<lambda>j. (c, j, i)) (chunk_dims T c)"
proof -
  have k: "256 * c' + x = 256 * c + i \<longleftrightarrow> c' = c \<and> x = i" if "x < 256" for c' x
    using slot_inj[OF that assms(2), of c' c] by (simp add: mult.commute)
  have row: "filter (\<lambda>(chunk, j, idx). 256 * chunk + idx = 256 * c + i) (concat (map (\<lambda>j. map (\<lambda>idx. (c, j, idx)) [0..<256]) js))
      = map (\<lambda>j. (c, j, i)) js" for js :: "nat list"
    by (induction js) (simp_all add: filter_map comp_def filter_upt_eq assms(2))
  show ?thesis by (subst filter_rows[OF assms(1)]) (use k row in auto)
qed

lemma center_dist_fsum:
  "center_dist T v c i = fsum (map (\<lambda>d. fsq (fsub (tables T ! (i * ndims T + d)) (query_diff T v d))) (chunk_dims T c))"
  by (simp add: center_dist_def fsum_def foldl_map)

lemma slot_bound: "(c :: nat) < n \<Longrightarrow> i < m \<Longrightarrow> m * c + i < m * n"
proof -
  assume a: "c < n" "i < m"
  then have "m * c + m \<le> m * n" by (metis Suc_leI add.commute mult_Suc_right mult_le_mono2)
  then show "m * c + i < m * n" using a(2) by linarith
qed

lemma populate_nth:
  assumes "pq_ready T" "c < pq_nchunks T" "i < 256"
  shows "populate_chunk_distances T q ! (256 * c + i) = center_dist T q c i"
proof -
  have ok: "pq_ok T" using assms(1) by (simp add: pq_ready_def)
  have "tables_T T ! (256 * j + i) = tables T ! (i * ndims T + j)" if "j \<in> set (chunk_dims T c)" for j
    using tables_T_nth[OF assms(1,3) chunk_dims_bound[OF ok assms(2) that]] by (simp add: mult.commute)
  then show ?thesis
    unfolding populate_chunk_distances_def center_dist_fsum fsum_def
    using slot_bound[OF assms(2,3)] query_keys[OF assms(2,3)]
    by (subst accum_nth) (auto simp: case_prod_unfold comp_def intro!: arg_cong2[of _ _ _ _ "foldl fadd"])
qed

text \<open>One step of the vector loop adds to sixteen entries.\<close>

lemma block_step:
  assumes "lo + 16 \<le> length dv" "length vs = 16" "p < length dv"
  shows "(take lo dv @ map2 fadd (take 16 (drop lo dv)) vs @ drop (lo + 16) dv) ! p =
    (if lo \<le> p \<and> p < lo + 16 then fadd (dv ! p) (vs ! (p - lo)) else dv ! p)"
  using assms by (auto simp: nth_append min_def)

lemma block_keys:
  assumes "c < pq_nchunks T" "i < 256"
  shows "filter (\<lambda>(chunk, j, blk). 256 * chunk + 16 * blk \<le> 256 * c + i \<and> 256 * c + i < 256 * chunk + 16 * blk + 16)
      [(chunk, j, blk). chunk \<leftarrow> [0..<pq_nchunks T], j \<leftarrow> chunk_dims T chunk, blk \<leftarrow> [0..<16]]
    = map (\<lambda>j. (c, j, i div 16)) (chunk_dims T c)" (is "filter ?P _ = _")
proof -
  have k: "c' = c" if "blk < 16" "256 * c' + 16 * blk \<le> 256 * c + i" "256 * c + i < 256 * c' + 16 * blk + 16" for c' blk :: nat
    using that assms(2) by linarith
  have b: "(16 * blk \<le> i \<and> i < 16 * blk + 16) \<longleftrightarrow> blk = i div 16" for blk :: nat by linarith
  have "i div 16 < 16" using assms(2) by simp
  then have row: "filter ?P (concat (map (\<lambda>j. map (\<lambda>blk. (c, j, blk)) [0..<16]) js)) = map (\<lambda>j. (c, j, i div 16)) js" for js :: "nat list"
    by (induction js) (simp_all add: filter_map comp_def filter_upt_eq b add.assoc)
  show ?thesis by (subst filter_rows[OF assms(1)]) (use k row in auto)
qed

lemma length_tables_T: "pq_ready T \<Longrightarrow> length (tables_T T) = 256 * ndims T"
proof -
  assume "pq_ready T"
  then obtain T0 where "T = post_load_pq_table T0" by (auto simp: pq_ready_def)
  moreover have "length (fold (\<lambda>(i, j) tt. tt[j * 256 + i := v i j]) ks a) = length a" for v :: "nat \<Rightarrow> nat \<Rightarrow> fl" and ks a
    by (induction ks arbitrary: a) auto
  ultimately show ?thesis by (simp add: post_load_pq_table_def)
qed

text \<open>
  C29. The AVX-512 routine \<^verbatim>\<open>populate_chunk_distances_nt\<close> and the scalar routine with its detour through
  \<^verbatim>\<open>double\<close> fill in the same table, bit for bit.
\<close>

theorem populate_nt_equals_scalar:
  assumes "pq_ready T"
  shows "populate_chunk_distances_nt T query_vec = populate_chunk_distances T query_vec"
proof -
  let ?n = "pq_nchunks T" and ?q = "query_diff T query_vec"
  let ?ks = "[(chunk, j, blk). chunk \<leftarrow> [0..<?n], j \<leftarrow> chunk_dims T chunk, blk \<leftarrow> [0..<16]]"
  define vs where "vs = (\<lambda>j blk. map fsq (map (\<lambda>x. fsub x (?q j)) (take 16 (drop (256 * j + 16 * blk) (tables_T T)))))"
  define step where "step = (\<lambda>(chunk, j, blk) dv. take (256 * chunk + 16 * blk) dv
      @ map2 fadd (take 16 (drop (256 * chunk + 16 * blk) dv)) (vs j blk) @ drop (256 * chunk + 16 * blk + 16) dv)"
  have ok: "pq_ok T" using assms by (simp add: pq_ready_def)
  have lv: "length (vs j blk) = 16" "x < 16 \<Longrightarrow> vs j blk ! x = fsq (fsub (tables_T T ! (256 * j + 16 * blk + x)) (?q j))"
    if "j < ndims T" "blk < 16" for j blk x
  proof -
    have "256 * j + 256 \<le> 256 * ndims T" using that(1) by linarith
    then have le: "256 * j + 16 * blk + 16 \<le> length (tables_T T)" using length_tables_T[OF assms] that(2) by linarith
    then show "length (vs j blk) = 16" by (simp add: vs_def)
    show "vs j blk ! x = fsq (fsub (tables_T T ! (256 * j + 16 * blk + x)) (?q j))" if "x < 16"
      using le that by (simp add: vs_def)
  qed
  have nt: "populate_chunk_distances_nt T query_vec = fold step ?ks (replicate (256 * ?n) (Fin 0))"
    unfolding populate_chunk_distances_nt_def step_def vs_def Let_def by (rule refl)
  have st: "length (step (chunk, j, blk) dv) = 256 * ?n \<and> (p < 256 * ?n \<longrightarrow> step (chunk, j, blk) dv ! p =
      (if 256 * chunk + 16 * blk \<le> p \<and> p < 256 * chunk + 16 * blk + 16
       then fadd (dv ! p) (fsq (fsub (tables_T T ! (256 * j + (p - 256 * chunk))) (?q j))) else dv ! p))"
    if k: "chunk < ?n" "j \<in> set (chunk_dims T chunk)" "blk < 16" and l: "length dv = 256 * ?n" for chunk j blk dv p
  proof -
    have "256 * chunk + 256 \<le> 256 * ?n" using k(1) by linarith
    then have lo: "256 * chunk + 16 * blk + 16 \<le> length dv" using k(3) l by linarith
    note L = lv[OF chunk_dims_bound[OF ok k(1,2)] k(3)]
    have "p - 256 * chunk = 16 * blk + (p - (256 * chunk + 16 * blk))" if "256 * chunk + 16 * blk \<le> p" using that by linarith
    then show ?thesis unfolding step_def using block_step[OF lo L(1)] L(2) L(1) l lo by (auto simp: add.assoc)
  qed
  have "length (fold step ks a) = 256 * ?n" if "set ks \<subseteq> set ?ks" "length a = 256 * ?n" for ks a
    using that st by (induction ks arbitrary: a) auto
  then have len: "length (populate_chunk_distances_nt T query_vec) = 256 * ?n" unfolding nt by simp
  show ?thesis
  proof (rule nth_equalityI)
    show "length (populate_chunk_distances_nt T query_vec) = length (populate_chunk_distances T query_vec)"
      by (simp add: len populate_chunk_distances_def)
    fix p assume "p < length (populate_chunk_distances_nt T query_vec)"
    then have p: "p < 256 * ?n" by (simp add: len)
    define c i where ci: "c = p div 256" "i = p mod 256"
    have c: "c < ?n" "i < 256" "p = 256 * c + i" using p by (auto simp: ci less_mult_imp_div_less mult.commute)
    have "populate_chunk_distances_nt T query_vec ! p = foldl fadd (Fin 0)
        (map (\<lambda>(chunk, j, blk). fsq (fsub (tables_T T ! (256 * j + (p - 256 * chunk))) (?q j)))
          (filter (\<lambda>(chunk, j, blk). 256 * chunk + 16 * blk \<le> p \<and> p < 256 * chunk + 16 * blk + 16) ?ks))"
      unfolding nt using p st by (subst fold_step_nth[where n = "256 * ?n"]) auto
    also have "\<dots> = foldl fadd (Fin 0) (map (\<lambda>j. fsq (fsub (tables_T T ! (256 * j + i)) (?q j))) (chunk_dims T c))"
      unfolding c(3) block_keys[OF c(1,2)] by (simp add: comp_def)
    also have "\<dots> = populate_chunk_distances T query_vec ! p"
      unfolding c(3) populate_chunk_distances_def using slot_bound[OF c(1,2)] query_keys[OF c(1,2)]
      by (subst accum_nth) (simp_all add: case_prod_unfold comp_def)
    finally show "populate_chunk_distances_nt T query_vec ! p = populate_chunk_distances T query_vec ! p" .
  qed
qed

section \<open>The code of a vector\<close>

lemma closest_center_ok:
  assumes "\<forall>i<k. D i \<noteq> NaN" "closest_center D out [0..<k] = (best, o')"
  shows "if \<exists>i<k. D i < f_max then o' < k \<and> best = D o' \<and> (\<forall>i<k. D o' \<le> D i) \<and> (\<forall>i<o'. D o' < D i)
    else best = f_max \<and> o' = out"
  using assms
proof (induction k arbitrary: best o')
  case 0
  then show ?case by (simp add: closest_center_def)
next
  case (Suc k)
  obtain b1 o1 where p: "closest_center D out [0..<k] = (b1, o1)" by fastforce
  have D: "\<forall>i<k. D i \<noteq> NaN" "D k \<noteq> NaN" using Suc.prems(1) by auto
  note IH = Suc.IH[OF D(1) p]
  have b1: "b1 \<noteq> NaN" using IH D(1) by (auto simp: f_max_def split: if_splits)
  have step: "(best, o') = (if D k < b1 then (D k, k) else (b1, o1))"
    using Suc.prems(2) p flt_less[OF D(2) b1] by (simp add: closest_center_def)
  show ?case
  proof (cases "\<exists>i<k. D i < f_max")
    case True
    then have o1: "o1 < k" "b1 = D o1" "\<forall>i<k. D o1 \<le> D i" "\<forall>i<o1. D o1 < D i" using IH by simp_all
    have ex: "\<exists>i<Suc k. D i < f_max" using True less_SucI by blast
    show ?thesis
    proof (cases "D k < D o1")
      case lt: True
      then have "\<forall>i<k. D k < D i" using o1(3) by (meson order_less_le_trans)
      then show ?thesis using ex step lt o1(2) by (auto simp: less_Suc_eq less_imp_le)
    next
      case ge: False
      then show ?thesis using ex step o1 by (auto simp: less_Suc_eq)
    qed
  next
    case False
    then have o1: "b1 = f_max" "o1 = out" using IH by simp_all
    have ge: "f_max \<le> D i" if "i < k" for i using False that by (meson not_less)
    show ?thesis
    proof (cases "D k < f_max")
      case lt: True
      then have "\<forall>i<k. D k < D i" using ge by (meson order_less_le_trans)
      moreover have "\<exists>i<Suc k. D i < f_max" using lt by blast
      ultimately show ?thesis using step lt o1 by (auto simp: less_Suc_eq less_imp_le)
    next
      case nlt: False
      then have "\<not> (\<exists>i<Suc k. D i < f_max)" using False by (auto simp: less_Suc_eq)
      then show ?thesis using step nlt o1 by auto
    qed
  qed
qed

definition pq_finite :: "FixedChunkPQTable \<Rightarrow> bool" where
  "pq_finite T \<longleftrightarrow> (\<forall>x\<in>set (tables T) \<union> set (centroid T). finite_fl x)"

lemma fsub_finite: "finite_fl a \<Longrightarrow> finite_fl b \<Longrightarrow> fsub a b \<noteq> NaN"
  by (auto simp: finite_fl_def fsub_def round32_not_NaN)

lemma fsub_finite_left: "finite_fl a \<Longrightarrow> b \<noteq> NaN \<Longrightarrow> fsub a b \<noteq> NaN"
  by (cases b) (auto simp: finite_fl_def fsub_def round32_not_NaN)

lemma center_dist_nonneg:
  assumes "pq_ok T" "pq_finite T" "length v = ndims T" "\<forall>x\<in>set v. finite_fl x" "c < pq_nchunks T" "i < 256"
  shows "fnonneg (center_dist T v c i)"
  unfolding center_dist_fsum
proof (intro fsum_nonneg ballI)
  fix x assume "x \<in> set (map (\<lambda>d. fsq (fsub (tables T ! (i * ndims T + d)) (query_diff T v d))) (chunk_dims T c))"
  then obtain d where d: "d \<in> set (chunk_dims T c)" "x = fsq (fsub (tables T ! (i * ndims T + d)) (query_diff T v d))" by auto
  have n: "d < ndims T" by (rule chunk_dims_bound[OF assms(1,5) d(1)])
  then have "rearrangement T ! d \<in> set (rearrangement T)" using assms(1) by (intro nth_mem) (simp add: pq_ok_def)
  then have r: "rearrangement T ! d < ndims T" using assms(1) by (simp add: pq_ok_def)
  then have "finite_fl (v ! (rearrangement T ! d))" "finite_fl (centroid T ! (rearrangement T ! d))"
    using assms(1-4) by (auto simp: pq_finite_def pq_ok_def)
  then have "query_diff T v d \<noteq> NaN" unfolding query_diff_def by (rule fsub_finite)
  moreover have "finite_fl (tables T ! (i * ndims T + d))" using table_entry[OF assms(1,6) n] assms(2) by (simp add: pq_finite_def)
  ultimately show "fnonneg x" unfolding d(2) by (intro fsq_nonneg fsub_finite_left)
qed

text \<open>
  C24. For each chunk the code that \<^verbatim>\<open>deflate_vec\<close> gives to a vector is the smallest index of a centre at least
  distance in the table that \<^verbatim>\<open>populate_chunk_distances\<close> builds for the same vector: the vector is encoded by
  the entries a query for it finds closest. The output is left alone only when no centre is closer than the
  largest \<^verbatim>\<open>float\<close>.
\<close>

theorem deflate_vec_closest:
  assumes "pq_ready T" "pq_finite T" "length v = ndims T" "\<forall>x\<in>set v. finite_fl x" "c < pq_nchunks T"
  shows "let D = (\<lambda>i. populate_chunk_distances T v ! (256 * c + i)); code = deflate_vec T v out ! c
    in if \<exists>i<256. flt (D i) f_max then code < 256 \<and> (\<forall>i<256. fle (D code) (D i)) \<and> (\<forall>i<code. flt (D code) (D i))
       else code = out ! c"
proof -
  let ?D = "center_dist T v c"
  have ok: "pq_ok T" using assms(1) by (simp add: pq_ready_def)
  have n: "?D i \<noteq> NaN" if "i < 256" for i using center_dist_nonneg[OF ok assms(2-5) that] by (auto simp: fnonneg_def)
  obtain best k where p: "closest_center ?D (out ! c) [0..<256] = (best, k)" by fastforce
  have k: "deflate_vec T v out ! c = k" using assms(5) p by (simp add: deflate_vec_def)
  have fm: "f_max \<noteq> NaN" by (simp add: f_max_def)
  from closest_center_ok[OF _ p] n have r: "if \<exists>i<256. ?D i < f_max then k < 256 \<and> best = ?D k \<and> (\<forall>i<256. ?D k \<le> ?D i) \<and> (\<forall>i<k. ?D k < ?D i)
    else best = f_max \<and> k = out ! c" by blast
  have ex: "(\<exists>i<256. flt (?D i) f_max) \<longleftrightarrow> (\<exists>i<256. ?D i < f_max)" using n flt_less[OF _ fm] by auto
  have P: "populate_chunk_distances T v ! (256 * c + i) = ?D i" if "i < 256" for i by (rule populate_nth[OF assms(1,5) that])
  show ?thesis
  proof (cases "\<exists>i<256. ?D i < f_max")
    case True
    then have K: "k < 256" "\<forall>i<256. ?D k \<le> ?D i" "\<forall>i<k. ?D k < ?D i" using r by simp_all
    then have "\<forall>i<256. fle (?D k) (?D i)" "\<forall>i<k. flt (?D k) (?D i)" using n fle_le flt_less by auto
    then show ?thesis unfolding Let_def k using True ex P K(1) by auto
  next
    case False
    then have "\<not> (\<exists>i<256. flt (populate_chunk_distances T v ! (256 * c + i)) f_max)" using ex P by auto
    then show ?thesis unfolding Let_def k using r False by auto
  qed
qed

section \<open>A one-dimensional table\<close>

definition ex_pq0 :: FixedChunkPQTable where
  "ex_pq0 = \<lparr>tables = map (\<lambda>i. Fin (of_nat i)) [0..<256], centroid = [Fin 0], ndims = 1, pq_nchunks = 1, chunk_offsets = [0, 1],
     rearrangement = [0], tables_T = [], all_to_all_dists = []\<rparr>"

definition ex_pq :: FixedChunkPQTable where
  "ex_pq = post_load_pq_table ex_pq0"

lemma ex_pq_fields [simp]:
  "tables ex_pq = map (\<lambda>i. Fin (of_nat i)) [0..<256]" "centroid ex_pq = [Fin 0]" "ndims ex_pq = 1" "pq_nchunks ex_pq = 1"
  "chunk_offsets ex_pq = [0, 1]" "rearrangement ex_pq = [0]"
  by (simp_all add: ex_pq_def) (simp_all add: ex_pq0_def post_load_pq_table_def)

lemma ex_pq_ready: "pq_ready ex_pq" "pq_finite ex_pq"
proof -
  have "\<exists>T0. ex_pq = post_load_pq_table T0" unfolding ex_pq_def by blast
  then show "pq_ready ex_pq" by (simp add: pq_ready_def pq_ok_def)
  show "pq_finite ex_pq" by (auto simp: pq_finite_def finite_fl_def)
qed

theorem populate_nt_equals_scalar_witness:
  "populate_chunk_distances_nt ex_pq [Fin 0] = populate_chunk_distances ex_pq [Fin 0]"
  by (rule populate_nt_equals_scalar[OF ex_pq_ready(1)])

theorem compute_pq_dists_metric_witness:
  "\<exists>d. compute_pq_dists ex_pq [3, 7, 3] 0 [1] = Inr [d] \<and> compute_pq_dists ex_pq [3, 7, 3] 1 [0] = Inr [d] \<and> fnonneg d"
proof -
  have "codes_ok ex_pq [3, 7, 3] 0" "codes_ok ex_pq [3, 7, 3] 1" "\<forall>x\<in>set (tables ex_pq). finite_fl x"
    by (simp_all add: codes_ok_def finite_fl_def)
  from compute_pq_dists_metric[OF ex_pq_ready(1) this(3,1,2)] show ?thesis by blast
qed

theorem deflate_vec_closest_witness:
  "deflate_vec ex_pq [Fin 0] [9] ! 0 < 256
   \<and> fle (populate_chunk_distances ex_pq [Fin 0] ! (256 * 0 + deflate_vec ex_pq [Fin 0] [9] ! 0))
        (populate_chunk_distances ex_pq [Fin 0] ! (256 * 0 + 7))"
proof -
  have z: "fsub (Fin 0) (Fin 0) = Fin 0" "fsq (Fin 0) = Fin 0" "fadd (Fin 0) (Fin 0) = Fin 0"
    by (simp_all add: fsub_def fsq_def)
  have "populate_chunk_distances ex_pq [Fin 0] ! (256 * 0 + 0) = Fin 0"
    by (subst populate_nth[OF ex_pq_ready(1)]) (simp_all add: center_dist_def chunk_dims_def query_diff_def z)
  then have "\<exists>i<256. flt (populate_chunk_distances ex_pq [Fin 0] ! (256 * 0 + i)) f_max"
    by (intro exI[of _ 0]) (simp add: f_max_def)
  with deflate_vec_closest[OF ex_pq_ready, of "[Fin 0]" 0 "[9]"] show ?thesis
    by (simp add: Let_def finite_fl_def)
qed

end
