(* ===== verification/PQ_Pivots.thy ===== *)
theory PQ_Pivots
  imports PQ_Table
begin

text \<open>
  The construction of a pivot file (\<^verbatim>\<open>generate_pq_pivots\<close> of \<^verbatim>\<open>src/utils/partition_and_pq.cpp\<close>): the training
  vectors are centred, the dimensions are distributed over the chunks, k-means runs in each chunk, and the
  result is written as five arrays of one file. K-means draws random numbers and calls a BLAS library; it is
  the parameter \<open>kmeans\<close>, from the number of centres, the size of a chunk and its training data to the pivots.
  The bytes of a \<^verbatim>\<open>float\<close> are the parameter \<open>bits\<close>.
\<close>

section \<open>Distributing the dimensions\<close>

text \<open>
  The quotient of two 32-bit numbers is formed in \<^verbatim>\<open>double\<close>; it is precise enough for its floor and ceiling to
  be those of the exact quotient.
\<close>

definition low_val :: "nat \<Rightarrow> nat \<Rightarrow> nat" where
  "low_val nd n = nd div n"

definition high_val :: "nat \<Rightarrow> nat \<Rightarrow> nat" where
  "high_val nd n = DIV_ROUND_UP nd n"

record bin_state =
  bin_to_dims :: "nat list list"
  cur_num_high :: nat
  cur_bin_threshold :: nat

text \<open>The search for the bin with the least load that has room; the loads are never changed.\<close>

definition best_bin :: "fl list \<Rightarrow> nat list list \<Rightarrow> nat \<Rightarrow> nat option" where
  "best_bin bin_loads bins thr =
     fst (fold (\<lambda>b (best, load). if flt (bin_loads ! b) load \<and> length (bins ! b) < thr then (Some b, bin_loads ! b) else (best, load))
       [0..<length bins] (None, f_max))"

definition assign_dim :: "nat \<Rightarrow> nat \<Rightarrow> nat \<Rightarrow> bin_state \<Rightarrow> bin_state outcome" where
  "assign_dim nd n d s =
     (case best_bin (replicate n (Fin 0)) (bin_to_dims s) (cur_bin_threshold s) of
        None \<Rightarrow> Inl Undefined
      | Some b \<Rightarrow>
          let bins = (bin_to_dims s)[b := bin_to_dims s ! b @ [d]]
          in Inr (if length (bins ! b) = high_val nd n
                  then s\<lparr>bin_to_dims := bins, cur_num_high := cur_num_high s + 1,
                         cur_bin_threshold := if cur_num_high s + 1 = nd - low_val nd n * n then low_val nd n else cur_bin_threshold s\<rparr>
                  else s\<lparr>bin_to_dims := bins\<rparr>))"

definition assign_dims :: "nat \<Rightarrow> nat \<Rightarrow> bin_state outcome" where
  "assign_dims nd n =
     fold (\<lambda>d r. and_then r (assign_dim nd n d)) [0..<nd]
       (Inr \<lparr>bin_to_dims = replicate n [], cur_num_high = 0, cur_bin_threshold = high_val nd n\<rparr>)"

definition bin_rearrangement :: "nat list list \<Rightarrow> nat list" where
  "bin_rearrangement bins = concat bins"

definition bin_offsets :: "nat list list \<Rightarrow> nat \<Rightarrow> nat list" where
  "bin_offsets bins nd =
     fold (\<lambda>b offs. if 0 < b then offs @ [offs ! (b - 1) + length (bins ! (b - 1))] else offs) [0..<length bins] [0] @ [nd]"

section \<open>The first bins get one dimension more\<close>

definition bin_start :: "nat \<Rightarrow> nat \<Rightarrow> nat \<Rightarrow> nat" where
  "bin_start nd n b = b * (nd div n) + min b (nd mod n)"

definition bins_after :: "nat \<Rightarrow> nat \<Rightarrow> nat \<Rightarrow> nat list list" where
  "bins_after nd n d = map (\<lambda>b. [bin_start nd n b ..< min (bin_start nd n (Suc b)) d]) [0..<n]"

lemma best_bin_first:
  assumes "length loads = length bins" "\<forall>x\<in>set loads. x = Fin 0" "b < length bins" "length (bins ! b) < thr"
    and "\<forall>b'<b. thr \<le> length (bins ! b')"
  shows "best_bin loads bins thr = Some b"
proof -
  let ?f = "\<lambda>b (best, load). if flt (loads ! b) load \<and> length (bins ! b) < thr then (Some b, loads ! b) else (best, load)"
  have z: "loads ! x = Fin 0" if "x < length bins" for x using assms(1,2) that by simp
  have pre: "fold ?f [0..<k] (None, f_max) = (None, f_max)" if "k \<le> b" for k
    using that
  proof (induction k)
    case (Suc k)
    then have "\<not> length (bins ! k) < thr" using assms(5) by (simp add: not_less)
    then show ?case using Suc by simp
  qed simp
  have "fold ?f [0..<Suc b] (None, f_max) = (Some b, Fin 0)"
    using pre[of b] z[OF assms(3)] assms(4) by (simp add: f_max_def)
  moreover have "fold ?f ks (Some b, Fin 0) = (Some b, Fin 0)" if "\<forall>x\<in>set ks. x < length bins" for ks
    using that z by (induction ks) auto
  moreover have "[0..<length bins] = [0..<Suc b] @ [Suc b..<length bins]"
  proof -
    have "Suc b + (length bins - Suc b) = length bins" using assms(3) by linarith
    then show ?thesis using upt_add_eq_append[of 0 "Suc b" "length bins - Suc b"] by (simp only: le0)
  qed
  ultimately show ?thesis unfolding best_bin_def by (simp del: upt_Suc)
qed

lemma bin_start_Suc: "bin_start nd n (Suc b) = bin_start nd n b + nd div n + (if b < nd mod n then 1 else 0)"
  by (simp add: bin_start_def min_def)

lemma bin_start_mono: "b \<le> b' \<Longrightarrow> bin_start nd n b \<le> bin_start nd n b'"
  by (induction b' rule: dec_induct) (auto simp: bin_start_Suc)

lemma bin_start_ends: "0 < n \<Longrightarrow> bin_start nd n 0 = 0" "0 < n \<Longrightarrow> bin_start nd n n = nd"
proof -
  assume "0 < n"
  then have "nd mod n < n" by simp
  then show "bin_start nd n n = nd" by (simp add: bin_start_def min_def)
qed (simp add: bin_start_def)

lemma current_bin:
  assumes "0 < n" "d < nd"
  obtains b where "b < n" "bin_start nd n b \<le> d" "d < bin_start nd n (Suc b)"
proof -
  have "\<exists>b<k. bin_start nd n b \<le> d \<and> d < bin_start nd n (Suc b)" if "d < bin_start nd n k" for k
    using that
  proof (induction k)
    case (Suc k)
    then show ?case by (cases "d < bin_start nd n k") (auto intro: less_SucI)
  qed (simp add: bin_start_def)
  from this[of n] show thesis using that bin_start_ends(2)[OF assms(1), of nd] assms(2) by auto
qed

definition bins_inv :: "nat \<Rightarrow> nat \<Rightarrow> nat \<Rightarrow> bin_state \<Rightarrow> bool" where
  "bins_inv nd n d s \<longleftrightarrow> bin_to_dims s = bins_after nd n d
     \<and> cur_bin_threshold s = (if 0 < nd mod n \<and> bin_start nd n (nd mod n) \<le> d then nd div n else high_val nd n)
     \<and> (0 < nd mod n \<longrightarrow> cur_num_high s = card {b. b < nd mod n \<and> bin_start nd n (Suc b) \<le> d})"

lemma bins_after_step:
  assumes b: "b < n" "bin_start nd n b \<le> d" "d < bin_start nd n (Suc b)"
  shows "(bins_after nd n d)[b := bins_after nd n d ! b @ [d]] = bins_after nd n (Suc d)"
proof (rule nth_equalityI)
  let ?st = "bin_start nd n"
  show "length ((bins_after nd n d)[b := bins_after nd n d ! b @ [d]]) = length (bins_after nd n (Suc d))" by (simp add: bins_after_def)
  fix y assume "y < length ((bins_after nd n d)[b := bins_after nd n d ! b @ [d]])"
  then have y: "y < n" by (simp add: bins_after_def)
  consider "y = b" | "y < b" | "b < y" by linarith
  then show "(bins_after nd n d)[b := bins_after nd n d ! b @ [d]] ! y = bins_after nd n (Suc d) ! y"
  proof cases
    case 1
    have "min (?st (Suc b)) d = d" "min (?st (Suc b)) (Suc d) = Suc d" using b(3) by auto
    then show ?thesis using 1 b(1,2) by (simp add: bins_after_def)
  next
    case 2
    then have "?st (Suc y) \<le> d" using bin_start_mono[of "Suc y" b nd n] b(2) by linarith
    then show ?thesis using 2 y b(1) by (simp add: bins_after_def min_def)
  next
    case 3
    then have "Suc d \<le> ?st y" using bin_start_mono[of "Suc b" y nd n] b(3) by linarith
    then show ?thesis using 3 y b(1) by (simp add: bins_after_def)
  qed
qed

lemma full_bins:
  assumes "bin_start nd n b \<le> d" "d < bin_start nd n (Suc b)"
  shows "{x. x < H \<and> bin_start nd n (Suc x) \<le> d} = {..<min b H}"
proof (rule set_eqI)
  fix x
  have "bin_start nd n (Suc x) \<le> d \<longleftrightarrow> x < b"
    using assms bin_start_mono[of "Suc x" b nd n] bin_start_mono[of "Suc b" "Suc x" nd n] by (meson Suc_leI le_trans not_le Suc_le_mono)
  then show "x \<in> {x. x < H \<and> bin_start nd n (Suc x) \<le> d} \<longleftrightarrow> x \<in> {..<min b H}" by auto
qed

lemma full_bins_end:
  assumes "0 < nd div n" "Suc d = bin_start nd n (Suc b)"
  shows "{x. x < H \<and> bin_start nd n (Suc x) \<le> Suc d} = {..<min (Suc b) H}"
proof (rule full_bins)
  show "Suc d < bin_start nd n (Suc (Suc b))" using assms by (simp add: bin_start_Suc)
qed (use assms(2) in simp)

lemma best_bin_current:
  assumes b: "b < n" "bin_start nd n b \<le> d" "d < bin_start nd n (Suc b)" and inv: "bins_inv nd n d s"
  shows "best_bin (replicate n (Fin 0)) (bin_to_dims s) (cur_bin_threshold s) = Some b"
proof (rule best_bin_first)
  let ?st = "bin_start nd n" and ?H = "nd mod n" and ?lo = "nd div n"
  have hi: "high_val nd n = ?lo + (if 0 < ?H then 1 else 0)" by (simp add: high_val_def DIV_ROUND_UP_def)
  have bb: "bin_to_dims s = bins_after nd n d" using inv by (simp add: bins_inv_def)
  have H: "?st ?H \<le> d \<longleftrightarrow> ?H \<le> b"
    using b bin_start_mono[of "Suc b" ?H nd n] bin_start_mono[of ?H b nd n] by (meson Suc_leI le_trans not_le)
  have ba: "bins_after nd n x ! y = [?st y ..< min (?st (Suc y)) x]" if "y < n" for x y using that by (simp add: bins_after_def)
  show "\<forall>b'<b. cur_bin_threshold s \<le> length (bin_to_dims s ! b')"
  proof (intro allI impI)
    fix b' assume b': "b' < b"
    then have "?st (Suc b') \<le> d" using bin_start_mono[of "Suc b'" b nd n] b(2) by linarith
    then have "length (bin_to_dims s ! b') = ?lo + (if b' < ?H then 1 else 0)"
      unfolding bb using ba[of b' d] b' b(1) by (simp add: min_def bin_start_Suc)
    then show "cur_bin_threshold s \<le> length (bin_to_dims s ! b')" using inv H b' hi by (auto simp: bins_inv_def)
  qed
  show "length (bin_to_dims s ! b) < cur_bin_threshold s"
    using inv H b hi ba[OF b(1), of d] unfolding bb by (auto simp: bins_inv_def bin_start_Suc min_def split: if_splits)
qed (use b(1) inv in \<open>simp_all add: bins_inv_def bins_after_def\<close>)

lemma assign_dim_run:
  assumes b: "b < n" "bin_start nd n b \<le> d" "d < bin_start nd n (Suc b)" and inv: "bins_inv nd n d s"
  shows "assign_dim nd n d s = Inr (if Suc d - bin_start nd n b = high_val nd n
      then s\<lparr>bin_to_dims := bins_after nd n (Suc d), cur_num_high := cur_num_high s + 1,
             cur_bin_threshold := if cur_num_high s + 1 = nd mod n then nd div n else cur_bin_threshold s\<rparr>
      else s\<lparr>bin_to_dims := bins_after nd n (Suc d)\<rparr>)"
proof -
  have mx: "nd - low_val nd n * n = nd mod n" by (simp add: low_val_def modulo_nat_def)
  have bb: "bin_to_dims s = bins_after nd n d" using inv by (simp add: bins_inv_def)
  have "min (bin_start nd n (Suc b)) (Suc d) = Suc d" using b(3) by auto
  then have "length (bins_after nd n (Suc d) ! b) = Suc d - bin_start nd n b" using b(1) by (simp add: bins_after_def del: upt_Suc)
  with best_bin_current[OF b inv] show ?thesis
    unfolding assign_dim_def Let_def mx bb bins_after_step[OF b] by (simp add: bins_after_step[OF b] low_val_def)
qed

text \<open>The first bins are full once the last of them is.\<close>

lemma start_reached:
  assumes "0 < nd div n" "bin_start nd n b \<le> d" "d < bin_start nd n (Suc b)"
  shows "bin_start nd n H \<le> Suc d \<longleftrightarrow> (if Suc d = bin_start nd n (Suc b) then H \<le> Suc b else H \<le> b)"
proof (cases "Suc d = bin_start nd n (Suc b)")
  case True
  have "bin_start nd n H \<le> Suc d \<longleftrightarrow> H \<le> Suc b"
  proof
    assume "bin_start nd n H \<le> Suc d"
    then show "H \<le> Suc b"
      using True assms(1) bin_start_mono[of "Suc (Suc b)" H nd n] bin_start_Suc[of nd n "Suc b"] by (cases "H \<le> Suc b") auto
  qed (use True bin_start_mono in simp)
  then show ?thesis using True by simp
next
  case False
  then have "Suc d < bin_start nd n (Suc b)" using assms(3) by simp
  then have "bin_start nd n H \<le> Suc d \<longleftrightarrow> H \<le> b"
    using assms(2) bin_start_mono[of "Suc b" H nd n] bin_start_mono[of H b nd n] by (meson Suc_leI le_SucI le_trans not_le)
  then show ?thesis using False by simp
qed

lemma assign_dim_ok:
  assumes n: "0 < n" "n \<le> nd" and d: "d < nd" and inv: "bins_inv nd n d s"
  shows "\<exists>s'. assign_dim nd n d s = Inr s' \<and> bins_inv nd n (Suc d) s'"
proof -
  let ?st = "bin_start nd n" and ?H = "nd mod n"
  obtain b where b: "b < n" "?st b \<le> d" "d < ?st (Suc b)" using current_bin[OF n(1) d] by blast
  have lo: "0 < nd div n" using n by (simp add: div_greater_zero_iff)
  have hi: "high_val nd n = nd div n + (if 0 < ?H then 1 else 0)" by (simp add: high_val_def DIV_ROUND_UP_def)
  note run = assign_dim_run[OF b inv] and reach = start_reached[OF lo b(2,3), of ?H]
  have H: "?st ?H \<le> d \<longleftrightarrow> ?H \<le> b"
    using b bin_start_mono[of "Suc b" ?H nd n] bin_start_mono[of ?H b nd n] by (meson Suc_leI le_trans not_le)
  show ?thesis
  proof (cases "?H = 0")
    case True
    then show ?thesis using run inv by (auto simp: bins_inv_def)
  next
    case False
    have cnt: "cur_num_high s = min b ?H" using inv False full_bins[OF b(2,3), of ?H] by (simp add: bins_inv_def)
    show ?thesis
    proof (cases "b < ?H \<and> Suc d = ?st (Suc b)")
      case True
      then have "Suc d - ?st b = high_val nd n" using hi by (simp add: bin_start_Suc)
      then show ?thesis using run inv True False cnt full_bins_end[OF lo, of d b ?H] H reach by (auto simp: bins_inv_def)
    next
      case F: False
      have "Suc d - ?st b \<noteq> high_val nd n" using F b False hi by (auto simp: bin_start_Suc split: if_splits)
      moreover have "?st ?H \<le> Suc d \<longleftrightarrow> ?H \<le> b" using reach F by (auto split: if_splits)
      moreover have "{x. x < ?H \<and> ?st (Suc x) \<le> Suc d} = {..<min b ?H}"
      proof (cases "Suc d = ?st (Suc b)")
        case True
        then have "?H \<le> b" using F by auto
        then show ?thesis using full_bins_end[OF lo True, of ?H] by (simp add: min_def)
      next
        case f: False
        then show ?thesis using b by (intro full_bins) auto
      qed
      ultimately show ?thesis using run inv False cnt H by (auto simp: bins_inv_def)
    qed
  qed
qed

lemma assign_dims_ok:
  assumes n: "0 < n" "n \<le> nd"
  shows "\<exists>s. assign_dims nd n = Inr s \<and> bin_to_dims s = map (\<lambda>b. [bin_start nd n b ..< bin_start nd n (Suc b)]) [0..<n]"
proof -
  let ?s0 = "\<lparr>bin_to_dims = replicate n [], cur_num_high = 0, cur_bin_threshold = high_val nd n\<rparr>"
  have "bins_after nd n 0 = replicate n []" by (simp add: bins_after_def map_replicate_const)
  moreover have lo: "0 < nd div n" using n by (simp add: div_greater_zero_iff)
  moreover have "{b. b < nd mod n \<and> bin_start nd n (Suc b) \<le> 0} = {}" using lo by (auto simp: bin_start_Suc)
  ultimately have init: "bins_inv nd n 0 ?s0" using n lo by (auto simp: bins_inv_def bin_start_def)
  have "\<exists>s. fold (\<lambda>d r. and_then r (assign_dim nd n d)) [0..<k] (Inr ?s0) = Inr s \<and> bins_inv nd n k s" if "k \<le> nd" for k
    using that
  proof (induction k)
    case (Suc k)
    then obtain s where "fold (\<lambda>d r. and_then r (assign_dim nd n d)) [0..<k] (Inr ?s0) = Inr s" "bins_inv nd n k s" by auto
    then show ?case using assign_dim_ok[OF n, of k s] Suc.prems by auto
  qed (use init in simp)
  from this[of nd] obtain s where s: "assign_dims nd n = Inr s" "bins_inv nd n nd s" by (auto simp: assign_dims_def)
  have "min (bin_start nd n (Suc b)) nd = bin_start nd n (Suc b)" if "b < n" for b
    using bin_start_mono[of "Suc b" n nd n] bin_start_ends(2)[OF n(1), of nd] that by simp
  then have "bins_after nd n nd = map (\<lambda>b. [bin_start nd n b ..< bin_start nd n (Suc b)]) [0..<n]" by (simp add: bins_after_def)
  then show ?thesis using s by (simp add: bins_inv_def)
qed

lemma layout_of_bins:
  assumes n: "0 < n" and bins: "bins = map (\<lambda>b. [bin_start nd n b ..< bin_start nd n (Suc b)]) [0..<n]"
  shows "bin_rearrangement bins = [0..<nd]" "bin_offsets bins nd = map (bin_start nd n) [0..<Suc n]"
proof -
  have "concat (map (\<lambda>b. [bin_start nd n b ..< bin_start nd n (Suc b)]) [0..<k]) = [0..<bin_start nd n k]" for k
  proof (induction k)
    case (Suc k)
    have "bin_start nd n k \<le> bin_start nd n (Suc k)" by (rule bin_start_mono) simp
    then show ?case using Suc upt_add_eq_append[of 0 "bin_start nd n k" "bin_start nd n (Suc k) - bin_start nd n k"] by simp
  qed (simp add: bin_start_def)
  then show "bin_rearrangement bins = [0..<nd]" using bin_start_ends(2)[OF n] by (simp add: bin_rearrangement_def bins)
  let ?f = "\<lambda>b offs. if 0 < b then offs @ [offs ! (b - 1) + length (bins ! (b - 1))] else offs"
  have "fold ?f [0..<Suc k] [0] = map (bin_start nd n) [0..<Suc k]" if "k < n" for k
    using that
  proof (induction k)
    case (Suc k)
    have "bin_start nd n k \<le> bin_start nd n (Suc k)" by (rule bin_start_mono) simp
    then have "bin_start nd n k + length (bins ! k) = bin_start nd n (Suc k)" using Suc.prems by (simp add: bins)
    moreover have "map (bin_start nd n) [0..<Suc k] ! k = bin_start nd n k" by (simp add: nth_append)
    ultimately show ?case using Suc by (simp add: nth_append)
  qed (simp add: bin_start_def)
  from this[of "n - 1"] have "fold ?f [0..<n] [0] = map (bin_start nd n) [0..<n]" using n by simp
  then show "bin_offsets bins nd = map (bin_start nd n) [0..<Suc n]"
    using bin_start_ends(2)[OF n, of nd] unfolding bin_offsets_def by (simp add: bins)
qed

section \<open>The pivot file\<close>

text \<open>\<^verbatim>\<open>memcpy(dst + pos, vs, ...)\<close>.\<close>

definition blit :: "'a list \<Rightarrow> nat \<Rightarrow> 'a list \<Rightarrow> 'a list" where
  "blit dst pos vs = take pos dst @ vs @ drop (pos + length vs) dst"

definition train_centroid :: "fl list \<Rightarrow> nat \<Rightarrow> nat \<Rightarrow> fl list" where
  "train_centroid train num_train nd =
     map (\<lambda>d. fdiv (foldl (\<lambda>acc p. fadd acc (train ! (p * nd + d))) (Fin 0) [0..<num_train]) (round32 (of_nat num_train))) [0..<nd]"

definition center_data :: "fl list \<Rightarrow> fl list \<Rightarrow> nat \<Rightarrow> nat \<Rightarrow> fl list" where
  "center_data train cen num_train nd = map (\<lambda>k. fsub (train ! k) (cen ! (k mod nd))) [0..<num_train * nd]"

definition chunk_data :: "fl list \<Rightarrow> nat \<Rightarrow> nat \<Rightarrow> nat \<Rightarrow> nat \<Rightarrow> fl list" where
  "chunk_data data num_train nd off csz = concat (map (\<lambda>j. take csz (drop (j * nd + off) data)) [0..<num_train])"

text \<open>The pivots of all chunks; the array is not initialised, and every entry of it is copied from some chunk.\<close>

definition full_pivots :: "nat \<Rightarrow> nat \<Rightarrow> nat list \<Rightarrow> (nat \<Rightarrow> fl list) \<Rightarrow> fl list \<Rightarrow> fl list" where
  "full_pivots num_centers nd offs cur_pivots init =
     fold (\<lambda>(i, j) full. let csz = offs ! (i + 1) - offs ! i
                         in blit full (j * nd + offs ! i) (take csz (drop (j * csz) (cur_pivots i))))
       (List.product [0..<length offs - 1] [0..<num_centers]) init"

definition save_pq_pivots :: "dfile \<Rightarrow> nat list \<Rightarrow> nat list \<Rightarrow> nat list \<Rightarrow> nat list \<Rightarrow> nat \<Rightarrow> nat \<Rightarrow> dfile outcome" where
  "save_pq_pivots f pivots cen rearr offs num_centers nd =
     (let c0 = METADATA_SIZE in
      and_then (save_bin 4 f pivots num_centers nd c0) (\<lambda>(f, b). let c1 = c0 + b in
      and_then (save_bin 4 f cen nd 1 c1) (\<lambda>(f, b). let c2 = c1 + b in
      and_then (save_bin 4 f rearr (length rearr) 1 c2) (\<lambda>(f, b). let c3 = c2 + b in
      and_then (save_bin 4 f offs (length offs) 1 c3) (\<lambda>(f, b). let c4 = c3 + b in
      and_then (save_bin 8 f [c0, c1, c2, c3, c4] 5 1 0) (\<lambda>(f, b). Inr f))))))"

definition generate_pq_pivots ::
  "(fl \<Rightarrow> nat) \<Rightarrow> (nat \<Rightarrow> nat \<Rightarrow> fl list \<Rightarrow> fl list) \<Rightarrow> fl list \<Rightarrow> dfile \<Rightarrow> fl list \<Rightarrow> nat \<Rightarrow> nat \<Rightarrow> nat \<Rightarrow> nat
   \<Rightarrow> (int \<times> dfile) outcome" where
  "generate_pq_pivots bits kmeans init f train num_train nd num_centers num_pq_chunks =
     (if num_pq_chunks > nd then Inr (- 1, f)
      else if num_pq_chunks = 0 \<or> length train < num_train * nd then Inl Undefined
      else let cen = train_centroid train num_train nd; data = center_data train cen num_train nd
           in and_then (assign_dims nd num_pq_chunks) (\<lambda>s.
              let rearr = bin_rearrangement (bin_to_dims s); offs = bin_offsets (bin_to_dims s) nd;
                  cur_pivots = (\<lambda>i. kmeans num_centers (offs ! (i + 1) - offs ! i)
                     (chunk_data data num_train nd (offs ! i) (offs ! (i + 1) - offs ! i)));
                  full = full_pivots num_centers nd offs cur_pivots init
              in and_then (save_pq_pivots f (map bits full) (map bits cen) rearr offs num_centers nd) (\<lambda>f. Inr (0, f))))"

lemma blit_nth:
  assumes "pos + length vs \<le> length dst" "q < length dst"
  shows "blit dst pos vs ! q = (if pos \<le> q \<and> q < pos + length vs then vs ! (q - pos) else dst ! q)"
  using assms by (auto simp: blit_def nth_append min_def)

lemma length_blit: "pos + length vs \<le> length dst \<Longrightarrow> length (blit dst pos vs) = length dst"
  by (simp add: blit_def)

lemma fold_blit:
  assumes "\<forall>k\<in>set ks. pos k + length (vs k) \<le> length a"
  shows "length (fold (\<lambda>k a. blit a (pos k) (vs k)) ks a) = length a"
    and "q < length a \<Longrightarrow> \<forall>k\<in>set ks. \<not> (pos k \<le> q \<and> q < pos k + length (vs k)) \<Longrightarrow> fold (\<lambda>k a. blit a (pos k) (vs k)) ks a ! q = a ! q"
proof -
  show "length (fold (\<lambda>k a. blit a (pos k) (vs k)) ks a) = length a"
    using assms by (induction ks arbitrary: a) (simp_all add: length_blit)
  show "fold (\<lambda>k a. blit a (pos k) (vs k)) ks a ! q = a ! q"
    if "q < length a" "\<forall>k\<in>set ks. \<not> (pos k \<le> q \<and> q < pos k + length (vs k))"
    using assms that
  proof (induction ks arbitrary: a)
    case (Cons k ks)
    have l: "length (blit a (pos k) (vs k)) = length a" using Cons.prems(1) by (intro length_blit) simp
    have "blit a (pos k) (vs k) ! q = a ! q" using Cons.prems by (subst blit_nth) auto
    then show ?case using Cons.IH[of "blit a (pos k) (vs k)"] Cons.prems l by simp
  qed simp
qed

lemma fold_blit_nth:
  assumes "\<forall>k\<in>set ks. pos k + length (vs k) \<le> length a" "k0 \<in> set ks" "pos k0 \<le> q" "q < pos k0 + length (vs k0)"
    and "\<forall>k\<in>set ks. pos k \<le> q \<and> q < pos k + length (vs k) \<longrightarrow> k = k0"
  shows "fold (\<lambda>k a. blit a (pos k) (vs k)) ks a ! q = vs k0 ! (q - pos k0)"
  using assms
proof (induction ks arbitrary: a)
  case (Cons k ks)
  let ?a = "blit a (pos k) (vs k)"
  have l: "length ?a = length a" using Cons.prems(1) by (intro length_blit) simp
  have q: "q < length a" using Cons.prems(1,2,4) by (meson order_less_le_trans)
  show ?case
  proof (cases "k0 \<in> set ks")
    case True
    have "fold (\<lambda>k a. blit a (pos k) (vs k)) ks ?a ! q = vs k0 ! (q - pos k0)"
      by (rule Cons.IH[OF _ True Cons.prems(3,4)]) (use Cons.prems(1,5) l in simp_all)
    then show ?thesis by simp
  next
    case False
    then have k: "k = k0" "\<forall>k\<in>set ks. \<not> (pos k \<le> q \<and> q < pos k + length (vs k))" using Cons.prems(2,5) by auto
    have "fold (\<lambda>k a. blit a (pos k) (vs k)) ks ?a ! q = ?a ! q"
      using Cons.prems(1) by (intro fold_blit(2) k(2)) (simp_all add: l q)
    moreover have "?a ! q = vs k0 ! (q - pos k0)" using Cons.prems(1,3,4) q k(1) by (subst blit_nth) auto
    ultimately show ?thesis by simp
  qed
qed simp

text \<open>The five arrays are found at the recorded offsets.\<close>

lemma save_pq_pivots_load:
  assumes len: "length pv = 256 * nd" "length cen = nd" "length rearr = nd" "length offs = n + 1"
    and sz: "nd < 2 ^ 32" "n + 1 < 2 ^ 32" "\<forall>x\<in>set pv \<union> set cen \<union> set rearr \<union> set offs. x < 2 ^ 32"
  shows "\<exists>f'. save_pq_pivots f pv cen rearr offs 256 nd = Inr f' \<and> load_pq_pivots_new f' n 0 =
    Inr \<lparr>tables = map fl_of_bits pv, centroid = map fl_of_bits cen, ndims = nd, pq_nchunks = n,
         chunk_offsets = offs, rearrangement = rearr, tables_T = [], all_to_all_dists = []\<rparr>"
proof -
  define c0 c1 c2 c3 c4 where c: "c0 = METADATA_SIZE" "c1 = c0 + (8 + 256 * nd * 4)" "c2 = c1 + (8 + nd * 1 * 4)"
    "c3 = c2 + (8 + nd * 1 * 4)" "c4 = c3 + (8 + (n + 1) * 1 * 4)"
  have e: "\<forall>x\<in>set pv. x < 256 ^ 4" "\<forall>x\<in>set cen. x < 256 ^ 4" "\<forall>x\<in>set rearr. x < 256 ^ 4" "\<forall>x\<in>set offs. x < 256 ^ 4"
    using sz(3) by auto
  have l: "length pv = 256 * nd" "length cen = nd * 1" "length rearr = nd * 1" "length offs = (n + 1) * 1" using len by auto
  have k: "(256 :: nat) < 2 ^ 32" "(1 :: nat) < 2 ^ 32" "(5 :: nat) < 2 ^ 32" by simp_all
  obtain f1 where 1: "save_bin 4 f pv 256 nd c0 = Inr (f1, 8 + 256 * nd * 4)" "load_bin 4 f1 c0 = Inr (pv, 256, nd)"
    using save_bin_ok[OF k(1) sz(1) l(1) e(1), of f c0] by blast
  obtain f2 where 2: "save_bin 4 f1 cen nd 1 c1 = Inr (f2, 8 + nd * 1 * 4)" "load_bin 4 f2 c1 = Inr (cen, nd, 1)"
      and fr2: "\<forall>sz' off' ys n d. load_bin sz' f1 off' = Inr (ys, n, d) \<longrightarrow>
         off' + 8 + n * d * sz' \<le> c1 \<or> c1 + 8 + nd * 1 * 4 \<le> off' \<longrightarrow> load_bin sz' f2 off' = Inr (ys, n, d)"
    using save_bin_ok[OF sz(1) k(2) l(2) e(2), of f1 c1] by blast
  have 22: "load_bin 4 f2 c0 = Inr (pv, 256, nd)" using fr2[rule_format, OF 1(2)] by (simp add: c)
  obtain f3 where 3: "save_bin 4 f2 rearr nd 1 c2 = Inr (f3, 8 + nd * 1 * 4)" "load_bin 4 f3 c2 = Inr (rearr, nd, 1)"
      and fr3: "\<forall>sz' off' ys n d. load_bin sz' f2 off' = Inr (ys, n, d) \<longrightarrow>
         off' + 8 + n * d * sz' \<le> c2 \<or> c2 + 8 + nd * 1 * 4 \<le> off' \<longrightarrow> load_bin sz' f3 off' = Inr (ys, n, d)"
    using save_bin_ok[OF sz(1) k(2) l(3) e(3), of f2 c2] by blast
  have 33: "load_bin 4 f3 c0 = Inr (pv, 256, nd)" using fr3[rule_format, OF 22] by (simp add: c)
  have 34: "load_bin 4 f3 c1 = Inr (cen, nd, 1)" using fr3[rule_format, OF 2(2)] by (simp add: c)
  obtain f4 where 4: "save_bin 4 f3 offs (n + 1) 1 c3 = Inr (f4, 8 + (n + 1) * 1 * 4)" "load_bin 4 f4 c3 = Inr (offs, n + 1, 1)"
      and fr4: "\<forall>sz' off' ys m d. load_bin sz' f3 off' = Inr (ys, m, d) \<longrightarrow>
         off' + 8 + m * d * sz' \<le> c3 \<or> c3 + 8 + (n + 1) * 1 * 4 \<le> off' \<longrightarrow> load_bin sz' f4 off' = Inr (ys, m, d)"
    using save_bin_ok[OF sz(2) k(2) l(4) e(4), of f3 c3] by blast
  have 43: "load_bin 4 f4 c0 = Inr (pv, 256, nd)" using fr4[rule_format, OF 33] by (simp add: c)
  have 44: "load_bin 4 f4 c1 = Inr (cen, nd, 1)" using fr4[rule_format, OF 34] by (simp add: c)
  have 45: "load_bin 4 f4 c2 = Inr (rearr, nd, 1)" using fr4[rule_format, OF 3(2)] by (simp add: c)
  let ?cs = "[c0, c1, c2, c3, c4]"
  have le: "c0 \<le> c4" "c1 \<le> c4" "c2 \<le> c4" "c3 \<le> c4" "c4 < 256 ^ 8" "48 \<le> c0" "48 \<le> c1" "48 \<le> c2" "48 \<le> c3" using sz(1,2) by (simp_all add: c METADATA_SIZE_def)
  then have b: "\<forall>x\<in>set ?cs. x < 256 ^ 8" by (auto intro: le_less_trans)
  have l5: "length ?cs = 5 * 1" by simp
  obtain f5 where 5: "save_bin 8 f4 ?cs 5 1 0 = Inr (f5, 8 + 5 * 1 * 8)" "load_bin 8 f5 0 = Inr (?cs, 5, 1)"
      and fr5: "\<forall>sz' off' ys m d. load_bin sz' f4 off' = Inr (ys, m, d) \<longrightarrow>
         off' + 8 + m * d * sz' \<le> 0 \<or> 0 + 8 + 5 * 1 * 8 \<le> off' \<longrightarrow> load_bin sz' f5 off' = Inr (ys, m, d)"
    using save_bin_ok[OF k(3) k(2) l5 b, of f4 0] by blast
  have 53: "load_bin 4 f5 c0 = Inr (pv, 256, nd)" using fr5[rule_format, OF 43] by (simp add: le(6))
  have 54: "load_bin 4 f5 c1 = Inr (cen, nd, 1)" using fr5[rule_format, OF 44] by (simp add: le(7))
  have 55: "load_bin 4 f5 c2 = Inr (rearr, nd, 1)" using fr5[rule_format, OF 45] by (simp add: le(8))
  have 56: "load_bin 4 f5 c3 = Inr (offs, n + 1, 1)" using fr5[rule_format, OF 4(2)] by (simp add: le(9))
  have s: "save_pq_pivots f pv cen rearr offs 256 nd = Inr f5"
    unfolding save_pq_pivots_def Let_def len(3,4) 
    by (simp only: c(1)[symmetric] 1(1) and_then_simps prod.case c(2)[symmetric] 2(1) c(3)[symmetric] 3(1) c(4)[symmetric]
        4(1) c(5)[symmetric] 5(1))
  have "load_pq_pivots_new f5 n 0 =
    Inr \<lparr>tables = map fl_of_bits pv, centroid = map fl_of_bits cen, ndims = nd, pq_nchunks = n,
         chunk_offsets = offs, rearrangement = rearr, tables_T = [], all_to_all_dists = []\<rparr>"
    unfolding load_pq_pivots_new_def Let_def using 5(2) 53 54 55 56 by (simp add: NUM_PQ_OFFSETS_def NUM_PQ_CENTROIDS_def)
  then show ?thesis using s by blast
qed

lemma bin_unique:
  assumes "bin_start nd n b \<le> x" "x < bin_start nd n (Suc b)" "bin_start nd n b' \<le> x" "x < bin_start nd n (Suc b')"
  shows "b = b'"
proof (rule ccontr)
  assume "b \<noteq> b'"
  then have "Suc b \<le> b' \<or> Suc b' \<le> b" by linarith
  then show False using bin_start_mono[of "Suc b" b' nd n] bin_start_mono[of "Suc b'" b nd n] assms by linarith
qed

lemma full_pivots_ok:
  assumes n: "0 < n" and offs: "offs = map (bin_start nd n) [0..<Suc n]" and init: "length init = m * nd"
    and cur: "\<forall>i<n. length (cur i) = m * (offs ! (i + 1) - offs ! i)"
  shows "length (full_pivots m nd offs cur init) = m * nd"
    and "\<lbrakk>i < n; j < m; k < offs ! (i + 1) - offs ! i\<rbrakk> \<Longrightarrow>
      full_pivots m nd offs cur init ! (j * nd + offs ! i + k) = cur i ! (j * (offs ! (i + 1) - offs ! i) + k)"
proof -
  let ?st = "bin_start nd n" and ?ks = "List.product [0..<n] [0..<m]"
  have o: "offs ! x = ?st x" if "x \<le> n" for x using that unfolding offs by (simp del: upt_Suc add: nth_map)
  define csz where "csz i = offs ! (i + 1) - offs ! i" for i
  define pos vs where pv: "pos = (\<lambda>(i, j). j * nd + offs ! i)" "vs = (\<lambda>(i, j). take (csz i) (drop (j * csz i) (cur i)))"
  have f: "full_pivots m nd offs cur init = fold (\<lambda>k a. blit a (pos k) (vs k)) ?ks init"
    unfolding full_pivots_def pv csz_def Let_def by (simp add: offs case_prod_unfold)
  have len: "length (vs (i, j)) = csz i" if "i < n" "j < m" for i j
  proof -
    have "j * csz i + csz i \<le> m * csz i" using that(2) by (metis Suc_leI add.commute mult_Suc mult_le_mono1)
    then show ?thesis using cur that(1) by (simp add: pv csz_def)
  qed
  have ends: "?st (Suc i) \<le> nd" if "i < n" for i using bin_start_mono[of "Suc i" n nd n] bin_start_ends(2)[OF n, of nd] that by simp
  have csz: "offs ! i + csz i = ?st (Suc i)" if "i < n" for i
    using that bin_start_mono[of i "Suc i" nd n] by (simp add: csz_def o)
  have fit: "\<forall>k\<in>set ?ks. pos k + length (vs k) \<le> length init"
  proof
    fix k assume "k \<in> set ?ks"
    then obtain i j where k: "k = (i, j)" "i < n" "j < m" by auto
    have "j * nd + nd \<le> m * nd" using k(3) by (metis Suc_leI add.commute mult_Suc mult_le_mono1)
    then show "pos k + length (vs k) \<le> length init" using csz[OF k(2)] ends[OF k(2)] by (simp add: k(1) len[OF k(2,3)] init pv(1))
  qed
  show "length (full_pivots m nd offs cur init) = m * nd" unfolding f using fold_blit(1)[OF fit] init by simp
  assume i: "i < n" and j: "j < m" and k: "k < offs ! (i + 1) - offs ! i"
  let ?q = "j * nd + offs ! i + k"
  have ki: "offs ! i + k < ?st (Suc i)" "?st i \<le> offs ! i + k" using csz[OF i] k i by (simp_all add: csz_def o)
  have "fold (\<lambda>k a. blit a (pos k) (vs k)) ?ks init ! ?q = vs (i, j) ! (?q - pos (i, j))"
  proof (rule fold_blit_nth[OF fit])
    show "\<forall>k'\<in>set ?ks. pos k' \<le> ?q \<and> ?q < pos k' + length (vs k') \<longrightarrow> k' = (i, j)"
    proof (intro ballI impI)
      fix k' assume k': "k' \<in> set ?ks" "pos k' \<le> ?q \<and> ?q < pos k' + length (vs k')"
      then obtain i' j' where e: "k' = (i', j')" "i' < n" "j' < m" by auto
      have h: "j' * nd + offs ! i' \<le> ?q" "?q < j' * nd + offs ! i' + csz i'" using k'(2) by (simp_all add: e(1) len[OF e(2,3)] pv(1))
      define x where "x = ?q - j' * nd"
      have x: "offs ! i' \<le> x" "x < ?st (Suc i')" using h csz[OF e(2)] by (simp_all add: x_def)
      have "j * nd + (offs ! i + k) = j' * nd + x" using h(1) by (simp add: x_def)
      then have "j = j' \<and> offs ! i + k = x"
        using slot_inj[of "offs ! i + k" nd x j j'] ki(1) ends[OF i] x(2) ends[OF e(2)] by linarith
      moreover have "i = i'" by (rule bin_unique[OF ki(2,1)]) (use x calculation o e(2) in auto)
      ultimately show "k' = (i, j)" using e(1) by simp
    qed
  qed (use i j k in \<open>auto simp: len pv(1) csz_def\<close>)
  also have "\<dots> = cur i ! (j * csz i + k)"
  proof -
    have "j * csz i + csz i \<le> m * csz i" using j by (metis Suc_leI add.commute mult_Suc mult_le_mono1)
    moreover have "length (cur i) = m * csz i" "k < csz i" using cur i k by (simp_all add: csz_def)
    ultimately have "j * csz i \<le> length (cur i)" by linarith
    then show ?thesis using \<open>k < csz i\<close> by (simp add: pv)
  qed
  finally show "full_pivots m nd offs cur init ! ?q = cur i ! (j * (offs ! (i + 1) - offs ! i) + k)" unfolding f csz_def .
qed

text \<open>
  C21. The pivot file that \<^verbatim>\<open>generate_pq_pivots\<close> writes loads into a well-formed table: the dimensions keep their
  order (which is why k-means may run on the training data without rearranging it), the chunk sizes differ by at
  most one and add up to the dimension, and the entries of each chunk are the pivots that k-means gave for it.
\<close>

theorem generated_pivots_load:
  assumes "0 < n" "n \<le> nd" "nd < 2 ^ 32 - 1" "length train = num_train * nd" "length init = 256 * nd"
    and bits: "\<forall>x. bits x < 2 ^ 32" and kmeans: "\<forall>csz data. length (kmeans 256 csz data) = 256 * csz"
  shows "\<exists>f' T. generate_pq_pivots bits kmeans init f train num_train nd 256 n = Inr (0, f')
    \<and> load_pq_pivots_new f' n 0 = Inr T \<and> pq_ok T \<and> ndims T = nd \<and> pq_nchunks T = n
    \<and> rearrangement T = [0..<nd] \<and> concat (map (chunk_dims T) [0..<n]) = [0..<nd]
    \<and> (\<forall>c<n. length (chunk_dims T c) = nd div n \<or> length (chunk_dims T c) = nd div n + 1)
    \<and> (\<forall>c<n. \<forall>j<256. \<forall>k<length (chunk_dims T c). tables T ! (j * nd + chunk_offsets T ! c + k) =
         fl_of_bits (bits (kmeans 256 (length (chunk_dims T c))
           (chunk_data (center_data train (train_centroid train num_train nd) num_train nd) num_train nd
              (chunk_offsets T ! c) (length (chunk_dims T c))) ! (j * length (chunk_dims T c) + k))))"
proof -
  let ?st = "bin_start nd n"
  obtain s where s: "assign_dims nd n = Inr s" "bin_to_dims s = map (\<lambda>b. [?st b ..< ?st (Suc b)]) [0..<n]"
    using assign_dims_ok[OF assms(1,2)] by blast
  define offs where "offs = map ?st [0..<Suc n]"
  note lay = layout_of_bins[OF assms(1) s(2), folded offs_def]
  have o: "offs ! x = ?st x" if "x \<le> n" for x using that unfolding offs_def by (simp del: upt_Suc add: nth_map)
  define cen data where cd: "cen = train_centroid train num_train nd" "data = center_data train cen num_train nd"
  define cur where "cur = (\<lambda>i. kmeans 256 (offs ! (i + 1) - offs ! i) (chunk_data data num_train nd (offs ! i) (offs ! (i + 1) - offs ! i)))"
  define full where "full = full_pivots 256 nd offs cur init"
  have cl: "\<forall>i<n. length (cur i) = 256 * (offs ! (i + 1) - offs ! i)" using kmeans by (simp add: cur_def)
  note F = full_pivots_ok[OF assms(1) offs_def assms(5) cl, folded full_def]
  have on: "\<forall>x\<in>set offs. x \<le> nd"
    unfolding offs_def using bin_start_mono[of _ n nd n] bin_start_ends(2)[OF assms(1), of nd] by (auto simp del: upt_Suc)
  have ex: "\<exists>f'. save_pq_pivots f (map bits full) (map bits cen) [0..<nd] offs 256 nd = Inr f' \<and> load_pq_pivots_new f' n 0 =
    Inr \<lparr>tables = map fl_of_bits (map bits full), centroid = map fl_of_bits (map bits cen), ndims = nd, pq_nchunks = n,
         chunk_offsets = offs, rearrangement = [0..<nd], tables_T = [], all_to_all_dists = []\<rparr>" (is "\<exists>f'. _ \<and> _ = Inr ?T")
  proof (rule save_pq_pivots_load)
    show "\<forall>x\<in>set (map bits full) \<union> set (map bits cen) \<union> set [0..<nd] \<union> set offs. x < 2 ^ 32" using bits on assms(3) by fastforce
  qed (use F(1) assms(2,3) in \<open>simp_all add: cd(1) train_centroid_def offs_def\<close>)
  then obtain f' T where f': "save_pq_pivots f (map bits full) (map bits cen) [0..<nd] offs 256 nd = Inr f'" "load_pq_pivots_new f' n 0 = Inr T"
    and T: "tables T = map fl_of_bits (map bits full)" "centroid T = map fl_of_bits (map bits cen)" "ndims T = nd" "pq_nchunks T = n"
      "chunk_offsets T = offs" "rearrangement T = [0..<nd]" by fastforce
  have gen: "generate_pq_pivots bits kmeans init f train num_train nd 256 n = Inr (0, f')"
    using assms(1,2,4) unfolding generate_pq_pivots_def Let_def s(1) and_then_simps lay cd[symmetric] cur_def[symmetric] full_def[symmetric] f'(1) by simp
  have cdim: "chunk_dims T c = [?st c ..< ?st (Suc c)]" "chunk_offsets T ! c = ?st c" if "c < n" for c using that by (simp_all add: chunk_dims_def T o)
  have lc: "length (chunk_dims T c) = offs ! (c + 1) - offs ! c" if "c < n" for c using that by (simp add: cdim o)
  have "concat (map (chunk_dims T) [0..<n]) = bin_rearrangement (bin_to_dims s)"
    unfolding bin_rearrangement_def s(2) by (intro arg_cong[of _ _ concat] map_cong) (auto simp: cdim)
  then have A: "concat (map (chunk_dims T) [0..<n]) = [0..<nd]" unfolding lay(1) .
  have B: "length (chunk_dims T c) = nd div n \<or> length (chunk_dims T c) = nd div n + 1" if "c < n" for c
    using that by (simp add: cdim bin_start_Suc)
  have C: "tables T ! (j * nd + chunk_offsets T ! c + k) = fl_of_bits (bits (cur c ! (j * length (chunk_dims T c) + k)))"
    if "c < n" "j < 256" "k < length (chunk_dims T c)" for c j k
  proof -
    have k: "k < offs ! (c + 1) - offs ! c" using that(3) unfolding lc[OF that(1)] .
    have "?st (Suc c) \<le> nd" using bin_start_mono[of "Suc c" n nd n] bin_start_ends(2)[OF assms(1), of nd] that(1) by simp
    moreover have "j * nd + nd \<le> 256 * nd" using that(2) by (metis Suc_leI add.commute mult_Suc mult_le_mono1)
    moreover have "offs ! c = ?st c" "offs ! (c + 1) = ?st (Suc c)" using o[of c] o[of "c + 1"] that(1) by simp_all
    ultimately have "j * nd + offs ! c + k < length full" using k unfolding F(1) by linarith
    then show ?thesis using F(2)[OF that(1,2) k] unfolding lc[OF that(1)] T by simp
  qed
  have ok: "pq_ok T" using F(1) on by (simp add: pq_ok_def T cd(1) train_centroid_def offs_def)
  have D: "cur c = kmeans 256 (length (chunk_dims T c)) (chunk_data data num_train nd (chunk_offsets T ! c) (length (chunk_dims T c)))" if "c < n" for c
    unfolding cur_def lc[OF that] T by simp
  show ?thesis
    unfolding cd[symmetric]
    by (rule exI[of _ f'], rule exI[of _ T]) (use gen f'(2) ok A B C D T(3,4,6) in auto)
qed

theorem generated_pivots_load_witness:
  "\<exists>f' T. generate_pq_pivots (\<lambda>_. 0) (\<lambda>m csz _. replicate (m * csz) (Fin 0)) (replicate 1280 (Fin 0)) None (replicate 10 (Fin 0)) 2 5 256 2 = Inr (0, f')
     \<and> load_pq_pivots_new f' 2 0 = Inr T \<and> pq_ok T \<and> rearrangement T = [0..<5]"
  using generated_pivots_load[of 2 5 "replicate 10 (Fin 0)" 2 "replicate 1280 (Fin 0)" "\<lambda>_. 0" "\<lambda>m csz _. replicate (m * csz) (Fin 0)" None]
  by (simp del: upt_rec_numeral) blast

end
