(* ===== verification/Alloc_Compact.thy ===== *)
theory Alloc_Compact
  imports Allocator
begin

text \<open>
  \<^verbatim>\<open>alloc_loc_compact\<close> of \<^verbatim>\<open>include/ssd_index.h\<close>, the allocator that recovery uses: it takes every hole of
  a hint page, without the threshold of \<^verbatim>\<open>alloc_loc\<close>, and drops hint pages that it expects to have filled.
  The two allocators have one contract, the locale \<open>slot_allocator\<close>.
\<close>

text \<open>
  \<^verbatim>\<open>cnt + (n - cur)\<close> is an unsigned 32-bit sum: \<open>n - cur\<close> is an \<^verbatim>\<open>int\<close> that is converted.
\<close>

definition page_done :: "geom \<Rightarrow> nat \<Rightarrow> nat \<Rightarrow> nat \<Rightarrow> bool" where
  "page_done g n cur cnt \<longleftrightarrow> int (nnodes_per_sector g) \<le> (int cnt + (int n - int cur)) mod 2 ^ 32"

text \<open>Rule 2 of the compact allocator; \<open>gone\<close> is \<^verbatim>\<open>hint_pages_to_remove\<close>.\<close>

fun compact_rule2 ::
  "geom \<Rightarrow> alloc_config \<Rightarrow> nat \<Rightarrow> nat list \<Rightarrow> alloc_state \<Rightarrow> nat list \<Rightarrow> nat set \<Rightarrow> nat list
     \<Rightarrow> bool \<times> alloc_state \<times> nat list \<times> nat set \<times> nat list" where
  "compact_rule2 g c n [] s ret need gone = (False, s, ret, need, gone)"
| "compact_rule2 g c n (p # ps) s ret need gone =
     (if no_pollute_original c \<and> p < loc_sector_no g (init_num_pts c)
      then compact_rule2 g c n ps s ret need gone
      else let (s', ret', need', gone') =
             (case page_layout s (u32 p) of
                None \<Rightarrow> (s, ret, need, gone)
              | Some v \<Rightarrow>
                  let cnt = count_holes g v; (v', ret') = take_holes g n p [0..<nnodes_per_sector g] v ret
                  in (s\<lparr>page_layout := snd (update_fn (page_layout s) (u32 p) (\<lambda>_. v'))\<rparr>, ret',
                      if cnt < nnodes_per_sector g then insert p need else need,
                      if page_done g n (length ret) cnt then gone @ [p] else gone))
           in if length ret' = n then (True, s', ret', need', gone')
              else compact_rule2 g c n ps s' ret' need' gone')"

definition remove_hint_pages :: "nat list \<Rightarrow> nat list \<Rightarrow> nat list" where
  "remove_hint_pages gone hint_pages = filter (\<lambda>p. p \<notin> set gone) hint_pages"

definition alloc_loc_compact ::
  "geom \<Rightarrow> alloc_config \<Rightarrow> alloc_state \<Rightarrow> nat \<Rightarrow> nat list \<Rightarrow> nat set
     \<Rightarrow> (nat list \<times> nat set \<times> alloc_state \<times> nat list) outcome" where
  "alloc_loc_compact g c s n hint_pages need =
     and_then (alloc_rule1 g c n s []) (\<lambda>(fin, s, ret).
       if fin then Inr (ret, need, s, hint_pages)
       else case compact_rule2 g c n hint_pages s ret need [] of
           (fin, s, ret, need, gone) \<Rightarrow>
             let hint_pages = remove_hint_pages gone hint_pages
             in if fin then Inr (ret, need, s, hint_pages)
                else case alloc_rule3 g n s ret of (s, ret) \<Rightarrow> Inr (ret, need, s, hint_pages))"

text \<open>The allocation without the updated hint list, as the other allocator returns it.\<close>

definition compact_alloc ::
  "geom \<Rightarrow> alloc_config \<Rightarrow> alloc_state \<Rightarrow> nat \<Rightarrow> nat list \<Rightarrow> nat set \<Rightarrow> (nat list \<times> nat set \<times> alloc_state) outcome" where
  "compact_alloc g c s n hint_pages need =
     and_then (alloc_loc_compact g c s n hint_pages need) (\<lambda>(ret, need, s, _). Inr (ret, need, s))"

lemma compact_rule2_ok:
  assumes "geom_paged g" "alloc_inv g s" "cq_items (empty_pages s) = []" "length ret < n"
    and "\<forall>p\<in>set ps. p < 2 ^ 32"
  shows "\<exists>fin s' new need' gone'. compact_rule2 g c n ps s ret need gone = (fin, s', ret @ new, need', gone')
    \<and> claims g s s' new \<and> alloc_inv g s' \<and> cur_loc s' = cur_loc s \<and> cq_items (empty_pages s') = []
    \<and> (if fin then length ret + length new = n else length ret + length new < n)
    \<and> need \<subseteq> need' \<and> (\<forall>l\<in>set new. page_in_use g s l \<longrightarrow> loc_sector_no g l \<in> need')"
  using assms
proof (induction ps arbitrary: s ret need gone)
  case Nil
  then show ?case by (auto intro: claims_refl)
next
  case (Cons p ps)
  have u: "u32 p = p" using Cons.prems(5) by (auto intro: u32_small)
  show ?case
  proof (cases "(no_pollute_original c \<and> p < loc_sector_no g (init_num_pts c)) \<or> page_layout s p = None")
    case True
    then have "compact_rule2 g c n (p # ps) s ret need gone = compact_rule2 g c n ps s ret need gone"
      using Cons.prems(4) by (auto simp: u Let_def)
    then show ?thesis using Cons.IH[of s ret need gone] Cons.prems by simp
  next
    case False
    then obtain v where v: "page_layout s p = Some v" by auto
    obtain v' ret' where t: "take_holes g n p [0..<nnodes_per_sector g] v ret = (v', ret')" by fastforce
    let ?s = "s\<lparr>page_layout := (page_layout s)(p \<mapsto> v')\<rparr>"
    let ?need = "if count_holes g v < nnodes_per_sector g then insert p need else need"
    let ?gone = "if page_done g n (length ret) (count_holes g v) then gone @ [p] else gone"
    obtain new where new: "ret' = ret @ new" "claims g s ?s new" "alloc_inv g ?s" "length ret' \<le> n"
        "\<forall>l\<in>set new. loc_sector_no g l = p"
      using take_holes_page[OF Cons.prems(1-4) v t] by blast
    have nd: "\<forall>l\<in>set new. page_in_use g s l \<longrightarrow> loc_sector_no g l \<in> ?need"
      using page_in_use_holes[OF Cons.prems(1)] v new(5) by auto
    have unf: "compact_rule2 g c n (p # ps) s ret need gone = (if length ret' = n then (True, ?s, ret', ?need, ?gone)
        else compact_rule2 g c n ps ?s ret' ?need ?gone)"
      using False v t by (auto simp: u Let_def update_fn_def)
    show ?thesis
    proof (cases "length ret' = n")
      case True
      then show ?thesis using unf new nd Cons.prems(3)
        by (intro exI[of _ True] exI[of _ ?s] exI[of _ new] exI[of _ ?need] exI[of _ ?gone]) auto
    next
      case F: False
      then obtain fin s' new' need' gone' where "compact_rule2 g c n ps ?s ret' ?need ?gone = (fin, s', ret' @ new', need', gone')"
        "claims g ?s s' new'" "alloc_inv g s'" "cur_loc s' = cur_loc s" "cq_items (empty_pages s') = []"
        "if fin then length ret' + length new' = n else length ret' + length new' < n"
        "?need \<subseteq> need'" "\<forall>l\<in>set new'. page_in_use g ?s l \<longrightarrow> loc_sector_no g l \<in> need'"
        using Cons.IH[of ?s ret' ?need ?gone] new Cons.prems by (auto simp del: subset_iff)
      moreover have "\<forall>l\<in>set (new @ new'). page_in_use g s l \<longrightarrow> loc_sector_no g l \<in> need'"
        using calculation(7,8) nd page_in_use_claims[OF new(2)] by (auto split: if_splits)
      moreover have "need \<subseteq> need'" using calculation(7) by (auto split: if_splits)
      ultimately show ?thesis using unf F new(1) claims_trans[OF new(2)]
        by (intro exI[of _ fin] exI[of _ s'] exI[of _ "new @ new'"] exI[of _ need'] exI[of _ gone'])
          (auto simp: add.assoc simp del: compact_rule2.simps)
    qed
  qed
qed

section \<open>The contract of an allocator\<close>

text \<open>
  What both allocators promise on a well-formed state: \<open>n\<close> free slots, now reserved, in pages that are read
  first when they are shared.
\<close>

locale slot_allocator =
  fixes alloc_fn :: "geom \<Rightarrow> alloc_config \<Rightarrow> alloc_state \<Rightarrow> nat \<Rightarrow> nat list \<Rightarrow> nat set \<Rightarrow> (nat list \<times> nat set \<times> alloc_state) outcome"
  assumes alloc_claims: "\<lbrakk>geom_paged g; alloc_inv g s; 0 < n; cur_loc s + n + nnodes_per_sector g \<le> kInvalidID;
      \<forall>p\<in>set hint_pages. p < 2 ^ 32\<rbrakk> \<Longrightarrow>
    \<exists>ret need' s'. alloc_fn g c s n hint_pages need = Inr (ret, need', s') \<and> length ret = n
      \<and> claims g s s' ret \<and> alloc_inv g s'
      \<and> (\<forall>l\<in>set ret. page_in_use g s l \<longrightarrow> loc_sector_no g l \<in> need')
      \<and> cur_loc s' < cur_loc s + n + nnodes_per_sector g"
begin

lemma alloc_fresh:
  assumes "geom_paged g" "alloc_inv g s" "0 < n" "cur_loc s + n + nnodes_per_sector g \<le> kInvalidID"
    and "\<forall>p\<in>set hint_pages. p < 2 ^ 32"
  shows "\<exists>ret need' s'. alloc_fn g c s n hint_pages need = Inr (ret, need', s') \<and> length ret = n \<and> distinct ret
    \<and> (\<forall>l\<in>set ret. l < cur_loc s' \<and> loc2id g s l = kInvalidID \<and> loc2id g s' l = kAllocatedID)
    \<and> (\<forall>l<kInvalidID. l \<notin> set ret \<longrightarrow> loc2id g s' l = loc2id g s l) \<and> alloc_inv g s'"
proof -
  obtain ret need' s' where r: "alloc_fn g c s n hint_pages need = Inr (ret, need', s')" "length ret = n"
    "claims g s s' ret" "alloc_inv g s'" using alloc_claims[OF assms, of c need] by blast
  then show ?thesis using claims_loc2id[OF assms(1,2) r(4,3)] by blast
qed

text \<open>Two calls in a row never hand out the same location.\<close>

lemma alloc_twice:
  assumes "geom_paged g" "alloc_inv g s" "0 < n" "cur_loc s + n + nnodes_per_sector g \<le> kInvalidID" "\<forall>p\<in>set hs. p < 2 ^ 32"
    and "alloc_fn g c s n hs need = Inr (ret, need', s')"
    and "0 < n'" "cur_loc s' + n' + nnodes_per_sector g \<le> kInvalidID" "\<forall>p\<in>set hs'. p < 2 ^ 32"
    and "alloc_fn g c s' n' hs' need2 = Inr (ret2, need3, s2)"
  shows "set ret \<inter> set ret2 = {}"
proof -
  have 1: "claims g s s' ret" "alloc_inv g s'" using alloc_claims[OF assms(1-5), of c need] assms(6) by auto
  have 2: "claims g s' s2 ret2" using alloc_claims[OF assms(1) 1(2) assms(7-9), of c need2] assms(10) by auto
  show ?thesis using 1(1) 2 sentinels_distinct by (auto simp: claims_def)
qed

end

interpretation plain: slot_allocator alloc_loc
  by unfold_locales (rule alloc_loc_claims)

lemma compact_claims:
  assumes "geom_paged g" "alloc_inv g s" "0 < n" "cur_loc s + n + nnodes_per_sector g \<le> kInvalidID"
    and "\<forall>p\<in>set hint_pages. p < 2 ^ 32"
  shows "\<exists>ret need' s' hint'. alloc_loc_compact g c s n hint_pages need = Inr (ret, need', s', hint') \<and> length ret = n
    \<and> claims g s s' ret \<and> alloc_inv g s'
    \<and> (\<forall>l\<in>set ret. page_in_use g s l \<longrightarrow> loc_sector_no g l \<in> need')
    \<and> cur_loc s' < cur_loc s + n + nnodes_per_sector g \<and> set hint' \<subseteq> set hint_pages"
proof -
  have n: "0 < nnodes_per_sector g" using assms(1) by (simp add: geom_paged_def)
  obtain fin1 s1 r1 where 1: "alloc_rule1 g c n s [] = Inr (fin1, s1, r1)" "claims g s s1 r1" "alloc_inv g s1"
    "cur_loc s1 = cur_loc s"
    "if fin1 then length r1 = n else length r1 < n \<and> cq_items (empty_pages s1) = []"
    "\<forall>l\<in>set r1. \<not> page_in_use g s l"
    using alloc_rule1_ok[OF assms(1,2), of "[]" n c] assms(3) by (metis add_0 append_Nil list.size(3))
  show ?thesis
  proof (cases fin1)
    case True
    then show ?thesis using 1 n by (simp add: alloc_loc_compact_def)
  next
    case False
    then have q: "length r1 < n" "cq_items (empty_pages s1) = []" using 1(5) by simp_all
    obtain fin2 s2 r2 need2 gone where 2: "compact_rule2 g c n hint_pages s1 r1 need [] = (fin2, s2, r1 @ r2, need2, gone)"
      "claims g s1 s2 r2" "alloc_inv g s2" "cur_loc s2 = cur_loc s1" "cq_items (empty_pages s2) = []"
      "if fin2 then length r1 + length r2 = n else length r1 + length r2 < n"
      "\<forall>l\<in>set r2. page_in_use g s1 l \<longrightarrow> loc_sector_no g l \<in> need2"
      using compact_rule2_ok[OF assms(1) 1(3) q(2,1) assms(5), of c need "[]"] by blast
    have nd: "\<forall>l\<in>set (r1 @ r2). page_in_use g s l \<longrightarrow> loc_sector_no g l \<in> need2"
      using 1(6) 2(7) page_in_use_claims[OF 1(2)] by auto
    have c2: "claims g s s2 (r1 @ r2)" using claims_trans[OF 1(2) 2(2)] .
    show ?thesis
    proof (cases fin2)
      case True
      then show ?thesis using 1(1,4) 2 False c2 nd n by (simp add: alloc_loc_compact_def remove_hint_pages_def)
    next
      case F: False
      then obtain s3 r3 where 3: "alloc_rule3 g n s2 (r1 @ r2) = (s3, (r1 @ r2) @ r3)" "claims g s2 s3 r3"
        "alloc_inv g s3" "length (r1 @ r2) + length r3 = n" "\<forall>l\<in>set r3. \<not> page_in_use g s2 l"
        "cur_loc s3 < cur_loc s + n + nnodes_per_sector g"
        using alloc_rule3_ok[OF assms(1) 2(3,5), of "r1 @ r2" n] 2(4,6) 1(4) assms(4) by auto
      moreover have "\<forall>l\<in>set ((r1 @ r2) @ r3). page_in_use g s l \<longrightarrow> loc_sector_no g l \<in> need2"
        using nd 3(5) page_in_use_claims[OF c2] by auto
      ultimately show ?thesis using 1(1) 2(1) False F claims_trans[OF c2 3(2)]
        by (simp add: alloc_loc_compact_def remove_hint_pages_def)
    qed
  qed
qed

interpretation compact: slot_allocator compact_alloc
proof unfold_locales
  fix g :: geom and s :: alloc_state and n :: nat and hint_pages :: "nat list" and c :: alloc_config and need :: "nat set"
  assume a: "geom_paged g" "alloc_inv g s" "0 < n" "cur_loc s + n + nnodes_per_sector g \<le> kInvalidID"
    "\<forall>p\<in>set hint_pages. p < 2 ^ 32"
  from compact_claims[OF a, of c need]
  show "\<exists>ret need' s'. compact_alloc g c s n hint_pages need = Inr (ret, need', s') \<and> length ret = n
      \<and> claims g s s' ret \<and> alloc_inv g s'
      \<and> (\<forall>l\<in>set ret. page_in_use g s l \<longrightarrow> loc_sector_no g l \<in> need')
      \<and> cur_loc s' < cur_loc s + n + nnodes_per_sector g"
    by (auto simp: compact_alloc_def)
qed

text \<open>
  C16. On a well-formed allocator \<^verbatim>\<open>alloc_loc_compact\<close> keeps the contract of \<^verbatim>\<open>alloc_loc\<close> for every positive
  number of locations: they were free and distinct, are reserved afterwards and lie below the end of the file,
  no other slot changes, and two calls in a row never hand out the same location.
\<close>

theorem alloc_loc_compact_correct:
  assumes "geom_paged g" "alloc_inv g s" "0 < n" "cur_loc s + n + nnodes_per_sector g \<le> kInvalidID"
    and "\<forall>p\<in>set hint_pages. p < 2 ^ 32"
  shows "\<exists>ret need' s' hint'. alloc_loc_compact g c s n hint_pages need = Inr (ret, need', s', hint')
    \<and> length ret = n \<and> distinct ret \<and> alloc_inv g s' \<and> set hint' \<subseteq> set hint_pages
    \<and> (\<forall>l\<in>set ret. l < cur_loc s' \<and> loc2id g s l = kInvalidID \<and> loc2id g s' l = kAllocatedID)
    \<and> (\<forall>l<kInvalidID. l \<notin> set ret \<longrightarrow> loc2id g s' l = loc2id g s l)
    \<and> (\<forall>n' hs' need2 ret2 need3 s2. 0 < n' \<longrightarrow> cur_loc s' + n' + nnodes_per_sector g \<le> kInvalidID \<longrightarrow>
         (\<forall>p\<in>set hs'. p < 2 ^ 32) \<longrightarrow> compact_alloc g c s' n' hs' need2 = Inr (ret2, need3, s2) \<longrightarrow>
         set ret \<inter> set ret2 = {})"
proof -
  obtain ret need' s' hint' where r: "alloc_loc_compact g c s n hint_pages need = Inr (ret, need', s', hint')"
    "set hint' \<subseteq> set hint_pages" using compact_claims[OF assms, of c need] by blast
  then have r': "compact_alloc g c s n hint_pages need = Inr (ret, need', s')" by (simp add: compact_alloc_def)
  note f = compact.alloc_fresh[OF assms, of c need, unfolded r']
  show ?thesis
    by (rule exI[of _ ret], rule exI[of _ need'], rule exI[of _ s'], rule exI[of _ hint'])
      (use r f compact.alloc_twice[OF assms r'] in auto)
qed

theorem alloc_loc_compact_correct_witness:
  "\<exists>ret need' s' hint'. alloc_loc_compact ex_geom default_config ex_alloc 5 [2] {} = Inr (ret, need', s', hint')
     \<and> length ret = 5 \<and> distinct ret \<and> set hint' \<subseteq> {2}"
proof -
  have f: "cur_loc ex_alloc + 5 + nnodes_per_sector ex_geom \<le> kInvalidID"
    by (simp add: ex_alloc_def ex_geom_def kInvalidID_def)
  from alloc_loc_compact_correct[OF ex_geom_paged ex_alloc_inv _ f, of "[2]" default_config "{}"] show ?thesis by auto
qed

section \<open>The limits of the contract\<close>

text \<open>
  A call for no location does not return an empty list: the test \<^verbatim>\<open>cur == n\<close> comes after the first slot is
  taken, so every hole of the hint pages is reserved, and the negative \<^verbatim>\<open>remaining\<close> moves the end of the file
  backwards, here below the node at location 6.
\<close>

definition ex_holes :: alloc_state where
  "ex_holes = \<lparr>page_layout = [1 \<mapsto> [0, kInvalidID, kInvalidID, kInvalidID] @ replicate 12 0,
                              2 \<mapsto> [kInvalidID, kInvalidID, 1, kInvalidID] @ replicate 12 0],
     empty_pages = cq_new kInvalidID, cur_loc = 8\<rparr>"

lemma alloc_loc_compact_zero:
  "\<exists>need s hint. alloc_loc_compact ex_geom default_config ex_holes 0 [1, 2] {} = Inr ([1, 2, 3, 4, 5, 7], need, s, hint)
     \<and> cur_loc s = 4 \<and> loc2id ex_geom s 6 = 1"
  by (simp add: alloc_loc_compact_def alloc_rule1.simps cq_pop_def ex_holes_def ex_geom_def default_config_def cq_new_def
      u32_def count_holes_def sector_to_loc_def update_fn_def kInvalidID_def kAllocatedID_def Let_def upt_4
      alloc_rule3_def align_loc_def loc2id_def find_fn_def loc_sector_no_def)

text \<open>
  A hint page is dropped although most of its holes are still free: the test adds the number of locations still
  wanted to the number of holes where it should compare the two.
\<close>

lemma hint_page_dropped_early:
  "\<exists>need s. alloc_loc_compact ex_geom default_config ex_holes 1 [1] {} = Inr ([1], need, s, [])
     \<and> loc2id ex_geom s 2 = kInvalidID \<and> loc2id ex_geom s 3 = kInvalidID"
  by (simp add: alloc_loc_compact_def alloc_rule1.simps cq_pop_def ex_holes_def ex_geom_def default_config_def cq_new_def
      u32_def count_holes_def sector_to_loc_def update_fn_def kInvalidID_def kAllocatedID_def Let_def upt_4
      loc2id_def find_fn_def loc_sector_no_def page_done_def remove_hint_pages_def)

end
