(* ===== verification/Recovery.thy ===== *)
theory Recovery
  imports Soft_Graph Alloc_Compact PQ_Table
begin

text \<open>
  Recovery after a crash (\<^verbatim>\<open>PM_RECOVERY\<close> in \<^verbatim>\<open>SSDIndex::load\<close>, \<^verbatim>\<open>src/ssd_index.cpp\<close>): the location file is
  scanned, the layout table and the cursors are rebuilt from it, and then every node from the checkpoint on
  is visited; its PQ code is written again, and each of its neighbours gets a new version that has the node in
  its list.
\<close>

section \<open>The scan of the location file\<close>

record id2loc_scan =
  sc_id2loc :: "nat \<rightharpoonup> nat"
  sc_loc2id :: "nat \<rightharpoonup> nat"
  sc_num_points :: nat
  sc_max_id :: nat
  sc_max_loc :: nat

definition scan_start :: id2loc_scan where
  "scan_start = \<lparr>sc_id2loc = Map.empty, sc_loc2id = Map.empty, sc_num_points = 0, sc_max_id = 0, sc_max_loc = 0\<rparr>"

text \<open>Location 0 marks an unused entry, except in the entry of id 0.\<close>

definition scan_entry :: "nat \<times> nat \<Rightarrow> id2loc_scan \<Rightarrow> id2loc_scan" where
  "scan_entry e s =
     (let (i, loc) = e;
          s = (if i = 0 \<or> loc \<noteq> 0
               then s\<lparr>sc_id2loc := snd (insert_or_assign (sc_id2loc s) i loc),
                      sc_loc2id := snd (insert_or_assign (sc_loc2id s) loc i),
                      sc_num_points := sc_num_points s + 1, sc_max_id := i\<rparr>
               else s)
      in if loc > sc_max_loc s then s\<lparr>sc_max_loc := loc\<rparr> else s)"

definition scan_id2loc :: "nat list \<Rightarrow> id2loc_scan" where
  "scan_id2loc es = fold scan_entry (enumerate 0 es) scan_start"

section \<open>The tables\<close>

definition recover_page :: "geom \<Rightarrow> (nat \<rightharpoonup> nat) \<Rightarrow> nat \<Rightarrow> PageArr" where
  "recover_page g l2i i =
     map (\<lambda>j. if j < nnodes_per_sector g
              then (case l2i (u32 (i * nnodes_per_sector g + j)) of Some x \<Rightarrow> x | None \<Rightarrow> kInvalidID)
              else kInvalidID) [0..<kMaxElemInAPage]"

text \<open>The number of pages comes from the number of points, not from the largest location.\<close>

definition recover_layout :: "geom \<Rightarrow> id2loc_scan \<Rightarrow> (nat \<rightharpoonup> PageArr)" where
  "recover_layout g s =
     (let num_sectors = (sc_num_points s + nnodes_per_sector g - 1) div nnodes_per_sector g
      in fold (\<lambda>i L. snd (cuckoo_insert L (i + loc_sector_no g 0) (recover_page g (sc_loc2id s) i))) [0..<num_sectors] Map.empty)"

definition recover_tables :: "geom \<Rightarrow> meta_state \<Rightarrow> nat list \<Rightarrow> meta_state" where
  "recover_tables g m es =
     (let s = scan_id2loc es
      in m\<lparr>alloc := (alloc m)\<lparr>page_layout := recover_layout g s, cur_loc := align_loc g (sc_max_loc s + 1)\<rparr>,
           id2loc_map := sc_id2loc s, cur_id := sc_max_id s + 1\<rparr>)"

section \<open>Repairing the neighbours of a node\<close>

record recov_env =
  rc_table :: FixedChunkPQTable
  rc_floats :: "nat list \<Rightarrow> fl list"
  rc_data :: "nat list"

text \<open>A record is read from a copy of one sector of the mapped file.\<close>

definition recover_read :: "geom \<Rightarrow> nat \<Rightarrow> meta_state \<Rightarrow> pmem \<Rightarrow> nat \<Rightarrow> DiskNode outcome" where
  "recover_read g gsize m pm i =
     and_then (id2loc m i) (\<lambda>loc.
       let sector = loc_sector_no g loc; off = offset_to_loc g 0 loc;
           sector_buf = map (\<lambda>j. graph_bytes pm (sector * SECTOR_LEN + j)) [0..<SECTOR_LEN];
           r = mk_DiskNode g (\<lambda>j. sector_buf ! j) i off
       in if gsize < sector * SECTOR_LEN + SECTOR_LEN \<or> SECTOR_LEN < offset_to_node_nhood g off + 4 + 4 * nnbrs r
          then Inl Undefined else Inr r)"

text \<open>The codes that are in memory are those of the file when it was loaded.\<close>

definition codes_loaded :: "recov_env \<Rightarrow> nat set \<Rightarrow> bool" where
  "codes_loaded E is \<longleftrightarrow> (\<forall>i\<in>is. i * pq_nchunks (rc_table E) + pq_nchunks (rc_table E) \<le> length (rc_data E))"

text \<open>
  The neighbour list of the new version. A list that has to be pruned and names a node without a code in
  memory is a read past the end of the codes.
\<close>

definition recover_nhood :: "soft_cfg \<Rightarrow> recov_env \<Rightarrow> nat \<Rightarrow> DiskNode \<Rightarrow> nat list run" where
  "recover_nhood C E i r =
     (let nhood = (if i \<in> set (nbrs r) then nbrs r else nbrs r @ [i])
      in if length nhood > prange (sprune C)
         then if codes_loaded E (set (i # node_id r # nhood))
              then batch_prune (sprune C) (pq_dist_of (rc_table E) (rc_data E)) i (node_id r) nhood
              else Some (Inl Undefined)
         else Some (Inr nhood))"

definition recover_stores :: "geom \<Rightarrow> nat \<Rightarrow> nat list \<Rightarrow> nat list \<Rightarrow> pm_event list" where
  "recover_stores g pm_node cs ns =
     pm_stores Graph_f (offset_to_node_nhood g pm_node) (u32_bytes (length ns))
     @ pm_stores Graph_f (offset_to_node_coords pm_node) cs
     @ pm_stores Graph_f (offset_to_node_nhood g pm_node + 4) (concat (map u32_bytes ns))"

definition recover_write :: "geom \<Rightarrow> nat \<Rightarrow> nat list \<Rightarrow> nat list \<Rightarrow> pm_event list" where
  "recover_write g loc cs ns =
     (let pm_node = offset_to_loc g (loc_sector_no g loc * SECTOR_LEN) loc
      in recover_stores g pm_node cs ns @ flush_dax Graph_f pm_node (node_len g ns) @ barrier_dax)"

fun fix_nbrs ::
  "soft_cfg \<Rightarrow> recov_env \<Rightarrow> nat \<Rightarrow> meta_state \<Rightarrow> nat \<Rightarrow> pmem \<Rightarrow> nat list \<Rightarrow> nat list \<Rightarrow> pm_event list run" where
  "fix_nbrs C E gsize m i pm [] locs = Some (Inr [])"
| "fix_nbrs C E gsize m i pm (n # ns) [] = Some (Inl Undefined)"
| "fix_nbrs C E gsize m i pm (n # ns) (l # ls) =
     bind_run (Some (recover_read (sgeom C) gsize m pm n)) (\<lambda>r.
     bind_run (recover_nhood C E i r) (\<lambda>nhood.
       let evs = recover_write (sgeom C) l (coords r) nhood
       in bind_run (fix_nbrs C E gsize m i (pm_run evs pm) ns ls) (\<lambda>evs'. Some (Inr (evs @ evs')))))"

text \<open>The switch to the new locations: only the table in DRAM follows.\<close>

fun recover_switch ::
  "geom \<Rightarrow> meta_state \<Rightarrow> nat list \<Rightarrow> nat list \<Rightarrow> nat list \<Rightarrow> nat list \<Rightarrow> (meta_state \<times> nat list \<times> nat list) outcome" where
  "recover_switch g m [] locs orig hint = Inr (m, orig, hint)"
| "recover_switch g m (i # is) [] orig hint = Inl Undefined"
| "recover_switch g m (i # is) (l # ls) orig hint =
     and_then (id2loc m i) (\<lambda>old.
       recover_switch g (m\<lparr>id2loc_map := snd (insert_or_assign (id2loc_map m) i (u32 l))\<rparr>) is ls
         (orig @ [old]) (hint @ [loc_sector_no g old]))"

definition recover_code_events :: "recov_env \<Rightarrow> nat \<Rightarrow> nat list \<Rightarrow> pm_event list" where
  "recover_code_events E i cs =
     (let pq_coords = deflate_vector (rc_table E) (rc_floats E cs); target = i * pq_nchunks (rc_table E)
      in pm_stores PQ_f target pq_coords @ flush_dax PQ_f target (length pq_coords) @ barrier_dax)"

definition fix_node ::
  "soft_cfg \<Rightarrow> recov_env \<Rightarrow> pm_index \<Rightarrow> nat list \<Rightarrow> nat \<Rightarrow> (pm_index \<times> nat list) run" where
  "fix_node C E st hint_pages i =
     (let g = sgeom C
      in bind_run (Some (recover_read g (graph_size st) (meta st) (mem st) i)) (\<lambda>node.
         let pm = pm_run (recover_code_events E i (coords node)) (mem st)
         in bind_run (Some (alloc_loc_compact g (salloc C) (alloc (meta st)) (nnbrs node) hint_pages {})) (\<lambda>(new_locs, _, a, hint_pages).
            let m = (meta st)\<lparr>alloc := a\<rparr>; gsize = graph_extent g (graph_size st) new_locs
            in bind_run (fix_nbrs C E gsize m i pm (nbrs node) new_locs) (\<lambda>evs.
               bind_run (Some (recover_switch g m (nbrs node) new_locs [] hint_pages)) (\<lambda>(m, orig_locs, hint_pages).
               bind_run (Some (erase_and_set_loc g (alloc m) orig_locs new_locs (nbrs node))) (\<lambda>a.
                 Some (Inr (st\<lparr>meta := m\<lparr>alloc := a\<rparr>, mem := pm_run evs pm, graph_size := gsize\<rparr>,
                            sorted_list_of_set (set hint_pages)))))))))"

fun fix_nodes :: "soft_cfg \<Rightarrow> recov_env \<Rightarrow> pm_index \<Rightarrow> nat list \<Rightarrow> nat list \<Rightarrow> (pm_index \<times> nat list) run" where
  "fix_nodes C E st hint_pages [] = Some (Inr (st, hint_pages))"
| "fix_nodes C E st hint_pages (i # is) =
     bind_run (fix_node C E st hint_pages i) (\<lambda>(st, hint_pages). fix_nodes C E st hint_pages is)"

text \<open>
  The first id that is checked: 0, or with \<^verbatim>\<open>ISS_OPT\<close> 1000 before the number of points of the loaded file, an
  unsigned 32-bit difference.
\<close>

definition recover_from :: "bool \<Rightarrow> nat \<Rightarrow> nat" where
  "recover_from iss_opt num_points = (if iss_opt then nat ((int num_points - 1000) mod 2 ^ 32) else 0)"

definition recover ::
  "soft_cfg \<Rightarrow> recov_env \<Rightarrow> bool \<Rightarrow> nat \<Rightarrow> pm_index \<Rightarrow> nat list \<Rightarrow> (pm_index \<times> nat list) run" where
  "recover C E iss_opt num_points st es =
     (let m = recover_tables (sgeom C) (meta st) es
      in fix_nodes C E (st\<lparr>meta := m\<rparr>) [] [recover_from iss_opt num_points..<cur_id m])"

section \<open>The rebuilt tables\<close>

text \<open>The entries in use, and what the rebuilding relies on: different locations, within the counted pages.\<close>

definition used :: "nat list \<Rightarrow> nat \<Rightarrow> bool" where
  "used es i \<longleftrightarrow> i < length es \<and> (i = 0 \<or> es ! i \<noteq> 0)"

definition entries_ok :: "geom \<Rightarrow> nat list \<Rightarrow> bool" where
  "entries_ok g es \<longleftrightarrow> es \<noteq> [] \<and> length es + nnodes_per_sector g \<le> kAllocatedID \<and> inj_on (\<lambda>i. es ! i) (Collect (used es))
     \<and> (\<forall>x\<in>set es. x + 1 + nnodes_per_sector g < kInvalidID)
     \<and> (\<forall>x\<in>set es. x < (card (Collect (used es)) + nnodes_per_sector g - 1) div nnodes_per_sector g * nnodes_per_sector g)"

lemma used_snoc: "used (es @ [x]) i \<longleftrightarrow> used es i \<or> i = length es \<and> (i = 0 \<or> x \<noteq> 0)"
  by (auto simp: used_def nth_append)

lemma used_set_snoc:
  "Collect (used (es @ [x])) = (if length es = 0 \<or> x \<noteq> 0 then insert (length es) (Collect (used es)) else Collect (used es))"
  by (auto simp: used_def nth_append less_Suc_eq)

lemma finite_used [simp]: "finite (Collect (used es))"
  by (rule finite_subset[of _ "{..<length es}"]) (auto simp: used_def)

lemma used_less: "used es i \<Longrightarrow> i < length es"
  by (simp add: used_def)

lemma scan_snoc: "scan_id2loc (es @ [x]) = scan_entry (length es, x) (scan_id2loc es)"
  by (simp add: scan_id2loc_def enumerate_append_eq)

lemma scan_entry_sel:
  "sc_id2loc (scan_entry (i, loc) s) = (if i = 0 \<or> loc \<noteq> 0 then (sc_id2loc s)(i \<mapsto> loc) else sc_id2loc s)"
  "sc_loc2id (scan_entry (i, loc) s) = (if i = 0 \<or> loc \<noteq> 0 then (sc_loc2id s)(loc \<mapsto> i) else sc_loc2id s)"
  "sc_num_points (scan_entry (i, loc) s) = (if i = 0 \<or> loc \<noteq> 0 then sc_num_points s + 1 else sc_num_points s)"
  "sc_max_id (scan_entry (i, loc) s) = (if i = 0 \<or> loc \<noteq> 0 then i else sc_max_id s)"
  "sc_max_loc (scan_entry (i, loc) s) = max loc (sc_max_loc s)"
  by (auto simp: scan_entry_def Let_def)

lemma scan_map: "sc_id2loc (scan_id2loc es) = (\<lambda>i. if used es i then Some (es ! i) else None)"
proof (induction es rule: rev_induct)
  case (snoc x es)
  then show ?case
    by (auto simp: scan_snoc scan_entry_sel used_snoc fun_eq_iff nth_append dest: used_less)
qed (simp add: scan_id2loc_def scan_start_def used_def)

lemma scan_count: "sc_num_points (scan_id2loc es) = card (Collect (used es))"
proof (induction es rule: rev_induct)
  case (snoc x es)
  have "length es \<notin> Collect (used es)" by (simp add: used_def)
  then show ?case using snoc by (simp add: scan_snoc scan_entry_sel used_set_snoc)
qed (simp add: scan_id2loc_def scan_start_def used_def)

lemma scan_max_id: "es \<noteq> [] \<Longrightarrow> used es (sc_max_id (scan_id2loc es)) \<and> (\<forall>i. used es i \<longrightarrow> i \<le> sc_max_id (scan_id2loc es))"
proof (induction es rule: rev_induct)
  case (snoc x es)
  show ?case
  proof (cases "es = []")
    case True
    then show ?thesis using scan_snoc[of "[]" x] by (auto simp: scan_entry_sel used_def)
  next
    case False
    then show ?thesis using snoc by (auto simp: scan_snoc scan_entry_sel used_snoc dest: used_less)
  qed
qed simp

lemma scan_max_loc:
  "(\<forall>x\<in>set es. x \<le> sc_max_loc (scan_id2loc es)) \<and> sc_max_loc (scan_id2loc es) \<in> insert 0 (set es)"
proof (induction es rule: rev_induct)
  case (snoc x es)
  then show ?case by (auto simp: scan_snoc scan_entry_sel)
qed (simp add: scan_id2loc_def scan_start_def)

lemma scan_rev:
  assumes "inj_on (\<lambda>i. es ! i) (Collect (used es))"
  shows "sc_loc2id (scan_id2loc es) l = Some i \<longleftrightarrow> used es i \<and> es ! i = l"
  using assms
proof (induction es arbitrary: l i rule: rev_induct)
  case (snoc x es)
  have "inj_on (\<lambda>i. (es @ [x]) ! i) (Collect (used es))"
    using snoc.prems by (rule inj_on_subset) (auto simp: used_snoc)
  then have inj: "inj_on (\<lambda>i. es ! i) (Collect (used es))"
    by (rule inj_on_cong[THEN iffD1, rotated]) (auto simp: nth_append dest: used_less)
  have fresh: "es ! j \<noteq> x" if "used es j" "length es = 0 \<or> x \<noteq> 0" for j
  proof
    assume "es ! j = x"
    then have "(es @ [x]) ! j = (es @ [x]) ! length es" using used_less[OF that(1)] by (simp add: nth_append)
    then have "j = length es" using inj_onD[OF snoc.prems, of j "length es"] that by (auto simp: used_snoc)
    then show False using used_less[OF that(1)] by simp
  qed
  show ?case using snoc.IH[OF inj] fresh
    by (auto simp: scan_snoc scan_entry_sel used_snoc nth_append dest: used_less split: if_splits)
qed (simp add: scan_id2loc_def scan_start_def used_def)

text \<open>The layout: one entry for each counted page.\<close>

lemma recover_layout_eq:
  "recover_layout g s p =
     (let n = (sc_num_points s + nnodes_per_sector g - 1) div nnodes_per_sector g; b = loc_sector_no g 0
      in if b \<le> p \<and> p < b + n then Some (recover_page g (sc_loc2id s) (p - b)) else None)"
proof -
  let ?f = "\<lambda>i L. snd (cuckoo_insert L (i + loc_sector_no g 0) (recover_page g (sc_loc2id s) i))"
  have "fold ?f [0..<n] Map.empty p = (if loc_sector_no g 0 \<le> p \<and> p < loc_sector_no g 0 + n
      then Some (recover_page g (sc_loc2id s) (p - loc_sector_no g 0)) else None)" for n
    by (induction n) (auto simp: snd_cuckoo_insert dom_def)
  then show ?thesis by (simp add: recover_layout_def Let_def)
qed

lemma recover_page_nth:
  "j < kMaxElemInAPage \<Longrightarrow> j < nnodes_per_sector g \<Longrightarrow> recover_page g l2i i ! j
     = (case l2i (u32 (i * nnodes_per_sector g + j)) of Some x \<Rightarrow> x | None \<Rightarrow> kInvalidID)"
  by (simp add: recover_page_def)

lemma recover_slots:
  assumes g: "geom_paged g" and es: "entries_ok g es"
  shows "slots g (alloc (recover_tables g m es)) l
    = (case sc_loc2id (scan_id2loc es) l of Some i \<Rightarrow> i | None \<Rightarrow> kInvalidID)"
proof -
  let ?s = "scan_id2loc es" and ?n = "nnodes_per_sector g" and ?k = "card (Collect (used es))"
  let ?p = "(?k + ?n - 1) div ?n"
  have n: "0 < ?n" "?n \<le> kMaxElemInAPage" using g by (simp_all add: geom_paged_def)
  have inj: "inj_on (\<lambda>i. es ! i) (Collect (used es))" and b: "\<forall>x\<in>set es. x < ?p * ?n" and len: "length es + ?n \<le> kAllocatedID"
    using es by (simp_all add: entries_ok_def)
  have "Collect (used es) \<subseteq> {..<length es}" by (auto simp: used_def)
  from card_mono[OF _ this] have "?k \<le> length es" by simp
  moreover have "?p * ?n \<le> ?k + ?n - 1" by (rule div_times_less_eq_dividend)
  ultimately have small: "l < 4294967296" if "l < ?p * ?n" using that len unfolding kAllocatedID_def by linarith
  have lay: "page_layout (alloc (recover_tables g m es)) (loc_sector_no g l)
      = (if l div ?n < ?p then Some (recover_page g (sc_loc2id ?s) (l div ?n)) else None)"
    using n by (simp add: recover_tables_def Let_def recover_layout_eq scan_count loc_sector_no_def)
  show ?thesis
  proof (cases "l div ?n < ?p")
    case True
    then have "l < ?p * ?n" using n(1) by (simp add: div_less_iff_less_mult)
    then have "u32 (l div ?n * ?n + l mod ?n) = l" using small by (simp add: u32_small)
    moreover have "l mod ?n < ?n" "l mod ?n < kMaxElemInAPage" using n mod_less_divisor[OF n(1), of l] by linarith+
    ultimately show ?thesis using True lay by (simp add: slots_def recover_page_nth)
  next
    case False
    have "sc_loc2id ?s l = None"
    proof (rule ccontr)
      assume "sc_loc2id ?s l \<noteq> None"
      then obtain i where "used es i" "es ! i = l" using scan_rev[OF inj] by auto
      then have "l \<in> set es" by (auto simp: used_def)
      then show False using b False n(1) by (simp add: div_less_iff_less_mult)
    qed
    then show ?thesis using False lay by (simp add: slots_def)
  qed
qed

lemma used_locs_card:
  assumes "inj_on (\<lambda>i. es ! i) (Collect (used es))"
  shows "card (Collect (used es)) \<le> sc_max_loc (scan_id2loc es) + 1"
proof -
  have "(\<lambda>i. es ! i) ` Collect (used es) \<subseteq> {..sc_max_loc (scan_id2loc es)}" using scan_max_loc[of es] by (auto simp: used_def)
  from card_mono[OF _ this] have "card ((\<lambda>i. es ! i) ` Collect (used es)) \<le> sc_max_loc (scan_id2loc es) + 1" by simp
  then show ?thesis using card_image[OF assms] by simp
qed

lemma recover_alloc_inv:
  assumes g: "geom_paged g" and es: "entries_ok g es"
    and q: "cq_items (empty_pages (alloc m)) = []" "null_T (empty_pages (alloc m)) = kInvalidID"
  shows "alloc_inv g (alloc (recover_tables g m es))"
proof -
  let ?s = "scan_id2loc es" and ?n = "nnodes_per_sector g" and ?k = "card (Collect (used es))"
  let ?c = "align_loc g (sc_max_loc ?s + 1)"
  have n: "0 < ?n" using g by (simp add: geom_paged_def)
  note c = align_loc_facts[OF n, of "sc_max_loc ?s + 1"]
  have "sc_max_loc ?s + 1 + ?n < kInvalidID"
    using scan_max_loc[of es] es by (cases es) (auto simp: entries_ok_def kAllocatedID_def kInvalidID_def)
  then have cb: "?c < kInvalidID" using c(2) by simp
  have "?k \<le> ?c" using used_locs_card[of es] c(1) es by (simp add: entries_ok_def)
  then have "?k + ?n - 1 < (?c div ?n + 1) * ?n" using c(3) n by auto
  then have "(?k + ?n - 1) div ?n \<le> ?c div ?n" using n by (simp add: div_less_iff_less_mult flip: less_Suc_eq_le)
  then have "pages_ok g ?c (recover_layout g ?s)"
    using n by (auto simp: pages_ok_def recover_layout_eq Let_def scan_count recover_page_def loc_sector_no_def split: if_splits)
  then show ?thesis using q c(3) cb by (simp add: alloc_inv_def recover_tables_def Let_def queue_ok_def)
qed

lemma recover_map_inv:
  assumes g: "geom_paged g" and es: "entries_ok g es"
    and q: "cq_items (empty_pages (alloc m)) = []" "null_T (empty_pages (alloc m)) = kInvalidID"
  shows "map_inv g (recover_tables g m es)"
proof -
  let ?m = "recover_tables g m es"
  have inj: "inj_on (\<lambda>i. es ! i) (Collect (used es))" and len: "length es \<le> kAllocatedID" using es by (auto simp: entries_ok_def)
  have mp: "id2loc_map ?m i = Some l \<longleftrightarrow> used es i \<and> es ! i = l" for i l
    by (simp add: recover_tables_def Let_def scan_map)
  have id: "i < kAllocatedID" if "used es i" for i using used_less[OF that] len by simp
  have "i < kAllocatedID \<and> slots g (alloc ?m) l = i" if "id2loc_map ?m i = Some l" for i l
    using that id scan_rev[OF inj, of l i] mp recover_slots[OF g es, of m l] by simp
  moreover have "id2loc_map ?m (slots g (alloc ?m) l) = Some l" if "slots g (alloc ?m) l \<notin> {kInvalidID, kAllocatedID}" for l
    using that scan_rev[OF inj, of l] mp recover_slots[OF g es, of m l] by (auto split: option.splits)
  ultimately show ?thesis using recover_alloc_inv[OF assms] by (simp add: map_inv_def)
qed


section \<open>One neighbour\<close>

lemma recover_stores_eq: "recover_stores g b cs ns = node_stores ex_pmdk g b cs ns"
  by (simp add: recover_stores_def node_stores_def ex_pmdk_def)

lemma recover_write_stored:
  assumes "length cs = coords_len g" "k < length (node_bytes cs ns)"
  shows "stored (pm_run (recover_write g l cs ns) pm) (Graph_f, u_loc_offset g l + k) (node_bytes cs ns ! k)"
  using node_stores_stored[OF ex_pmdk_ok assms, of "u_loc_offset g l" pm]
  by (simp add: recover_write_def Let_def offset_to_loc_pm recover_stores_eq pm_run_append run_keeps(1))

lemma recover_write_untouched:
  assumes "length cs = coords_len g"
  shows "untouched c (recover_write g l cs ns) \<longleftrightarrow>
    \<not> (fst c = Graph_f \<and> u_loc_offset g l \<le> snd c \<and> snd c < u_loc_offset g l + length (node_bytes cs ns))"
  using node_stores_untouched[OF ex_pmdk_ok assms, of c "u_loc_offset g l" ns]
  by (simp add: recover_write_def Let_def offset_to_loc_pm recover_stores_eq barrier_dax_def)

lemma recover_write_other_slot:
  assumes "geom_ok g" "length cs = coords_len g" "length (node_bytes cs ns) \<le> max_node_len g" "l' \<noteq> l" "j < max_node_len g"
  shows "untouched (Graph_f, u_loc_offset g l' + j) (recover_write g l cs ns)"
proof -
  have "u_loc_offset g l' + j \<noteq> u_loc_offset g l + k" if "k < length (node_bytes cs ns)" for k
    using slot_disjoint[OF assms(1,4,5), of k] assms(3) that by simp
  then have "\<not> (u_loc_offset g l \<le> u_loc_offset g l' + j \<and> u_loc_offset g l' + j < u_loc_offset g l + length (node_bytes cs ns))"
    by (metis add_diff_inverse_nat less_diff_conv2 not_less add.commute)
  then show ?thesis by (simp add: recover_write_untouched[OF assms(2)])
qed

lemma node_at_frame:
  assumes "node_at g (graph_bytes pm) l cs ns" "pm_wf pm" "\<And>j. j < max_node_len g \<Longrightarrow> untouched (Graph_f, u_loc_offset g l + j) evs"
  shows "node_at g (graph_bytes (pm_run evs pm)) l cs ns"
  using assms untouched_visible[OF assms(2)] by (simp add: node_at_def bytes_at_def)

lemma recover_read_ok:
  assumes g: "geom_paged g" and l: "id2loc_map m i = Some l" and n: "node_at g (graph_bytes pm) l cs ns"
    and sz: "loc_sector_no g l * SECTOR_LEN + SECTOR_LEN \<le> gsize"
  shows "recover_read g gsize m pm i = Inr (as_DiskNode i cs ns)"
proof -
  let ?off = "offset_to_loc g 0 l" and ?b = "map (\<lambda>j. graph_bytes pm (loc_sector_no g l * SECTOR_LEN + j)) [0..<SECTOR_LEN]"
  have f: "node_fits g cs ns" "length (node_bytes cs ns) \<le> max_node_len g" "bytes_at (graph_bytes pm) (u_loc_offset g l) (node_bytes cs ns)"
    using n by (simp_all add: node_at_def)
  have s: "?off + max_node_len g \<le> SECTOR_LEN"
    using slot_in_page[OF g, of l] g by (simp add: size_per_io_def geom_paged_def)
  have "?b ! (?off + k) = node_bytes cs ns ! k" if "k < length (node_bytes cs ns)" for k
  proof -
    have "?off + k < SECTOR_LEN" using that f(2) s by simp
    then have "?b ! (?off + k) = graph_bytes pm (u_loc_offset g l + k)" by (simp add: u_loc_offset_split add.assoc)
    then show ?thesis using f(3) that by (simp add: bytes_at_def)
  qed
  then have "bytes_at (\<lambda>j. ?b ! j) ?off (node_bytes cs ns)" by (simp add: bytes_at_def)
  from node_read_back[OF f(1) this, of i] have r: "mk_DiskNode g (\<lambda>j. ?b ! j) i ?off = as_DiskNode i cs ns"
    by (simp add: as_DiskNode_def)
  have "offset_to_node_nhood g ?off + 4 + 4 * length ns \<le> SECTOR_LEN"
    using s f(1,2) by (simp add: offset_to_node_nhood_def node_fits_def coords_len_def)
  then show ?thesis using r sz l by (simp add: recover_read_def id2loc_def Let_def as_DiskNode_def)
qed

text \<open>
  The lists that recovery can extend: the node is in the list, or there is room, or all codes that the pruning
  reads are in memory.
\<close>

definition can_fix :: "soft_cfg \<Rightarrow> recov_env \<Rightarrow> nat \<Rightarrow> nat \<Rightarrow> nat list \<Rightarrow> bool" where
  "can_fix C E i n ns \<longleftrightarrow> i \<in> set ns \<or> length ns < prange (sprune C) \<or> codes_loaded E (set (i # n # ns))"

text \<open>What the new list has to do with the old one.\<close>

definition fixed_list :: "soft_cfg \<Rightarrow> nat \<Rightarrow> nat list \<Rightarrow> nat list \<Rightarrow> bool" where
  "fixed_list C i ns nh \<longleftrightarrow> distinct nh \<and> nh \<noteq> [] \<and> set nh \<subseteq> insert i (set ns) \<and> length nh \<le> prange (sprune C)
     \<and> (i \<in> set ns \<longrightarrow> nh = ns) \<and> (i \<notin> set ns \<longrightarrow> length ns < prange (sprune C) \<longrightarrow> nh = ns @ [i])
     \<and> (i \<notin> set ns \<longrightarrow> length ns = prange (sprune C) \<longrightarrow> one_removed (ns @ [i]) nh)"

lemma recover_nhood_ok:
  assumes v: "variant_ok C" "svariant C = BATCH_PRUNING" and ns: "distinct ns" "length ns \<le> prange (sprune C)"
    and fx: "can_fix C E i n ns"
  shows "\<exists>nh. recover_nhood C E i (as_DiskNode n cs ns) = Some (Inr nh) \<and> fixed_list C i ns nh"
proof (cases "i \<notin> set ns \<and> length ns = prange (sprune C)")
  case True
  let ?P = "sprune C" and ?d = "pq_dist_of (rc_table E) (rc_data E)"
  obtain a where a: "alpha ?P = Fin a" "a < 2 ^ 128" "16 \<le> prange ?P" "PRUNE_BATCH_SIZE ?P dvd prange ?P + 1"
    using v by (auto simp: variant_ok_def)
  obtain nh where nh: "batch_prune ?P ?d i n (ns @ [i]) = Some (Inr nh)" "one_removed (ns @ [i]) nh" "length nh = prange ?P"
    using batch_prune_ok[OF a(1-3), of "ns @ [i]" i ?d n] a(4) True by auto
  have "distinct nh" "set nh \<subseteq> insert i (set ns)"
    using one_removed_distinct[OF nh(2)] one_removed_length[OF nh(2)] True ns(1) by auto
  moreover have "nh \<noteq> []" using nh(3) a(3) by auto
  moreover have "codes_loaded E (set (i # n # ns @ [i]))" using fx True by (auto simp: can_fix_def codes_loaded_def)
  ultimately show ?thesis using nh True by (simp add: recover_nhood_def as_DiskNode_def fixed_list_def)
next
  case False
  then show ?thesis using ns by (auto simp: recover_nhood_def as_DiskNode_def fixed_list_def Let_def)
qed

section \<open>All neighbours of a node\<close>

lemma fix_nbrs_run:
  assumes g: "geom_paged (sgeom C)"
    and nodes: "\<And>n. n \<in> set is \<Longrightarrow> \<exists>l. id2loc_map m n = Some l \<and> l \<in> L \<and> node_at (sgeom C) (graph_bytes pm) l (cs n) (ns n)"
    and nh: "\<And>n. n \<in> set is \<Longrightarrow> recover_nhood C E i (as_DiskNode n (cs n) (ns n)) = Some (Inr (nh n))"
    and len: "\<And>n. n \<in> set is \<Longrightarrow> length (node_bytes (cs n) (nh n)) \<le> max_node_len (sgeom C)"
    and sz: "\<And>l. l \<in> L \<Longrightarrow> loc_sector_no (sgeom C) l * SECTOR_LEN + SECTOR_LEN \<le> gsize"
    and "pm_wf pm" "length is \<le> length ls" "set ls \<inter> L = {}"
  shows "fix_nbrs C E gsize m i pm is ls = Some (Inr (concat (map (\<lambda>(n, l). recover_write (sgeom C) l (cs n) (nh n)) (zip is ls))))"
  using nodes nh len assms(6-)
proof (induction "is" arbitrary: ls pm)
  case (Cons n "is")
  let ?g = "sgeom C"
  have go: "geom_ok ?g" using g by (simp add: geom_paged_def)
  obtain l ls' where ls: "ls = l # ls'" using Cons.prems(5) by (cases ls) auto
  obtain l0 where l0: "id2loc_map m n = Some l0" "l0 \<in> L" "node_at ?g (graph_bytes pm) l0 (cs n) (ns n)"
    using Cons.prems(1) by auto
  let ?e = "recover_write ?g l (cs n) (nh n)"
  have c: "length (cs n) = coords_len ?g" by (rule node_at_length[OF l0(3)])
  have b: "length (node_bytes (cs n) (nh n)) \<le> max_node_len ?g" using Cons.prems(3) by simp
  have keep: "node_at ?g (graph_bytes (pm_run ?e pm)) l' xs ys" if "node_at ?g (graph_bytes pm) l' xs ys" "l' \<in> L" for l' xs ys
    using that Cons.prems(4,6) ls by (intro node_at_frame recover_write_other_slot[OF go c b]) auto
  have "fix_nbrs C E gsize m i (pm_run ?e pm) is ls' = Some (Inr (concat (map (\<lambda>(n, l). recover_write ?g l (cs n) (nh n)) (zip is ls'))))"
  proof (rule Cons.IH)
    show "\<exists>l. id2loc_map m k = Some l \<and> l \<in> L \<and> node_at ?g (graph_bytes (pm_run ?e pm)) l (cs k) (ns k)" if k: "k \<in> set is" for k
    proof -
      obtain l1 where "id2loc_map m k = Some l1" "l1 \<in> L" "node_at ?g (graph_bytes pm) l1 (cs k) (ns k)"
        using Cons.prems(1)[of k] k by auto
      then show ?thesis using keep by blast
    qed
  qed (use Cons.prems ls pm_wf_run in auto)
  then show ?case using recover_read_ok[OF g l0(1,3) sz[OF l0(2)]] Cons.prems(2)[of n] ls by (simp add: as_DiskNode_def)
qed simp

definition writes_of :: "geom \<Rightarrow> (nat \<times> nat list \<times> nat list) list \<Rightarrow> pm_event list" where
  "writes_of g W = concat (map (\<lambda>(l, cs, ns). recover_write g l cs ns) W)"

lemma writes_of_other_slot:
  assumes "geom_ok g" "fit_nodes g W" "l \<notin> fst ` set W" "j < max_node_len g"
  shows "untouched (Graph_f, u_loc_offset g l + j) (writes_of g W)"
  unfolding writes_of_def
proof (rule untouched_concat)
  fix xs assume "xs \<in> set (map (\<lambda>(l, cs, ns). recover_write g l cs ns) W)"
  then obtain l' cs ns where w: "(l', cs, ns) \<in> set W" "xs = recover_write g l' cs ns" by auto
  have f: "length cs = coords_len g" "length (node_bytes cs ns) \<le> max_node_len g" "l \<noteq> l'"
    using w(1) assms(2,3) by (force simp: fit_nodes_def)+
  show "untouched (Graph_f, u_loc_offset g l + j) xs"
    unfolding w(2) by (rule recover_write_other_slot[OF assms(1) f assms(4)])
qed

lemma writes_of_stored:
  assumes "geom_ok g" "fit_nodes g W" "distinct (map fst W)" "(l, cs, ns) \<in> set W" "k < length (node_bytes cs ns)"
  shows "stored (pm_run (writes_of g W) m) (Graph_f, u_loc_offset g l + k) (node_bytes cs ns ! k)"
proof -
  obtain A B where W: "W = A @ (l, cs, ns) # B" using assms(4) by (meson split_list)
  have f: "length cs = coords_len g" "length (node_bytes cs ns) \<le> max_node_len g"
    using assms(2,4) by (auto simp: fit_nodes_def)
  have "writes_of g W = writes_of g A @ recover_write g l cs ns @ writes_of g B" by (simp add: writes_of_def W)
  moreover have "untouched (Graph_f, u_loc_offset g l + k) (writes_of g B)"
  proof (rule writes_of_other_slot[OF assms(1)])
    show "fit_nodes g B" using assms(2) by (simp add: fit_nodes_def W)
    show "l \<notin> fst ` set B" using assms(3) by (simp add: W)
    show "k < max_node_len g" using assms(5) f(2) by simp
  qed
  ultimately show ?thesis using recover_write_stored[OF f(1) assms(5)] run_keeps(1) by (simp add: pm_run_append)
qed

text \<open>The new versions that recovery writes.\<close>

definition fix_versions ::
  "soft_cfg \<Rightarrow> recov_env \<Rightarrow> meta_state \<Rightarrow> pmem \<Rightarrow> nat \<Rightarrow> nat list \<Rightarrow> (nat \<Rightarrow> nat list) \<Rightarrow> (nat \<Rightarrow> nat list) \<Rightarrow> (nat \<Rightarrow> nat list) \<Rightarrow> bool" where
  "fix_versions C E m pm i is cs ns nh \<longleftrightarrow> (\<forall>n\<in>set is.
     node_at (sgeom C) (graph_bytes pm) (the (id2loc_map m n)) (cs n) (ns n) \<and> set (ns n) \<subseteq> dom (id2loc_map m)
     \<and> recover_nhood C E i (as_DiskNode n (cs n) (ns n)) = Some (Inr (nh n)) \<and> fixed_list C i (ns n) (nh n))"

text \<open>The lists at which recovery does not read past the codes.\<close>

definition fixable :: "soft_cfg \<Rightarrow> recov_env \<Rightarrow> meta_state \<Rightarrow> pmem \<Rightarrow> nat \<Rightarrow> nat list \<Rightarrow> bool" where
  "fixable C E m pm i is \<longleftrightarrow> (\<forall>n\<in>set is. \<forall>l cs ns. id2loc_map m n = Some l \<longrightarrow> node_at (sgeom C) (graph_bytes pm) l cs ns \<longrightarrow> can_fix C E i n ns)"

lemma fix_versions_exist:
  assumes C: "cfg_ok C" "svariant C = BATCH_PRUNING" and inv: "graph_inv C m pm" and "is": "set is \<subseteq> dom (id2loc_map m)"
    and fx: "fixable C E m pm i is"
  shows "\<exists>cs ns nh. fix_versions C E m pm i is cs ns nh"
proof -
  have v: "variant_ok C" using C by (simp add: cfg_ok_def)
  define Q where "Q = (\<lambda>n v. case v of (cs, ns, k) \<Rightarrow> node_at (sgeom C) (graph_bytes pm) (the (id2loc_map m n)) cs ns
     \<and> set ns \<subseteq> dom (id2loc_map m) \<and> recover_nhood C E i (as_DiskNode n cs ns) = Some (Inr k) \<and> fixed_list C i ns k)"
  have "\<exists>v. Q n v" if n: "n \<in> set is" for n
  proof -
    obtain l where l: "id2loc_map m n = Some l" using n "is" by blast
    then obtain cs ns where r: "node_at (sgeom C) (graph_bytes pm) l cs ns" "distinct ns" "set ns \<subseteq> dom (id2loc_map m)"
      "length ns \<le> prange (sprune C)" using inv unfolding graph_inv_def by blast
    have "can_fix C E i n ns" using fx n l r(1) unfolding fixable_def by blast
    from recover_nhood_ok[OF v C(2) r(2,4) this, of cs]
    obtain k where "recover_nhood C E i (as_DiskNode n cs ns) = Some (Inr k)" "fixed_list C i ns k" by blast
    then have "Q n (cs, ns, k)" using r l by (simp add: Q_def)
    then show ?thesis by blast
  qed
  then obtain f where f: "\<And>n. n \<in> set is \<Longrightarrow> Q n (f n)" using bchoice[of "set is" Q] by blast
  have "Q n (fst (f n), fst (snd (f n)), snd (snd (f n)))" if "n \<in> set is" for n using f[OF that] by simp
  then have "fix_versions C E m pm i is (\<lambda>n. fst (f n)) (\<lambda>n. fst (snd (f n))) (\<lambda>n. snd (snd (f n)))"
    by (simp add: fix_versions_def Q_def case_prod_beta)
  then show ?thesis by blast
qed

section \<open>One node\<close>

lemma recover_switch_ok:
  assumes "distinct is" "set is \<subseteq> dom (id2loc_map m)" "length is \<le> length ls" "\<forall>l\<in>set ls. l < 4294967296"
  shows "recover_switch g m is ls orig hint = Inr (m\<lparr>id2loc_map := id2loc_map m ++ map_of (zip is ls)\<rparr>,
     orig @ map (the \<circ> id2loc_map m) is, hint @ map (loc_sector_no g \<circ> the \<circ> id2loc_map m) is)"
  using assms
proof (induction g m "is" ls orig hint rule: recover_switch.induct)
  case (3 g m i "is" l ls orig hint)
  obtain old where old: "id2loc_map m i = Some old" using "3.prems"(2) by auto
  have u: "u32 l = l" using "3.prems"(4) by (auto intro: u32_small)
  let ?m = "m\<lparr>id2loc_map := snd (insert_or_assign (id2loc_map m) i (u32 l))\<rparr>"
  have m: "id2loc_map ?m = (id2loc_map m)(i \<mapsto> l)" by (simp add: u)
  have r: "recover_switch g ?m is ls (orig @ [old]) (hint @ [loc_sector_no g old]) = Inr
    (?m\<lparr>id2loc_map := id2loc_map ?m ++ map_of (zip is ls)\<rparr>, (orig @ [old]) @ map (the \<circ> id2loc_map ?m) is,
     (hint @ [loc_sector_no g old]) @ map (loc_sector_no g \<circ> the \<circ> id2loc_map ?m) is)"
    using "3.prems" m by (intro "3.IH") auto
  have e: "map (the \<circ> (id2loc_map m)(i \<mapsto> l)) is = map (the \<circ> id2loc_map m) is"
    "map (loc_sector_no g \<circ> the \<circ> (id2loc_map m)(i \<mapsto> l)) is = map (loc_sector_no g \<circ> the \<circ> id2loc_map m) is"
    using "3.prems"(1) by auto
  define F where "F = map_of (zip (i # is) (l # ls))"
  have f: "(id2loc_map m)(i \<mapsto> l) ++ map_of (zip is ls) = id2loc_map m ++ F" unfolding F_def
    using "3.prems"(1) map_of_zip_notin[of i "is" ls] by (simp add: map_add_upd_left domIff)
  have "recover_switch g m (i # is) (l # ls) orig hint = recover_switch g ?m is ls (orig @ [old]) (hint @ [loc_sector_no g old])"
    by (simp add: old id2loc_def)
  then show ?case unfolding r m e F_def[symmetric] using f old by simp
qed auto

lemma old_locs_ok:
  assumes inv: "map_inv g m" and "is": "distinct is" "set is \<subseteq> dom (id2loc_map m)"
  shows "distinct (map (the \<circ> id2loc_map m) is)"
    and "l \<in> set (map (the \<circ> id2loc_map m) is) \<longleftrightarrow> (\<exists>i\<in>set is. id2loc_map m i = Some l)"
proof -
  have "inj_on (the \<circ> id2loc_map m) (set is)"
  proof (rule inj_onI)
    fix i j assume "i \<in> set is" "j \<in> set is" and eq: "(the \<circ> id2loc_map m) i = (the \<circ> id2loc_map m) j"
    then obtain a b where "id2loc_map m i = Some a" "id2loc_map m j = Some b" using "is"(2) by blast
    then show "i = j" using map_inv_inj[OF inv] eq by simp
  qed
  then show "distinct (map (the \<circ> id2loc_map m) is)" using "is"(1) by (simp add: distinct_map)
  show "l \<in> set (map (the \<circ> id2loc_map m) is) \<longleftrightarrow> (\<exists>i\<in>set is. id2loc_map m i = Some l)" using "is"(2) by force
qed

text \<open>The switch of the tables after the records are written.\<close>

lemma recover_tables_switch:
  assumes g: "geom_paged g" and inv: "map_inv g m"
    and "is": "distinct is" "set is \<subseteq> dom (id2loc_map m)"
    and ls: "length ls = length is" "distinct ls" "\<forall>l\<in>set ls. slots g (alloc m) l = kAllocatedID"
  shows "\<exists>m1 a. recover_switch g m is ls [] hint = Inr (m1, map (the \<circ> id2loc_map m) is, hint @ map (loc_sector_no g \<circ> the \<circ> id2loc_map m) is)
    \<and> erase_and_set_loc g (alloc m1) (map (the \<circ> id2loc_map m) is) ls is = Inr a
    \<and> map_inv g (m1\<lparr>alloc := a\<rparr>) \<and> id2loc_map m1 = id2loc_map m ++ map_of (zip is ls)
    \<and> alloc m1 = alloc m \<and> cur_id m1 = cur_id m \<and> cur_loc a = cur_loc (alloc m)"
proof -
  let ?old = "map (the \<circ> id2loc_map m) is" and ?m1 = "m\<lparr>id2loc_map := id2loc_map m ++ map_of (zip is ls)\<rparr>"
  have ai: "alloc_inv g (alloc m)" using inv by (simp add: map_inv_def)
  have "l < 4294967296" if "l \<in> set ls" for l
  proof -
    have "l < cur_loc (alloc m)" using slots_live_bound[OF ai, of l] that ls(3) sentinels_distinct by auto
    then show ?thesis using ai by (simp add: alloc_inv_def kInvalidID_def)
  qed
  then have sw: "recover_switch g m is ls [] hint = Inr (?m1, ?old, hint @ map (loc_sector_no g \<circ> the \<circ> id2loc_map m) is)"
    using recover_switch_ok[OF "is", of ls g "[]" hint] ls(1) by simp
  note old = old_locs_ok[OF inv "is"]
  have live: "slots g (alloc m) l \<noteq> kInvalidID \<and> slots g (alloc m) l \<noteq> kAllocatedID" if "l \<in> set ?old" for l
  proof -
    have "\<exists>i\<in>set is. id2loc_map m i = Some l" using that by (simp only: old(2))
    then obtain i where "id2loc_map m i = Some l" by blast
    from map_invD(1,2)[OF inv this] show ?thesis by (auto simp: kInvalidID_def kAllocatedID_def)
  qed
  have h1: "\<forall>l\<in>set ls. slots g (alloc m) l \<noteq> kInvalidID" using ls(3) by simp
  have h2: "\<forall>l\<in>set ?old. slots g (alloc m) l \<noteq> kInvalidID" using live by blast
  have h3: "set ?old \<inter> set ls = {}" using ls(3) live unfolding disjoint_iff by blast
  obtain a where a: "erase_and_set_loc g (alloc m) ?old ls is = Inr a" "alloc_inv g a"
    "slots g a = (\<lambda>l. if l \<in> set ?old then kInvalidID else case map_of (zip ls is) l of Some i \<Rightarrow> i | None \<Rightarrow> slots g (alloc m) l)"
    using erase_and_set_loc_slots[OF g ai ls(1)[symmetric] ls(2) h1 old(1) h2 h3] by blast
  have "\<forall>i\<in>set is. i < kAllocatedID" using "is"(2) map_invD(1)[OF inv] by blast
  moreover have "slots g a = (\<lambda>l. if \<exists>i\<in>set is. id2loc_map m i = Some l then kInvalidID
      else case map_of (zip ls is) l of Some i \<Rightarrow> i | None \<Rightarrow> slots g (alloc m) l)" unfolding a(3) by (simp only: old(2))
  ultimately have "map_inv g (?m1\<lparr>alloc := a\<rparr>)"
    by (rule map_inv_switch[OF inv a(2) "is"(1) _ ls]) simp_all
  moreover have "erase_and_set_loc g (alloc ?m1) ?old ls is = Inr a" using a(1) by simp
  moreover have "id2loc_map ?m1 = id2loc_map m ++ map_of (zip is ls)" "alloc ?m1 = alloc m" "cur_id ?m1 = cur_id m" by simp_all
  ultimately show ?thesis using sw erase_and_set_loc_cur_loc[OF a(1)] by (intro exI[of _ ?m1] exI[of _ a] conjI)
qed

text \<open>Every record of the index lies in the mapped part of the file; every node has a neighbour.\<close>

definition all_mapped :: "geom \<Rightarrow> meta_state \<Rightarrow> nat \<Rightarrow> bool" where
  "all_mapped g m gsize \<longleftrightarrow> (\<forall>i l. id2loc_map m i = Some l \<longrightarrow> loc_sector_no g l * SECTOR_LEN + SECTOR_LEN \<le> gsize)"

definition all_linked :: "geom \<Rightarrow> meta_state \<Rightarrow> pmem \<Rightarrow> bool" where
  "all_linked g m pm \<longleftrightarrow> (\<forall>i l cs ns. id2loc_map m i = Some l \<longrightarrow> node_at g (graph_bytes pm) l cs ns \<longrightarrow> ns \<noteq> [])"

definition recov_inv :: "soft_cfg \<Rightarrow> pm_index \<Rightarrow> nat list \<Rightarrow> bool" where
  "recov_inv C st hint \<longleftrightarrow> graph_inv C (meta st) (mem st) \<and> all_mapped (sgeom C) (meta st) (graph_size st)
     \<and> all_linked (sgeom C) (meta st) (mem st) \<and> (\<forall>p\<in>set hint. p < 2 ^ 32)"

lemma node_at_unique:
  assumes "node_at g rd l cs ns" "node_at g rd l cs' ns'"
  shows "cs' = cs \<and> ns' = ns"
  using node_read_back[of g cs ns rd "u_loc_offset g l" 0] node_read_back[of g cs' ns' rd "u_loc_offset g l" 0] assms
  by (simp add: node_at_def)

lemma graph_extent_sector:
  assumes "l \<in> set locs"
  shows "loc_sector_no g l * SECTOR_LEN + SECTOR_LEN \<le> graph_extent g fsize locs"
proof -
  let ?m = "foldl (\<lambda>m l. if l > m then l else m) 0 locs"
  have "loc_sector_no g l \<le> loc_sector_no g ?m" using foldl_max[of l locs 0] assms by (intro loc_sector_no_mono) simp
  then have "loc_sector_no g l * SECTOR_LEN \<le> loc_sector_no g ?m * SECTOR_LEN" by (rule mult_le_mono1)
  moreover have "loc_sector_no g ?m * SECTOR_LEN + SECTOR_LEN \<le> graph_extent g fsize locs" by (simp add: graph_extent_def Let_def)
  ultimately show ?thesis by linarith
qed

lemma graph_extent_grows: "fsize \<le> graph_extent g fsize locs"
  by (simp add: graph_extent_def Let_def)

lemma graph_inv_other_file:
  assumes "graph_inv C m pm" "\<And>j. untouched (Graph_f, j) evs"
  shows "graph_inv C m (pm_run evs pm)" "node_at (sgeom C) (graph_bytes (pm_run evs pm)) l cs ns \<longleftrightarrow> node_at (sgeom C) (graph_bytes pm) l cs ns"
proof -
  have wf: "pm_wf pm" using assms(1) by (simp add: graph_inv_def)
  have "graph_bytes (pm_run evs pm) = graph_bytes pm" using untouched_visible[OF wf assms(2)] by simp
  then show "graph_inv C m (pm_run evs pm)" "node_at (sgeom C) (graph_bytes (pm_run evs pm)) l cs ns \<longleftrightarrow> node_at (sgeom C) (graph_bytes pm) l cs ns"
    using assms(1) pm_wf_run[OF wf] by (simp_all add: graph_inv_def)
qed

lemma recover_code_untouched: "untouched (Graph_f, j) (recover_code_events E i cs)"
  by (simp add: recover_code_events_def Let_def)

text \<open>The graph after the records are written and the tables follow.\<close>

lemma fixed_node_at:
  assumes C: "cfg_ok C" and inv: "map_inv (sgeom C) m" and i: "i < kAllocatedID"
    and ver: "fix_versions C E m pm i is cs ns nh" and n: "n \<in> set is"
    and b: "bytes_at rd (u_loc_offset (sgeom C) l) (node_bytes (cs n) (nh n))"
  shows "node_at (sgeom C) rd l (cs n) (nh n)"
proof -
  have v: "length (cs n) = coords_len (sgeom C)" "set (nh n) \<subseteq> insert i (dom (id2loc_map m))" "length (nh n) \<le> prange (sprune C)"
    using ver n node_at_length by (auto simp: fix_versions_def fixed_list_def)
  have "k < 2 ^ 32" if "k \<in> set (nh n)" for k using that v(2) i map_invD(1)[OF inv] by (force simp: kAllocatedID_def)
  moreover have "length (nh n) < 2 ^ 32" using v(3) C by (simp add: cfg_ok_def)
  ultimately show ?thesis using b v(1) node_bytes_fit[OF C v(1,3)] by (simp add: node_at_def node_fits_def)
qed

definition fix_nodes_at :: "nat list \<Rightarrow> nat list \<Rightarrow> (nat \<Rightarrow> nat list) \<Rightarrow> (nat \<Rightarrow> nat list) \<Rightarrow> (nat \<times> nat list \<times> nat list) list" where
  "fix_nodes_at is ls cs nh = map (\<lambda>(n, l). (l, cs n, nh n)) (zip is ls)"

lemma fix_nodes_at_ok:
  assumes C: "cfg_ok C" and ver: "fix_versions C E m pm i is cs ns nh" and ls: "length ls = length is" "distinct ls"
  shows "fit_nodes (sgeom C) (fix_nodes_at is ls cs nh)" "map fst (fix_nodes_at is ls cs nh) = ls"
    "concat (map (\<lambda>(n, l). recover_write (sgeom C) l (cs n) (nh n)) (zip is ls)) = writes_of (sgeom C) (fix_nodes_at is ls cs nh)"
proof -
  have "length (cs n) = coords_len (sgeom C) \<and> length (node_bytes (cs n) (nh n)) \<le> max_node_len (sgeom C)" if "n \<in> set is" for n
    using ver that node_at_length node_bytes_fit[OF C, of "cs n" "nh n"] by (auto simp: fix_versions_def fixed_list_def)
  then show "fit_nodes (sgeom C) (fix_nodes_at is ls cs nh)"
    by (auto simp: fit_nodes_def fix_nodes_at_def dest: set_zip_leftD)
  show "map fst (fix_nodes_at is ls cs nh) = ls" using ls(1) map_snd_zip[of "is" ls] by (simp add: fix_nodes_at_def comp_def case_prod_unfold)
  show "concat (map (\<lambda>(n, l). recover_write (sgeom C) l (cs n) (nh n)) (zip is ls)) = writes_of (sgeom C) (fix_nodes_at is ls cs nh)"
    by (simp add: writes_of_def fix_nodes_at_def comp_def case_prod_unfold)
qed

lemma fix_effect:
  assumes C: "cfg_ok C" and inv: "graph_inv C m pm" and i: "i < kAllocatedID"
    and ver: "fix_versions C E m pm i is cs ns nh" and ls: "length ls = length is" "distinct ls"
    and pm': "pm' = pm_run (writes_of (sgeom C) (fix_nodes_at is ls cs nh)) pm"
  shows "(n, l) \<in> set (zip is ls) \<Longrightarrow> node_at (sgeom C) (graph_bytes pm') l (cs n) (nh n)"
    and "l \<notin> set ls \<Longrightarrow> j < max_node_len (sgeom C) \<Longrightarrow> graph_bytes pm' (u_loc_offset (sgeom C) l + j) = graph_bytes pm (u_loc_offset (sgeom C) l + j)"
    and "l \<notin> set ls \<Longrightarrow> node_at (sgeom C) (graph_bytes pm) l c k \<Longrightarrow> node_at (sgeom C) (graph_bytes pm') l c k"
proof -
  let ?g = "sgeom C" and ?W = "fix_nodes_at is ls cs nh"
  have g: "geom_ok ?g" using C by (simp add: cfg_ok_def geom_paged_def)
  have mi: "map_inv ?g m" and wf: "pm_wf pm" using inv by (simp_all add: graph_inv_def)
  note W = fix_nodes_at_ok[OF C ver ls]
  have d: "distinct (map fst ?W)" "fst ` set ?W = set ls" using W(2) ls(2) by (simp_all flip: set_map)
  show "node_at ?g (graph_bytes pm') l (cs n) (nh n)" if nl: "(n, l) \<in> set (zip is ls)"
  proof (rule fixed_node_at[OF C mi i ver set_zip_leftD[OF nl]])
    have "(l, cs n, nh n) \<in> set ?W" using nl by (force simp: fix_nodes_at_def)
    then show "bytes_at (graph_bytes pm') (u_loc_offset ?g l) (node_bytes (cs n) (nh n))"
      unfolding pm' by (intro bytes_at_stored writes_of_stored[OF g W(1) d(1)])
  qed
  have un: "untouched (Graph_f, u_loc_offset ?g l + j) (writes_of ?g ?W)" if "l \<notin> set ls" "j < max_node_len ?g" for l j
    using that d(2) by (intro writes_of_other_slot[OF g W(1)]) auto
  show "graph_bytes pm' (u_loc_offset ?g l + j) = graph_bytes pm (u_loc_offset ?g l + j)" if "l \<notin> set ls" "j < max_node_len ?g"
    unfolding pm' by (rule untouched_visible[OF wf un[OF that]])
  show "node_at ?g (graph_bytes pm') l c k" if "l \<notin> set ls" "node_at ?g (graph_bytes pm) l c k"
    unfolding pm' using that un by (intro node_at_frame[OF _ wf]) auto
qed

text \<open>Where a node is after the switch: a neighbour at its new location, any other node where it was.\<close>

lemma switch_cases:
  assumes "(id2loc_map m ++ map_of (zip is ls)) n = Some l" "length ls = length is"
  obtains (nbr) "n \<in> set is" "(n, l) \<in> set (zip is ls)" | (old) "n \<notin> set is" "id2loc_map m n = Some l"
proof (cases "map_of (zip is ls) n")
  case None
  then have "n \<notin> set is" using assms(2) by (simp add: map_of_zip_is_None)
  then show ?thesis using None assms(1) old by (simp add: map_add_def)
next
  case (Some x)
  then have "(n, l) \<in> set (zip is ls)" using assms(1) by (auto dest: map_of_SomeD)
  then show ?thesis using nbr set_zip_leftD by fast
qed

lemma fix_graph_inv:
  assumes C: "cfg_ok C" and inv: "graph_inv C m pm" and lk: "all_linked (sgeom C) m pm"
    and i: "i \<in> dom (id2loc_map m)"
    and ver: "fix_versions C E m pm i is cs ns nh" and "is": "set is \<subseteq> dom (id2loc_map m)"
    and ls: "length ls = length is" "distinct ls" "\<forall>l\<in>set ls. slots (sgeom C) (alloc m) l = kInvalidID"
    and m': "map_inv (sgeom C) m'" "id2loc_map m' = id2loc_map m ++ map_of (zip is ls)"
    and pm': "pm' = pm_run (writes_of (sgeom C) (fix_nodes_at is ls cs nh)) pm"
  shows "graph_inv C m' pm'" "all_linked (sgeom C) m' pm'" "dom (id2loc_map m') = dom (id2loc_map m)"
proof -
  let ?g = "sgeom C"
  have mi: "map_inv ?g m" and wf: "pm_wf pm" using inv by (simp_all add: graph_inv_def)
  have "i < kAllocatedID" using i map_invD(1)[OF mi] by blast
  note E = fix_effect[OF C inv this ver ls(1,2) pm']
  show d: "dom (id2loc_map m') = dom (id2loc_map m)" using "is" ls(1) by (auto simp: m'(2) dom_map_of_zip)
  have "\<exists>c k. node_at ?g (graph_bytes pm') l c k \<and> distinct k \<and> k \<noteq> [] \<and> set k \<subseteq> dom (id2loc_map m) \<and> length k \<le> prange (sprune C)"
    if nl: "id2loc_map m' n = Some l" for n l
    using nl[unfolded m'(2)] ls(1)
  proof (cases rule: switch_cases)
    case nbr
    have "set (nh n) \<subseteq> dom (id2loc_map m)" "distinct (nh n)" "nh n \<noteq> []" "length (nh n) \<le> prange (sprune C)"
      using ver nbr(1) i by (auto simp: fix_versions_def fixed_list_def)
    then show ?thesis using E(1)[OF nbr(2)] by blast
  next
    case old
    obtain c k where c: "node_at ?g (graph_bytes pm) l c k" "distinct k" "set k \<subseteq> dom (id2loc_map m)" "length k \<le> prange (sprune C)"
      using inv old(2) unfolding graph_inv_def by blast
    have "k \<noteq> []" using lk old(2) c(1) unfolding all_linked_def by blast
    moreover have "l \<notin> set ls" using map_invD(1,2)[OF mi old(2)] ls(3) by (auto simp: kInvalidID_def kAllocatedID_def)
    ultimately show ?thesis using E(3) c by blast
  qed
  note N = this
  show "graph_inv C m' pm'" unfolding graph_inv_def d using m'(1) pm_wf_run[OF wf] N pm' by blast
  show "all_linked ?g m' pm'" unfolding all_linked_def using N node_at_unique by blast
qed

text \<open>The writes of one iteration.\<close>

lemma fix_nbrs_writes:
  assumes C: "cfg_ok C" and gi: "graph_inv C m pm" and mp: "all_mapped (sgeom C) m gs"
    and ver: "fix_versions C E m pm i is cs ns nh" and "is": "set is \<subseteq> dom (id2loc_map m)"
    and ls: "length ls = length is" "distinct ls" "\<forall>l\<in>set ls. slots (sgeom C) (alloc m) l = kInvalidID"
  shows "fix_nbrs C E (graph_extent (sgeom C) gs ls) (m\<lparr>alloc := a\<rparr>) i pm is ls = Some (Inr (writes_of (sgeom C) (fix_nodes_at is ls cs nh)))"
  unfolding fix_nodes_at_ok(3)[OF C ver ls(1,2), symmetric]
proof (rule fix_nbrs_run[where L = "{l. \<exists>n. id2loc_map m n = Some l}" and ns = ns])
  let ?g = "sgeom C" and ?L = "{l. \<exists>n. id2loc_map m n = Some l}"
  have mi: "map_inv ?g m" using gi by (simp add: graph_inv_def)
  show "geom_paged ?g" using C by (simp add: cfg_ok_def)
  show "\<exists>l. id2loc_map (m\<lparr>alloc := a\<rparr>) n = Some l \<and> l \<in> ?L \<and> node_at ?g (graph_bytes pm) l (cs n) (ns n)" if "n \<in> set is" for n
    using that "is" ver by (force simp: fix_versions_def)
  show "recover_nhood C E i (as_DiskNode n (cs n) (ns n)) = Some (Inr (nh n))" if "n \<in> set is" for n
    using that ver by (simp add: fix_versions_def)
  show "length (node_bytes (cs n) (nh n)) \<le> max_node_len ?g" if "n \<in> set is" for n
    using that ver node_at_length by (intro node_bytes_fit[OF C]) (auto simp: fix_versions_def fixed_list_def)
  show "loc_sector_no ?g l * SECTOR_LEN + SECTOR_LEN \<le> graph_extent ?g gs ls" if "l \<in> ?L" for l
    using that mp graph_extent_grows[of gs ?g ls] by (force simp: all_mapped_def)
  show "set ls \<inter> ?L = {}" using ls(3) map_invD(1,2)[OF mi] by (force simp: kInvalidID_def kAllocatedID_def)
qed (use gi ls(1) in \<open>auto simp: graph_inv_def\<close>)

text \<open>The calls of one iteration, with what they return.\<close>

lemma fix_node_run:
  assumes C: "cfg_ok C" "svariant C = BATCH_PRUNING" and inv: "recov_inv C st hint"
    and l0: "id2loc_map (meta st) i = Some l0" "node_at (sgeom C) (graph_bytes (mem st)) l0 c0 is"
    and fx: "fixable C E (meta st) (mem st) i is"
    and sp: "cur_loc (alloc (meta st)) + length is + nnodes_per_sector (sgeom C) \<le> kInvalidID"
    and pm1: "pm1 = pm_run (recover_code_events E i c0) (mem st)"
  shows "\<exists>st' hint' cs ns nh ls. fix_node C E st hint i = Some (Inr (st', hint'))
    \<and> mem st' = pm_run (writes_of (sgeom C) (fix_nodes_at is ls cs nh)) pm1
    \<and> fix_versions C E (meta st) pm1 i is cs ns nh
    \<and> length ls = length is \<and> distinct ls \<and> (\<forall>l\<in>set ls. slots (sgeom C) (alloc (meta st)) l = kInvalidID)
    \<and> map_inv (sgeom C) (meta st') \<and> id2loc_map (meta st') = id2loc_map (meta st) ++ map_of (zip is ls)
    \<and> graph_size st' = graph_extent (sgeom C) (graph_size st) ls
    \<and> cur_id (meta st') = cur_id (meta st)
    \<and> cur_loc (alloc (meta st')) < cur_loc (alloc (meta st)) + length is + nnodes_per_sector (sgeom C)
    \<and> set hint' \<subseteq> set hint \<union> (loc_sector_no (sgeom C) \<circ> the \<circ> id2loc_map (meta st)) ` set is
    \<and> (\<exists>need a hint1. alloc_loc_compact (sgeom C) (salloc C) (alloc (meta st)) (length is) hint {} = Inr (ls, need, a, hint1)
         \<and> erase_and_set_loc (sgeom C) a (map (the \<circ> id2loc_map (meta st)) is) ls is = Inr (alloc (meta st'))
         \<and> hint' = sorted_list_of_set (set (hint1 @ map (loc_sector_no (sgeom C) \<circ> the \<circ> id2loc_map (meta st)) is)))"
proof -
  let ?g = "sgeom C" and ?m = "meta st" and ?gs = "graph_extent (sgeom C) (graph_size st)"
  have g: "geom_paged ?g" using C by (simp add: cfg_ok_def)
  have gi: "graph_inv C ?m (mem st)" and mp: "all_mapped ?g ?m (graph_size st)" and lk: "all_linked ?g ?m (mem st)"
    and hp: "\<forall>p\<in>set hint. p < 2 ^ 32" using inv by (simp_all add: recov_inv_def)
  have mi: "map_inv ?g ?m" and ai: "alloc_inv ?g (alloc ?m)" using gi by (simp_all add: graph_inv_def map_inv_def)
  note k = graph_inv_other_file[OF gi recover_code_untouched, of E i c0, folded pm1]
  have wf1: "pm_wf pm1" using k(1) by (simp add: graph_inv_def)
  obtain c k where ck: "node_at ?g (graph_bytes (mem st)) l0 c k" "distinct k" "set k \<subseteq> dom (id2loc_map ?m)" "length k \<le> prange (sprune C)"
    using gi l0(1) unfolding graph_inv_def by blast
  have "is": "distinct is" "set is \<subseteq> dom (id2loc_map ?m)" "is \<noteq> []"
    using ck lk l0 node_at_unique[OF l0(2) ck(1)] by (auto simp: all_linked_def)
  have r: "recover_read ?g (graph_size st) ?m (mem st) i = Inr (as_DiskNode i c0 is)"
    using mp l0 by (intro recover_read_ok[OF g]) (auto simp: all_mapped_def)
  obtain ls need a hint1 where al: "alloc_loc_compact ?g (salloc C) (alloc ?m) (length is) hint {} = Inr (ls, need, a, hint1)"
    "length ls = length is" "claims ?g (alloc ?m) a ls" "alloc_inv ?g a" "set hint1 \<subseteq> set hint"
    "cur_loc a < cur_loc (alloc ?m) + length is + nnodes_per_sector ?g"
    using compact_claims[OF g ai _ sp hp, of "salloc C" "{}"] "is"(3) by auto
  have cl: "distinct ls" "\<forall>l\<in>set ls. slots ?g (alloc ?m) l = kInvalidID" "\<forall>l\<in>set ls. slots ?g a l = kAllocatedID"
    using al(3) by (simp_all add: claims_def)
  have "fixable C E ?m pm1 i is" using fx unfolding fixable_def k(2) .
  then obtain cs ns nh where ver: "fix_versions C E ?m pm1 i is cs ns nh"
    using fix_versions_exist[OF C k(1) "is"(2)] by blast
  note W = fix_nodes_at_ok[OF C(1) ver al(2) cl(1)]
  let ?m1 = "?m\<lparr>alloc := a\<rparr>"
  have f: "fix_nbrs C E (?gs ls) ?m1 i pm1 is ls = Some (Inr (writes_of ?g (fix_nodes_at is ls cs nh)))"
    by (rule fix_nbrs_writes[OF C(1) k(1) mp ver "is"(2) al(2) cl(1,2)])
  have "map_inv ?g ?m1" by (rule map_inv_alloc[OF mi al(3,4)])
  from recover_tables_switch[OF g this _ _ al(2) cl(1), of hint1] "is"(1,2) cl(3)
  obtain m1 a1 where sw: "recover_switch ?g ?m1 is ls [] hint1 = Inr (m1, map (the \<circ> id2loc_map ?m) is, hint1 @ map (loc_sector_no ?g \<circ> the \<circ> id2loc_map ?m) is)"
    "erase_and_set_loc ?g (alloc m1) (map (the \<circ> id2loc_map ?m) is) ls is = Inr a1"
    "map_inv ?g (m1\<lparr>alloc := a1\<rparr>)" "id2loc_map m1 = id2loc_map ?m ++ map_of (zip is ls)" "alloc m1 = a" "cur_id m1 = cur_id ?m" "cur_loc a1 = cur_loc a"
    by auto
  let ?h = "hint1 @ map (loc_sector_no ?g \<circ> the \<circ> id2loc_map ?m) is"
  let ?st = "st\<lparr>meta := m1\<lparr>alloc := a1\<rparr>, mem := pm_run (writes_of ?g (fix_nodes_at is ls cs nh)) pm1, graph_size := ?gs ls\<rparr>"
  have run: "fix_node C E st hint i = Some (Inr (?st, sorted_list_of_set (set ?h)))"
    using r al(1) f sw(1,2) by (simp add: fix_node_def as_DiskNode_def Let_def pm1)
  have "\<exists>need a' hint1'. alloc_loc_compact ?g (salloc C) (alloc ?m) (length is) hint {} = Inr (ls, need, a', hint1')
      \<and> erase_and_set_loc ?g a' (map (the \<circ> id2loc_map ?m) is) ls is = Inr (alloc (meta ?st))
      \<and> sorted_list_of_set (set ?h) = sorted_list_of_set (set (hint1' @ map (loc_sector_no ?g \<circ> the \<circ> id2loc_map ?m) is))"
    using al(1) sw(2,5) by (intro exI[of _ need] exI[of _ a] exI[of _ hint1]) simp
  moreover have "set (sorted_list_of_set (set ?h)) \<subseteq> set hint \<union> (loc_sector_no ?g \<circ> the \<circ> id2loc_map ?m) ` set is" using al(5) by auto
  ultimately show ?thesis
    by (intro exI[of _ ?st] exI[of _ "sorted_list_of_set (set ?h)"] exI[of _ cs] exI[of _ ns] exI[of _ nh] exI[of _ ls] conjI, intro run)
      (use ver al(2,6) cl(1,2) sw(3,4,6,7) in simp_all)
qed

lemma recover_code_visible:
  assumes "\<And>j. untouched (PQ_f, j) evs" "k < pq_nchunks (rc_table E)" "pm_wf pm"
  shows "pm_visible (pm_run evs (pm_run (recover_code_events E i cs) pm)) (PQ_f, i * pq_nchunks (rc_table E) + k)
    = deflate_vector (rc_table E) (rc_floats E cs) ! k"
proof -
  let ?v = "deflate_vector (rc_table E) (rc_floats E cs)" and ?c = "(PQ_f, i * pq_nchunks (rc_table E) + k)"
  have "stored (pm_run (pm_stores PQ_f (i * pq_nchunks (rc_table E)) ?v) pm) ?c (?v ! k)"
    using copies_stored[OF pm_stores_copies, of k ?v] assms(2) by (simp add: length_deflate_vector)
  then have "stored (pm_run (recover_code_events E i cs) pm) ?c (?v ! k)"
    by (simp add: recover_code_events_def Let_def pm_run_append run_keeps(1))
  then show ?thesis using run_keeps(1)[OF assms(1)] stored_visible by blast
qed

lemma writes_of_other_file: "fit_nodes g W \<Longrightarrow> f \<noteq> Graph_f \<Longrightarrow> untouched (f, j) (writes_of g W)"
  unfolding writes_of_def by (rule untouched_concat) (auto simp: fit_nodes_def recover_write_untouched)

lemma sector_small: "l < kInvalidID \<Longrightarrow> 0 < nnodes_per_sector g \<Longrightarrow> loc_sector_no g l < 2 ^ 32"
  by (auto simp: loc_sector_no_def kInvalidID_def intro: le_less_trans[OF div_le_dividend])

lemma fix_node_ok:
  assumes C: "cfg_ok C" "svariant C = BATCH_PRUNING" and inv: "recov_inv C st hint"
    and l0: "id2loc_map (meta st) i = Some l0" "node_at (sgeom C) (graph_bytes (mem st)) l0 c0 is"
    and fx: "fixable C E (meta st) (mem st) i is"
    and sp: "cur_loc (alloc (meta st)) + length is + nnodes_per_sector (sgeom C) \<le> kInvalidID"
  shows "\<exists>st' hint'. fix_node C E st hint i = Some (Inr (st', hint')) \<and> recov_inv C st' hint'
    \<and> dom (id2loc_map (meta st')) = dom (id2loc_map (meta st)) \<and> cur_id (meta st') = cur_id (meta st)
    \<and> cur_loc (alloc (meta st')) < cur_loc (alloc (meta st)) + length is + nnodes_per_sector (sgeom C)
    \<and> (\<forall>n\<in>set is. \<exists>l cs ns l' nh. id2loc_map (meta st) n = Some l \<and> node_at (sgeom C) (graph_bytes (mem st)) l cs ns
         \<and> id2loc_map (meta st') n = Some l' \<and> node_at (sgeom C) (graph_bytes (mem st')) l' cs nh \<and> fixed_list C i ns nh)
    \<and> (\<forall>n l. n \<notin> set is \<longrightarrow> id2loc_map (meta st) n = Some l \<longrightarrow> id2loc_map (meta st') n = Some l
         \<and> (\<forall>j < max_node_len (sgeom C). graph_bytes (mem st') (u_loc_offset (sgeom C) l + j) = graph_bytes (mem st) (u_loc_offset (sgeom C) l + j)))
    \<and> (\<forall>k < pq_nchunks (rc_table E). pm_visible (mem st') (PQ_f, i * pq_nchunks (rc_table E) + k)
         = deflate_vector (rc_table E) (rc_floats E c0) ! k)"
proof -
  let ?g = "sgeom C" and ?m = "meta st"
  define pm1 where pm1: "pm1 = pm_run (recover_code_events E i c0) (mem st)"
  obtain st' hint' cs ns nh ls where run: "fix_node C E st hint i = Some (Inr (st', hint'))"
    and mem: "mem st' = pm_run (writes_of ?g (fix_nodes_at is ls cs nh)) pm1"
    and ver: "fix_versions C E ?m pm1 i is cs ns nh"
    and ls: "length ls = length is" "distinct ls" "\<forall>l\<in>set ls. slots ?g (alloc ?m) l = kInvalidID"
    and m': "map_inv ?g (meta st')" "id2loc_map (meta st') = id2loc_map ?m ++ map_of (zip is ls)"
    and gs: "graph_size st' = graph_extent ?g (graph_size st) ls" and cid: "cur_id (meta st') = cur_id ?m"
    and cl: "cur_loc (alloc (meta st')) < cur_loc (alloc ?m) + length is + nnodes_per_sector ?g"
    and h: "set hint' \<subseteq> set hint \<union> (loc_sector_no ?g \<circ> the \<circ> id2loc_map ?m) ` set is"
    using fix_node_run[OF assms pm1] by blast
  have gi: "graph_inv C ?m (mem st)" and mp: "all_mapped ?g ?m (graph_size st)" and lk: "all_linked ?g ?m (mem st)"
    and hp: "\<forall>p\<in>set hint. p < 2 ^ 32" using inv by (simp_all add: recov_inv_def)
  have mi: "map_inv ?g ?m" and wf: "pm_wf (mem st)" using gi by (simp_all add: graph_inv_def)
  note k = graph_inv_other_file[OF gi recover_code_untouched, of E i c0, folded pm1]
  have lk1: "all_linked ?g ?m pm1" using lk unfolding all_linked_def k(2) .
  have "is": "set is \<subseteq> dom (id2loc_map ?m)" using gi l0 node_at_unique[OF l0(2)] unfolding graph_inv_def by blast
  have i: "i \<in> dom (id2loc_map ?m)" "i < kAllocatedID" using l0(1) map_invD(1)[OF mi l0(1)] by auto
  note G = fix_graph_inv[OF C(1) k(1) lk1 i(1) ver "is" ls m' mem]
  note Ef = fix_effect[OF C(1) k(1) i(2) ver ls(1,2) mem]
  have n0: "0 < nnodes_per_sector ?g" using C by (simp add: cfg_ok_def geom_paged_def)
  have mp': "all_mapped ?g (meta st') (graph_size st')" unfolding all_mapped_def
  proof (intro allI impI)
    fix n l assume "id2loc_map (meta st') n = Some l"
    from this[unfolded m'(2)] ls(1) show "loc_sector_no ?g l * SECTOR_LEN + SECTOR_LEN \<le> graph_size st'"
    proof (cases rule: switch_cases)
      case nbr
      then show ?thesis unfolding gs by (intro graph_extent_sector) (rule set_zip_rightD)
    next
      case old
      then show ?thesis using mp graph_extent_grows[of "graph_size st" ?g ls] unfolding gs all_mapped_def by force
    qed
  qed
  have hp': "\<forall>p\<in>set hint'. p < 2 ^ 32"
  proof
    fix p assume "p \<in> set hint'"
    then consider "p \<in> set hint" | n where "n \<in> set is" "p = loc_sector_no ?g (the (id2loc_map ?m n))" using h by auto
    then show "p < 2 ^ 32"
    proof cases
      case 2
      then obtain l where "id2loc_map ?m n = Some l" using "is" by blast
      then show ?thesis using sector_small[OF map_invD(4)[OF mi] n0] 2(2) by simp
    qed (use hp in blast)
  qed
  have nbrs: "\<exists>l cs ns l' nh. id2loc_map ?m n = Some l \<and> node_at ?g (graph_bytes (mem st)) l cs ns
         \<and> id2loc_map (meta st') n = Some l' \<and> node_at ?g (graph_bytes (mem st')) l' cs nh \<and> fixed_list C i ns nh" if n: "n \<in> set is" for n
  proof -
    obtain l where l: "id2loc_map ?m n = Some l" using n "is" by blast
    have v: "node_at ?g (graph_bytes (mem st)) l (cs n) (ns n)" "fixed_list C i (ns n) (nh n)"
      using ver n l unfolding fix_versions_def k(2) by auto
    obtain l' where l': "map_of (zip is ls) n = Some l'" using map_of_zip_Some[OF n ls(1)[symmetric]] by blast
    then have "id2loc_map (meta st') n = Some l'" unfolding m'(2) by simp
    then show ?thesis using l v Ef(1)[OF map_of_SomeD[OF l']] by blast
  qed
  have rest: "id2loc_map (meta st') n = Some l
         \<and> (\<forall>j < max_node_len ?g. graph_bytes (mem st') (u_loc_offset ?g l + j) = graph_bytes (mem st) (u_loc_offset ?g l + j))"
    if n: "n \<notin> set is" "id2loc_map ?m n = Some l" for n l
  proof -
    have "l \<notin> set ls" using map_invD(1,2)[OF mi n(2)] ls(3) by (auto simp: kInvalidID_def kAllocatedID_def)
    moreover have "graph_bytes pm1 j = graph_bytes (mem st) j" for j
      unfolding pm1 by (rule untouched_visible[OF wf recover_code_untouched])
    ultimately show ?thesis using Ef(2) n map_of_zip_notin[OF n(1), of ls] by (simp add: m'(2) map_add_def)
  qed
  have code: "pm_visible (mem st') (PQ_f, i * pq_nchunks (rc_table E) + k) = deflate_vector (rc_table E) (rc_floats E c0) ! k"
    if "k < pq_nchunks (rc_table E)" for k
    unfolding mem pm1 using fix_nodes_at_ok(1)[OF C(1) ver ls(1,2)] that wf
    by (intro recover_code_visible writes_of_other_file) auto
  have "recov_inv C st' hint'" using G(1,2) mp' hp' by (simp add: recov_inv_def)
  then show ?thesis
    by (intro exI[of _ st'] exI[of _ hint'] conjI, intro run) (use G(3) cid cl nbrs rest code in \<open>simp_all\<close>)
qed

section \<open>The whole recovery\<close>

text \<open>Every live node of the index keeps its coordinates, at whatever location.\<close>

definition same_coords :: "geom \<Rightarrow> pm_index \<Rightarrow> pm_index \<Rightarrow> bool" where
  "same_coords g st st' \<longleftrightarrow> (\<forall>n l cs ns. id2loc_map (meta st) n = Some l \<longrightarrow> node_at g (graph_bytes (mem st)) l cs ns \<longrightarrow>
     (\<exists>l' ns'. id2loc_map (meta st') n = Some l' \<and> node_at g (graph_bytes (mem st')) l' cs ns'))"

lemma same_coords_refl: "same_coords g st st"
  by (auto simp: same_coords_def)

lemma same_coords_trans: "same_coords g st st1 \<Longrightarrow> same_coords g st1 st2 \<Longrightarrow> same_coords g st st2"
  unfolding same_coords_def by meson

lemma codes_fixable:
  assumes "graph_inv C m pm" "codes_loaded E (dom (id2loc_map m))" "i \<in> dom (id2loc_map m)" "set is \<subseteq> dom (id2loc_map m)"
  shows "fixable C E m pm i is"
  unfolding fixable_def
proof (intro ballI allI impI)
  fix n l cs ns assume n: "n \<in> set is" "id2loc_map m n = Some l" "node_at (sgeom C) (graph_bytes pm) l cs ns"
  have "set ns \<subseteq> dom (id2loc_map m)" using assms(1) n(2,3) node_at_unique unfolding graph_inv_def by blast
  then have "set (i # n # ns) \<subseteq> dom (id2loc_map m)" using assms(3) n(2) by auto
  then show "can_fix C E i n ns" using assms(2) unfolding can_fix_def codes_loaded_def by blast
qed

lemma fix_step:
  assumes C: "cfg_ok C" "svariant C = BATCH_PRUNING" and inv: "recov_inv C st hint"
    and cd: "codes_loaded E (dom (id2loc_map (meta st)))" and i: "i \<in> dom (id2loc_map (meta st))"
    and sp: "cur_loc (alloc (meta st)) + (prange (sprune C) + nnodes_per_sector (sgeom C)) \<le> kInvalidID"
  shows "\<exists>st' hint'. fix_node C E st hint i = Some (Inr (st', hint')) \<and> recov_inv C st' hint'
    \<and> dom (id2loc_map (meta st')) = dom (id2loc_map (meta st)) \<and> same_coords (sgeom C) st st'
    \<and> cur_loc (alloc (meta st')) \<le> cur_loc (alloc (meta st)) + (prange (sprune C) + nnodes_per_sector (sgeom C))
    \<and> cur_id (meta st') = cur_id (meta st)"
proof -
  let ?g = "sgeom C"
  have gi: "graph_inv C (meta st) (mem st)" using inv by (simp add: recov_inv_def)
  obtain l0 where l0: "id2loc_map (meta st) i = Some l0" using i by blast
  then obtain c0 "is" where n: "node_at ?g (graph_bytes (mem st)) l0 c0 is" "set is \<subseteq> dom (id2loc_map (meta st))" "length is \<le> prange (sprune C)"
    using gi unfolding graph_inv_def by blast
  have sp': "cur_loc (alloc (meta st)) + length is + nnodes_per_sector ?g \<le> kInvalidID" using sp n(3) by simp
  obtain st' hint' where f: "fix_node C E st hint i = Some (Inr (st', hint'))" "recov_inv C st' hint'"
    "dom (id2loc_map (meta st')) = dom (id2loc_map (meta st))" "cur_id (meta st') = cur_id (meta st)"
    "cur_loc (alloc (meta st')) < cur_loc (alloc (meta st)) + length is + nnodes_per_sector ?g"
    and nbr: "\<And>n. n \<in> set is \<Longrightarrow> \<exists>l cs ns l' nh. id2loc_map (meta st) n = Some l \<and> node_at ?g (graph_bytes (mem st)) l cs ns
         \<and> id2loc_map (meta st') n = Some l' \<and> node_at ?g (graph_bytes (mem st')) l' cs nh \<and> fixed_list C i ns nh"
    and old: "\<And>n l. n \<notin> set is \<Longrightarrow> id2loc_map (meta st) n = Some l \<Longrightarrow> id2loc_map (meta st') n = Some l
         \<and> (\<forall>j < max_node_len ?g. graph_bytes (mem st') (u_loc_offset ?g l + j) = graph_bytes (mem st) (u_loc_offset ?g l + j))"
    using fix_node_ok[OF C inv l0 n(1) codes_fixable[OF gi cd i n(2)] sp'] by blast
  have "\<exists>l' ns'. id2loc_map (meta st') k = Some l' \<and> node_at ?g (graph_bytes (mem st')) l' cs ns'"
    if k: "id2loc_map (meta st) k = Some l" "node_at ?g (graph_bytes (mem st)) l cs ns" for k l cs ns
  proof (cases "k \<in> set is")
    case True
    then show ?thesis using nbr[OF True] k node_at_unique by (metis option.inject)
  next
    case False
    then show ?thesis using old[OF False k(1)] k(2) by (auto simp: node_at_def bytes_at_def)
  qed
  then have "same_coords ?g st st'" by (simp add: same_coords_def)
  moreover have "cur_loc (alloc (meta st')) \<le> cur_loc (alloc (meta st)) + (prange (sprune C) + nnodes_per_sector ?g)" using f(5) n(3) by simp
  ultimately show ?thesis using f by blast
qed

lemma fix_nodes_ok:
  assumes "cfg_ok C" "svariant C = BATCH_PRUNING" "recov_inv C st hint"
    and "codes_loaded E (dom (id2loc_map (meta st)))" "set is \<subseteq> dom (id2loc_map (meta st))"
    and "cur_loc (alloc (meta st)) + length is * (prange (sprune C) + nnodes_per_sector (sgeom C)) \<le> kInvalidID"
  shows "\<exists>st' hint'. fix_nodes C E st hint is = Some (Inr (st', hint')) \<and> recov_inv C st' hint'
    \<and> dom (id2loc_map (meta st')) = dom (id2loc_map (meta st)) \<and> same_coords (sgeom C) st st'
    \<and> cur_id (meta st') = cur_id (meta st)"
  using assms(3-)
proof (induction "is" arbitrary: st hint)
  case Nil
  then show ?case using same_coords_refl by simp
next
  case (Cons i "is")
  let ?k = "prange (sprune C) + nnodes_per_sector (sgeom C)"
  obtain st1 h1 where 1: "fix_node C E st hint i = Some (Inr (st1, h1))" "recov_inv C st1 h1"
    "dom (id2loc_map (meta st1)) = dom (id2loc_map (meta st))" "same_coords (sgeom C) st st1"
    "cur_loc (alloc (meta st1)) \<le> cur_loc (alloc (meta st)) + ?k" "cur_id (meta st1) = cur_id (meta st)"
    using fix_step[OF assms(1,2) Cons.prems(1,2), of i] Cons.prems(3,4) by auto
  have "cur_loc (alloc (meta st1)) + length is * ?k \<le> kInvalidID" using 1(5) Cons.prems(4) by simp
  then obtain st2 h2 where "fix_nodes C E st1 h1 is = Some (Inr (st2, h2))" "recov_inv C st2 h2"
    "dom (id2loc_map (meta st2)) = dom (id2loc_map (meta st1))" "same_coords (sgeom C) st1 st2" "cur_id (meta st2) = cur_id (meta st1)"
    using Cons.IH[OF 1(2)] Cons.prems(2,3) 1(3) by auto
  then show ?case using 1 same_coords_trans by auto
qed

text \<open>
  What recovery finds: the entries of the location file are good and without holes, and each of them points to
  the record of a node whose neighbours are at least one and in use.
\<close>

definition image_ok :: "soft_cfg \<Rightarrow> pm_index \<Rightarrow> nat list \<Rightarrow> bool" where
  "image_ok C st es \<longleftrightarrow> entries_ok (sgeom C) es \<and> pm_wf (mem st) \<and> (\<forall>i<length es. used es i)
     \<and> cq_items (empty_pages (alloc (meta st))) = [] \<and> null_T (empty_pages (alloc (meta st))) = kInvalidID
     \<and> (\<forall>i<length es. loc_sector_no (sgeom C) (es ! i) * SECTOR_LEN + SECTOR_LEN \<le> graph_size st
          \<and> (\<exists>cs ns. node_at (sgeom C) (graph_bytes (mem st)) (es ! i) cs ns \<and> distinct ns \<and> ns \<noteq> []
               \<and> set ns \<subseteq> {..<length es} \<and> length ns \<le> prange (sprune C)))"

lemma image_recov_inv:
  assumes C: "cfg_ok C" and im: "image_ok C st es"
  shows "recov_inv C (st\<lparr>meta := recover_tables (sgeom C) (meta st) es\<rparr>) []"
proof -
  let ?g = "sgeom C" and ?m = "recover_tables (sgeom C) (meta st) es"
  have g: "geom_paged ?g" using C by (simp add: cfg_ok_def)
  have mp: "id2loc_map ?m i = Some l \<longleftrightarrow> i < length es \<and> es ! i = l" for i l
    using im by (auto simp: recover_tables_def Let_def scan_map image_ok_def used_less)
  then have d: "dom (id2loc_map ?m) = {..<length es}" by auto
  have "map_inv ?g ?m" using im by (intro recover_map_inv[OF g]) (simp_all add: image_ok_def)
  then have "graph_inv C ?m (mem st)" using im unfolding graph_inv_def d mp image_ok_def by blast
  moreover have "all_mapped ?g ?m (graph_size st)" using im by (auto simp: all_mapped_def mp image_ok_def)
  moreover have "all_linked ?g ?m (mem st)" unfolding all_linked_def mp
    using im node_at_unique unfolding image_ok_def by metis
  ultimately show ?thesis by (simp add: recov_inv_def)
qed

lemma recover_ok:
  assumes "cfg_ok C" "svariant C = BATCH_PRUNING" "image_ok C st es" "codes_loaded E {..<length es}"
    and "align_loc (sgeom C) (Max (set es) + 1) + length es * (prange (sprune C) + nnodes_per_sector (sgeom C)) \<le> kInvalidID"
  shows "\<exists>st' hint'. recover C E iss_opt num_points st es = Some (Inr (st', hint')) \<and> recov_inv C st' hint'
    \<and> dom (id2loc_map (meta st')) = {..<length es} \<and> cur_id (meta st') = length es
    \<and> (\<forall>i<length es. \<forall>cs ns. node_at (sgeom C) (graph_bytes (mem st)) (es ! i) cs ns \<longrightarrow>
         (\<exists>l' ns'. id2loc_map (meta st') i = Some l' \<and> node_at (sgeom C) (graph_bytes (mem st')) l' cs ns'))"
proof -
  let ?g = "sgeom C" and ?m = "recover_tables (sgeom C) (meta st) es"
  let ?k = "prange (sprune C) + nnodes_per_sector ?g" and ?is = "[recover_from iss_opt num_points..<cur_id ?m]"
  have ne: "es \<noteq> []" and us: "\<forall>i<length es. used es i" using assms(3) by (simp_all add: image_ok_def entries_ok_def)
  have mp: "id2loc_map ?m i = Some l \<longleftrightarrow> i < length es \<and> es ! i = l" for i l
    using us by (auto simp: recover_tables_def Let_def scan_map used_less)
  then have d: "dom (id2loc_map ?m) = {..<length es}" by auto
  have "sc_max_id (scan_id2loc es) < length es" "length es - 1 \<le> sc_max_id (scan_id2loc es)"
    using scan_max_id[OF ne] us used_less ne by simp_all
  then have "sc_max_id (scan_id2loc es) = length es - 1" by simp
  then have cid: "cur_id ?m = length es" using ne by (simp add: recover_tables_def Let_def)
  have "sc_max_loc (scan_id2loc es) \<le> Max (set es)" using scan_max_loc[of es] ne by (auto intro: Max_ge)
  moreover have "Max (set es) \<le> sc_max_loc (scan_id2loc es)" using scan_max_loc[of es] ne by simp
  ultimately have "sc_max_loc (scan_id2loc es) = Max (set es)" by simp
  then have cl: "cur_loc (alloc ?m) = align_loc ?g (Max (set es) + 1)" by (simp add: recover_tables_def Let_def)
  have sub: "set ?is \<subseteq> {..<length es}" using cid by auto
  have "length ?is * ?k \<le> length es * ?k" using cid by (intro mult_le_mono1) simp
  then have sp: "cur_loc (alloc ?m) + length ?is * ?k \<le> kInvalidID" using assms(5) cl by linarith
  have c: "codes_loaded E (dom (id2loc_map (meta (st\<lparr>meta := ?m\<rparr>))))" "set ?is \<subseteq> dom (id2loc_map (meta (st\<lparr>meta := ?m\<rparr>)))"
    "cur_loc (alloc (meta (st\<lparr>meta := ?m\<rparr>))) + length ?is * ?k \<le> kInvalidID" using assms(4) sub sp d by simp_all
  obtain st' hint' where r: "fix_nodes C E (st\<lparr>meta := ?m\<rparr>) [] ?is = Some (Inr (st', hint'))" "recov_inv C st' hint'"
    "dom (id2loc_map (meta st')) = dom (id2loc_map ?m)" "same_coords ?g (st\<lparr>meta := ?m\<rparr>) st'" "cur_id (meta st') = cur_id ?m"
    using fix_nodes_ok[OF assms(1,2) image_recov_inv[OF assms(1,3)] c] by auto
  have "recover C E iss_opt num_points st es = Some (Inr (st', hint'))" using r(1) by (simp add: recover_def Let_def)
  moreover have "\<exists>l' ns'. id2loc_map (meta st') i = Some l' \<and> node_at ?g (graph_bytes (mem st')) l' cs ns'"
    if "i < length es" "node_at ?g (graph_bytes (mem st)) (es ! i) cs ns" for i cs ns
    using r(4)[unfolded same_coords_def, rule_format, of i "es ! i" cs ns] that mp[of i "es ! i"] by simp
  ultimately show ?thesis using r(2,3,5) unfolding d cid by (intro exI[of _ st'] exI[of _ hint'] conjI allI impI)
qed


text \<open>
  Four nodes in one page: the first coordinate of a node is its id; node 0 has node 1 as its neighbour, the others
  have node 0.
\<close>

abbreviation ex_point :: "nat \<Rightarrow> nat list" where
  "ex_point l \<equiv> l # replicate 99 0"


definition ex_image :: pm_index where
  "ex_image = ex_index\<lparr>meta := \<lparr>alloc = \<lparr>page_layout = Map.empty, empty_pages = cq_new kInvalidID, cur_loc = 0\<rparr>,
       id2loc_map = Map.empty, tags = Map.empty, id2loc_pm_queue = cq_new (kInvalidID, kInvalidID), cur_id = 0\<rparr>,
     mem := (\<lambda>c. ([], [if fst c = Loc_f then snd c else if fst c \<noteq> Graph_f then 0
                      else if snd c mod 1024 = 0 then snd c div 1024 - 4
                      else if snd c mod 1024 = 100 \<or> snd c = 4200 then 1 else 0]))\<rparr>"

definition ex_recov :: recov_env where
  "ex_recov = \<lparr>rc_table = ex_pq, rc_floats = (\<lambda>_. []), rc_data = replicate 100 0\<rparr>"

lemma ex_node_bytes:
  assumes "v < 2" "i < 108"
  shows "node_bytes (ex_point l) [v] ! i = (if i = 0 then l else if i = 100 then 1 else if i = 104 then v else 0)"
proof -
  have u: "u32_bytes v = [v, 0, 0, 0]" "u32_bytes 1 = [1, 0, 0, 0]" using assms(1) by (simp_all add: u32_bytes_def)
  have "i = 0 \<or> (0 < i \<and> i < 100) \<or> i = 100 \<or> i = 101 \<or> i = 102 \<or> i = 103 \<or> i = 104 \<or> i = 105 \<or> i = 106 \<or> i = 107"
    using assms(2) by arith
  then show ?thesis unfolding node_bytes_def by (elim disjE) (auto simp: u[simplified] nth_append nth_Cons')
qed

lemma ex_image_node:
  assumes "l < 4"
  shows "node_at ex_geom (graph_bytes (mem ex_image)) l (ex_point l) [if l = 0 then 1 else 0]"
proof -
  let ?v = "if l = 0 then 1 else 0 :: nat"
  have o: "u_loc_offset ex_geom l = 4096 + l * 1024" using assms by (simp add: u_loc_offset_def loc_sector_no_def ex_geom_def SECTOR_LEN_def)
  have "graph_bytes (mem ex_image) (4096 + l * 1024 + i) = node_bytes (ex_point l) [?v] ! i" if i: "i < 108" for i
  proof -
    have e: "4096 + l * 1024 + i = i + (4 + l) * 1024" by simp
    moreover have "(i + (4 + l) * 1024) mod 1024 = i" unfolding mod_mult_self1 using i by simp
    ultimately have m: "(4096 + l * 1024 + i) mod 1024 = i" by (simp only:)
    have d: "(4096 + l * 1024 + i) div 1024 = 4 + l" unfolding e using i by simp
    have q: "4096 + l * 1024 + i = 4200 \<longleftrightarrow> l = 0 \<and> i = 104" using i by (cases l) auto
    have "graph_bytes (mem ex_image) (4096 + l * 1024 + i) = (if i = 0 then l else if i = 100 \<or> l = 0 \<and> i = 104 then 1 else 0)"
      unfolding ex_image_def pm_visible_def by (simp add: m d q)
    moreover have "node_bytes (ex_point l) [?v] ! i = (if i = 0 then l else if i = 100 then 1 else if i = 104 then ?v else 0)"
      using i by (intro ex_node_bytes) simp_all
    ultimately show ?thesis by simp
  qed
  then have "bytes_at (graph_bytes (mem ex_image)) (u_loc_offset ex_geom l) (node_bytes (ex_point l) [?v])"
    by (simp add: bytes_at_def o)
  moreover have "node_fits ex_geom (ex_point l) [?v]" "4 * 1 + 104 \<le> max_node_len ex_geom"
    by (simp_all add: node_fits_def coords_len_def ex_geom_def)
  ultimately show ?thesis unfolding node_at_def by (intro conjI) simp_all
qed

lemma less_4: "(i :: nat) < 4 \<longleftrightarrow> i = 0 \<or> i = 1 \<or> i = 2 \<or> i = 3"
  by arith

lemma ex_image_ok: "image_ok ex_cfg ex_image [0, 1, 2, 3]"
proof -
  let ?es = "[0, 1, 2, 3] :: nat list"
  have u: "Collect (used ?es) = {0, 1, 2, 3}" by (auto simp: used_def less_4 nth_Cons')
  have "entries_ok ex_geom ?es"
    unfolding entries_ok_def u by (simp add: ex_geom_def kAllocatedID_def kInvalidID_def inj_on_def)
  moreover have "\<exists>cs ns. node_at ex_geom (graph_bytes (mem ex_image)) (?es ! i) cs ns \<and> distinct ns \<and> ns \<noteq> []
      \<and> set ns \<subseteq> {..<length ?es} \<and> length ns \<le> 16" if i: "i < 4" for i
  proof -
    have "?es ! i = i" using i by (auto simp: less_4)
    then show ?thesis using ex_image_node[OF i]
      by (intro exI[of _ "ex_point i"] exI[of _ "[if i = 0 then 1 else 0]"]) simp
  qed
  moreover have "loc_sector_no ex_geom (?es ! i) * SECTOR_LEN + SECTOR_LEN \<le> graph_size ex_image" if "i < 4" for i
    using that by (auto simp: less_4 loc_sector_no_def ex_geom_def SECTOR_LEN_def ex_image_def ex_index_def)
  moreover have "pm_wf (mem ex_image)" by (simp add: ex_image_def pm_wf_def)
  moreover have "\<forall>i<4. used ?es i" by (auto simp: used_def less_4)
  ultimately show ?thesis by (simp add: image_ok_def ex_cfg_def ex_image_def cq_new_def)
qed





section \<open>Where recovery fails\<close>

lemma verify_ids_Trap: "verify_ids g m is \<noteq> Inr () \<Longrightarrow> verify_ids g m is = Inl Trap"
  by (induction "is") (auto simp: id2loc_def split: option.splits if_splits)



text \<open>
  With \<^verbatim>\<open>ISS_OPT\<close> and fewer than 1000 points the start of the check wraps around and no node is checked at all.
\<close>

lemma recover_iss_skips:
  assumes "num_points < 1000" "length es \<le> 4294966296" "es \<noteq> []"
  shows "recover C E True num_points st es = Some (Inr (st\<lparr>meta := recover_tables (sgeom C) (meta st) es\<rparr>, []))"
proof -
  have "sc_max_id (scan_id2loc es) < length es" using scan_max_id[OF assms(3)] used_less by blast
  then have "cur_id (recover_tables (sgeom C) (meta st) es) \<le> 4294966296" using assms(2) by (simp add: recover_tables_def Let_def)
  moreover have "(int num_points - 1000) mod 4294967296 = int num_points - 1000 + 4294967296"
    using assms(1) by (subst mod_add_self2[symmetric]) (simp add: mod_pos_pos_trivial del: mod_add_self2)
  then have "4294966296 \<le> recover_from True num_points" by (simp add: recover_from_def)
  ultimately show ?thesis by (simp add: recover_def Let_def)
qed

text \<open>No step of the repair writes the location file: the new locations of the neighbours exist only in DRAM.\<close>

lemma fix_nodes_loc_file:
  assumes "fix_nodes C E st hint is = Some (Inr (st', hint'))" "pm_wf (mem st)"
  shows "pm_visible (mem st') (Loc_f, j) = pm_visible (mem st) (Loc_f, j) \<and> pm_wf (mem st')"
proof -
  have w: "untouched (Loc_f, j) (recover_write g l cs ns)" for g l cs ns by (simp add: recover_write_def recover_stores_def Let_def)
  have n: "untouched (Loc_f, j) evs" if "fix_nbrs C E gs m i pm is ls = Some (Inr evs)" for gs m i pm "is" ls evs
    using that by (induction C E gs m i pm "is" ls arbitrary: evs rule: fix_nbrs.induct) (auto simp: Let_def bind_run_eq_Some_Inr w)
  have c: "untouched (Loc_f, j) (recover_code_events E i cs)" for i cs by (simp add: recover_code_events_def Let_def)
  have s: "pm_visible (mem st1) (Loc_f, j) = pm_visible (mem st) (Loc_f, j) \<and> pm_wf (mem st1)"
    if "fix_node C E st hint i = Some (Inr (st1, h1))" "pm_wf (mem st)" for st hint i st1 h1
    using that by (auto simp: fix_node_def Let_def bind_run_eq_Some_Inr split: prod.splits dest!: n intro!: pm_wf_run)
      (simp add: untouched_visible pm_wf_run c)
  show ?thesis using assms
    by (induction "is" arbitrary: st hint) (auto simp: bind_run_eq_Some_Inr dest!: s)
qed

end
