(* ===== verification/Recovery_Crash.thy ===== *)
theory Recovery_Crash
  imports Recovery
begin

text \<open>
  A crash in the middle of a recovery. The repair steps move nodes about, free their old slots at once and never
  write the location file; this theory follows two steps on a concrete index.
\<close>

text \<open>The allocator of the example after the tables are rebuilt, and after the repair of node 0.\<close>

definition ex_ralloc :: alloc_state where
  "ex_ralloc = \<lparr>page_layout = [1 \<mapsto> [0, 1, 2, 3] @ replicate 12 kInvalidID], empty_pages = cq_new kInvalidID, cur_loc = 4\<rparr>"

definition ex_ralloc1 :: alloc_state where
  "ex_ralloc1 = \<lparr>page_layout = [1 \<mapsto> [0, kInvalidID, 2, 3] @ replicate 12 kInvalidID, 2 \<mapsto> [1, kInvalidID, kInvalidID, kInvalidID] @ replicate 12 0],
     empty_pages = cq_new kInvalidID, cur_loc = 8\<rparr>"

lemma replicate_pages: "replicate 12 x = [x, x, x, x, x, x, x, x, x, x, x, x]" "replicate 16 x = [x, x, x, x, x, x, x, x, x, x, x, x, x, x, x, x]"
  by (simp_all add: numeral_eq_Suc)

lemma ex_recover_alloc: "alloc (recover_tables ex_geom (meta ex_image) [0, 1, 2, 3]) = ex_ralloc"
  by (simp add: recover_tables_def Let_def recover_layout_def scan_id2loc_def scan_start_def scan_entry_sel ex_geom_def ex_ralloc_def
      ex_image_def align_loc_def loc_sector_no_def recover_page_def kMaxElemInAPage_def u32_def upt_rec snd_cuckoo_insert replicate_pages) (simp add: numeral_2_eq_2 numeral_3_eq_3)

lemma ex_first_alloc:
  assumes "alloc_loc_compact ex_geom default_config ex_ralloc 1 [] {} = Inr (ls, need, a, h)"
  shows "ls = [4]" "h = []" "erase_and_set_loc ex_geom a [1] [4] [1] = Inr ex_ralloc1"
  using assms
  by (auto simp: alloc_loc_compact_def alloc_rule1.simps cq_pop_def ex_ralloc_def ex_ralloc1_def ex_geom_def default_config_def cq_new_def
      u32_def kInvalidID_def kAllocatedID_def Let_def alloc_rule3_def align_loc_def loc_sector_no_def remove_hint_pages_def set_loc2id_def
      erase_and_set_loc_def erase_loc2id_def snd_upsert_ctx free_slots_def PageArr_zero_def kMaxElemInAPage_def upt_4 replicate_pages
      upsert_one_def uprase_fn_def page_is_empty_def fun_upd_twist) (simp_all add: numeral_2_eq_2)

lemma ex_second_alloc:
  assumes "alloc_loc_compact ex_geom default_config ex_ralloc1 1 [1] {} = Inr (ls, need, a, h)"
  shows "ls = [1]"
  using assms
  by (simp add: alloc_loc_compact_def alloc_rule1.simps cq_pop_def ex_ralloc1_def ex_geom_def default_config_def cq_new_def
      u32_def count_holes_def sector_to_loc_def update_fn_def kInvalidID_def kAllocatedID_def Let_def upt_4 loc_sector_no_def
      page_done_def remove_hint_pages_def)

text \<open>One repair step whose node has a single neighbour that already knows it.\<close>

lemma fix_node_single:
  assumes inv: "recov_inv ex_cfg st hint" and i: "id2loc_map (meta st) i = Some l0" "node_at ex_geom (graph_bytes (mem st)) l0 c0 [n]"
    and n: "id2loc_map (meta st) n = Some l1" "node_at ex_geom (graph_bytes (mem st)) l1 c1 ns" "i \<in> set ns"
    and cl: "codes_loaded ex_recov (dom (id2loc_map (meta st)))" "cur_loc (alloc (meta st)) + 5 \<le> kInvalidID"
  obtains st' hint' l where "fix_node ex_cfg ex_recov st hint i = Some (Inr (st', hint'))" "recov_inv ex_cfg st' hint'"
    and "id2loc_map (meta st') = (id2loc_map (meta st))(n \<mapsto> l)" "node_at ex_geom (graph_bytes (mem st')) l c1 ns"
    and "\<And>l' c k. l' \<noteq> l \<Longrightarrow> node_at ex_geom (graph_bytes (mem st)) l' c k \<Longrightarrow> node_at ex_geom (graph_bytes (mem st')) l' c k"
    and "\<exists>need a hint1. alloc_loc_compact ex_geom default_config (alloc (meta st)) 1 hint {} = Inr ([l], need, a, hint1)
         \<and> erase_and_set_loc ex_geom a [l1] [l] [n] = Inr (alloc (meta st')) \<and> hint' = sorted_list_of_set (set (hint1 @ [loc_sector_no ex_geom l1]))"
proof -
  have g: "sgeom ex_cfg = ex_geom" and v: "svariant ex_cfg = BATCH_PRUNING" and al: "salloc ex_cfg = default_config" by (simp_all add: ex_cfg_def)
  define pm1 where "pm1 = pm_run (recover_code_events ex_recov i c0) (mem st)"
  have gi: "graph_inv ex_cfg (meta st) (mem st)" using inv by (simp add: recov_inv_def)
  note i' = i[folded g] and n' = n[folded g]
  have fx: "fixable ex_cfg ex_recov (meta st) (mem st) i [n]" using i n by (intro codes_fixable[OF gi cl(1)]) auto
  have sp: "cur_loc (alloc (meta st)) + length [n] + nnodes_per_sector (sgeom ex_cfg) \<le> kInvalidID" using cl(2) by (simp add: g) (simp add: ex_geom_def)
  obtain st' hint' cs ns' nh ls where run: "fix_node ex_cfg ex_recov st hint i = Some (Inr (st', hint'))"
    and mem: "mem st' = pm_run (writes_of ex_geom (fix_nodes_at [n] ls cs nh)) pm1"
    and ver: "fix_versions ex_cfg ex_recov (meta st) pm1 i [n] cs ns' nh" and ls: "length ls = length [n]" "distinct ls"
    and m': "id2loc_map (meta st') = id2loc_map (meta st) ++ map_of (zip [n] ls)"
    and ex: "\<exists>need a hint1. alloc_loc_compact ex_geom default_config (alloc (meta st)) (length [n]) hint {} = Inr (ls, need, a, hint1)
         \<and> erase_and_set_loc ex_geom a (map (the \<circ> id2loc_map (meta st)) [n]) ls [n] = Inr (alloc (meta st'))
         \<and> hint' = sorted_list_of_set (set (hint1 @ map (loc_sector_no ex_geom \<circ> the \<circ> id2loc_map (meta st)) [n]))"
    using fix_node_run[OF ex_cfg_ok v inv i' fx sp pm1_def] unfolding g al by blast
  obtain l where l: "ls = [l]" using ls(1) by (cases ls) auto
  note k = graph_inv_other_file[OF gi recover_code_untouched, of ex_recov i c0, folded pm1_def]
  have "node_at ex_geom (graph_bytes (mem st)) l1 (cs n) (ns' n)" "fixed_list ex_cfg i (ns' n) (nh n)"
    using ver n(1) by (auto simp: fix_versions_def g k(2)[unfolded g])
  then have c: "cs n = c1" "nh n = ns" using node_at_unique[OF n(2)] n(3) by (auto simp: fixed_list_def)
  have "i < kAllocatedID" using map_invD(1)[of ex_geom "meta st" i] gi i(1) by (simp add: graph_inv_def g)
  note E = fix_effect[OF ex_cfg_ok k(1) this ver ls, unfolded g, OF mem]
  have rv: "recov_inv ex_cfg st' hint'" using fix_node_ok[OF ex_cfg_ok v inv i' fx sp] run by auto
  show thesis
  proof (rule that[OF run rv])
    show "id2loc_map (meta st') = (id2loc_map (meta st))(n \<mapsto> l)" by (simp add: m' l)
    show "node_at ex_geom (graph_bytes (mem st')) l c1 ns" using E(1)[of n l] c l by simp
    show "node_at ex_geom (graph_bytes (mem st')) l' c k" if "l' \<noteq> l" "node_at ex_geom (graph_bytes (mem st)) l' c k" for l' c k
      using E(3)[of l' c k] that k(2)[of l' c k] l by (simp add: g)
    show "\<exists>need a hint1. alloc_loc_compact ex_geom default_config (alloc (meta st)) 1 hint {} = Inr ([l], need, a, hint1)
         \<and> erase_and_set_loc ex_geom a [l1] [l] [n] = Inr (alloc (meta st')) \<and> hint' = sorted_list_of_set (set (hint1 @ [loc_sector_no ex_geom l1]))"
      using ex n(1) by (simp add: l)
  qed
qed

text \<open>
  C36. Recovery is not safe against a second crash. In the example node 1 is moved from location 1 to location 4 and
  then node 0 to location 1. The location file still has location 1 for node 1, where now the record of node 0 is: a
  recovery that starts over finds the vector of node 0 under the id of node 1.
\<close>

theorem recovery_not_restartable:
  "\<exists>st' hint'. fix_nodes ex_cfg ex_recov (ex_image\<lparr>meta := recover_tables ex_geom (meta ex_image) [0, 1, 2, 3]\<rparr>) [] [0, 1] = Some (Inr (st', hint'))
     \<and> pm_visible (mem st') (Loc_f, 1) = 1
     \<and> node_at ex_geom (graph_bytes (mem ex_image)) 1 (ex_point 1) [0] \<and> node_at ex_geom (graph_bytes (mem st')) 1 (ex_point 0) [1]"
proof -
  let ?m = "recover_tables ex_geom (meta ex_image) [0, 1, 2, 3]"
  let ?st = "ex_image\<lparr>meta := ?m\<rparr>" and ?g = "sgeom ex_cfg"
  have g: "?g = ex_geom" by (simp add: ex_cfg_def)
  have inv: "recov_inv ex_cfg ?st []" using image_recov_inv[OF ex_cfg_ok ex_image_ok] by (simp add: g)
  have mp: "id2loc_map (meta ?st) i = (if i < 4 then Some i else None)" for i
    by (auto simp: recover_tables_def Let_def scan_map used_def less_4 nth_Cons')
  have d: "dom (id2loc_map (meta ?st)) = {..<4}" unfolding dom_def mp by auto
  have cd: "codes_loaded ex_recov {..<4}" by (simp add: codes_loaded_def ex_recov_def)
  have n0: "node_at ex_geom (graph_bytes (mem ?st)) 0 (ex_point 0) [1]" and n1: "node_at ex_geom (graph_bytes (mem ?st)) 1 (ex_point 1) [0]"
    using ex_image_node[of 0] ex_image_node[of 1] by simp_all
  have al: "alloc (meta ?st) = ex_ralloc" using ex_recover_alloc by simp
  obtain st1 h1 l where 1: "fix_node ex_cfg ex_recov ?st [] 0 = Some (Inr (st1, h1))" "recov_inv ex_cfg st1 h1"
    "id2loc_map (meta st1) = (id2loc_map (meta ?st))(1 \<mapsto> l)" "node_at ex_geom (graph_bytes (mem st1)) l (ex_point 1) [0]"
    "\<And>l' c k. l' \<noteq> l \<Longrightarrow> node_at ex_geom (graph_bytes (mem ?st)) l' c k \<Longrightarrow> node_at ex_geom (graph_bytes (mem st1)) l' c k"
    "\<exists>need a hint1. alloc_loc_compact ex_geom default_config (alloc (meta ?st)) 1 [] {} = Inr ([l], need, a, hint1)
       \<and> erase_and_set_loc ex_geom a [1] [l] [1] = Inr (alloc (meta st1)) \<and> h1 = sorted_list_of_set (set (hint1 @ [loc_sector_no ex_geom 1]))"
    by (rule fix_node_single[OF inv _ n0 _ n1, where i = 0]) (use mp[of 0] mp[of 1] cd d al in \<open>simp_all add: ex_ralloc_def kInvalidID_def\<close>)
  have l: "l = 4" "alloc (meta st1) = ex_ralloc1" "h1 = [1]"
    using 1(6) ex_first_alloc unfolding al by (auto simp: loc_sector_no_def ex_geom_def)
  have d1: "dom (id2loc_map (meta st1)) = {..<4}" using d unfolding 1(3) by auto
  obtain st2 h2 l2 where 2: "fix_node ex_cfg ex_recov st1 [1] 1 = Some (Inr (st2, h2))" "node_at ex_geom (graph_bytes (mem st2)) l2 (ex_point 0) [1]"
    "\<exists>need a hint1. alloc_loc_compact ex_geom default_config (alloc (meta st1)) 1 [1] {} = Inr ([l2], need, a, hint1)"
  proof (rule fix_node_single[OF 1(2)[unfolded l(3)] _ 1(4), where i = 1 and ?l1.0 = 0 and ?c1.0 = "ex_point 0" and ns = "[1]"])
    show "node_at ex_geom (graph_bytes (mem st1)) 0 (ex_point 0) [1]" using 1(5)[OF _ n0] l(1) by simp
  qed (use 1(3) mp[of 0] cd d1 l in \<open>auto simp: ex_ralloc1_def kInvalidID_def\<close>)
  have "l2 = 1" using 2(3) ex_second_alloc unfolding l(2) by fastforce
  moreover have run: "fix_nodes ex_cfg ex_recov ?st [] [0, 1] = Some (Inr (st2, h2))" using 1(1) 2(1) l(3) by simp
  moreover have "pm_wf (mem ?st)" "pm_visible (mem ?st) (Loc_f, 1) = 1" by (simp_all add: ex_image_def pm_wf_def pm_visible_def)
  ultimately show ?thesis using fix_nodes_loc_file[OF run, of 1] 2(2) n1 by auto
qed

end
