(* ===== verification/Commit_Thread.thy ===== *)
theory Commit_Thread
  imports Soft_Insert
begin

text \<open>
  The background commit thread of \<^verbatim>\<open>src/update/direct_insert.cpp\<close>. For each finished insertion it makes
  the PQ code durable, writes the location entries that the insertions queued, and advances the checkpoint
  over the ids that are committed without a gap. The queue of committed ids is the list of the elements of
  the \<^verbatim>\<open>std::priority_queue\<close>; its top is the smallest one.
\<close>

record iss_index =
  core :: pm_index
  ckpt_id :: nat

record commit_state =
  commit_queue :: "nat list"
  n_tasks :: nat

definition COMMIT_INTERVAL :: nat where
  "COMMIT_INTERVAL = 1000"

section \<open>The checkpoint\<close>

text \<open>\<^verbatim>\<open>smallest_commit_id + 1\<close> is computed in 32 bits.\<close>

function pop_prefix :: "nat \<Rightarrow> nat list \<Rightarrow> bool \<Rightarrow> nat \<times> nat list \<times> bool" where
  "pop_prefix cur_ckpt_id q ckpt =
     (if q = [] then (cur_ckpt_id, q, ckpt)
      else let smallest = Min (set q)
           in if cur_ckpt_id = smallest then pop_prefix (u32 (smallest + 1)) (remove1 smallest q) True
              else (cur_ckpt_id, q, ckpt))"
  by auto
termination
  by (relation "measure (\<lambda>(_, q, _). length q)") (auto simp: length_remove1)

declare pop_prefix.simps [simp del]

definition process_commit_queue :: "pmdk \<Rightarrow> nat \<Rightarrow> nat list \<Rightarrow> nat \<times> nat list \<times> pm_event list" where
  "process_commit_queue L cur_ckpt_id q =
     (let (cur, q, ckpt) = pop_prefix cur_ckpt_id q False
      in (cur, q, if ckpt then barrier_dax @ pmem_memcpy_persist L Super_f 0 [u32 cur] else []))"

section \<open>One task\<close>

text \<open>
  The entries that can be popped now: \<^verbatim>\<open>pop\<close> gives \<^verbatim>\<open>null_pair\<close> when the queue is empty.
\<close>

function pop_entries :: "(nat \<times> nat) ConcurrentQueue \<Rightarrow> (nat \<times> nat) list \<times> (nat \<times> nat) ConcurrentQueue" where
  "pop_entries q =
     (let (entry, q') = cq_pop q
      in if cq_items q = [] \<or> entry = (kInvalidID, kInvalidID) then ([], q')
         else let (batch, q'') = pop_entries q' in (entry # batch, q''))"
  by auto
termination
  by (relation "measure (\<lambda>q. length (cq_items q))") (auto simp: cq_pop_def split: list.splits)

declare pop_entries.simps [simp del]

definition loc_batch_events :: "pmdk \<Rightarrow> (nat \<times> nat) list \<Rightarrow> pm_event list" where
  "loc_batch_events L batch = concat (map (\<lambda>(i, l). pmem_memcpy L Loc_f i [l] PMEM_TRANSFER) batch)"

text \<open>How far the tables must be mapped.\<close>

definition id2loc_size :: "(nat \<times> nat) list \<Rightarrow> nat" where
  "id2loc_size batch = ROUND_UP ((fold (\<lambda>(i, l) m. if i > m then i else m) batch 0 + 1) * 4) SECTOR_LEN"

definition pq_size :: "nat \<Rightarrow> nat \<Rightarrow> nat" where
  "pq_size target_id pq_bytes_per_vector = ROUND_UP ((target_id + 1) * pq_bytes_per_vector) SECTOR_LEN"

definition commit_task ::
  "pmdk \<Rightarrow> bool \<Rightarrow> CommitTask \<Rightarrow> iss_index \<Rightarrow> commit_state \<Rightarrow> iss_index \<times> commit_state \<times> pm_event list" where
  "commit_task L elapsed task ix cs =
     (let m = meta (core ix); t = ct_target_id task;
          pq_evs = pmem_memcpy_persist L PQ_f (t * length (ct_pq_coords task)) (ct_pq_coords task);
          (batch, pq) = pop_entries (id2loc_pm_queue m);
          q = commit_queue cs @ [t];
          (ck, q, ck_evs) = (if n_tasks cs \<noteq> 0 \<and> n_tasks cs mod COMMIT_INTERVAL = 0
             then process_commit_queue L (ckpt_id ix) q else (ckpt_id ix, q, []));
          evs = pq_evs @ loc_batch_events L batch @ ck_evs
      in (ix\<lparr>core := (core ix)\<lparr>meta := m\<lparr>id2loc_pm_queue := pq\<rparr>, mem := pm_run evs (mem (core ix))\<rparr>, ckpt_id := ck\<rparr>,
          \<lparr>commit_queue = q, n_tasks = (if elapsed then 0 else n_tasks cs + 1)\<rparr>, evs))"

section \<open>The thread\<close>

text \<open>
  After the sentinel: the remaining ids must form a prefix.
\<close>

definition commit_finish :: "pmdk \<Rightarrow> iss_index \<Rightarrow> commit_state \<Rightarrow> (iss_index \<times> pm_event list) outcome" where
  "commit_finish L ix cs =
     (let (ck, q, evs) = process_commit_queue L (ckpt_id ix) (commit_queue cs)
      in if q \<noteq> [] then Inl Trap
         else Inr (ix\<lparr>core := (core ix)\<lparr>mem := pm_run evs (mem (core ix))\<rparr>, ckpt_id := ck\<rparr>, evs))"

text \<open>
  The loop; \<open>elapsed k\<close> tells whether five seconds have passed at iteration \<open>k\<close>. With no task in the queue
  and nobody pushing one, the thread waits for ever.
\<close>

function insert_commit_thread ::
  "pmdk \<Rightarrow> (nat \<Rightarrow> bool) \<Rightarrow> nat \<Rightarrow> iss_index \<Rightarrow> commit_state \<Rightarrow> (iss_index \<times> pm_event list) run" where
  "insert_commit_thread L elapsed k ix cs =
     (case cq_items (commit_tasks (core ix)) of
        [] \<Rightarrow> None
      | None # rest \<Rightarrow> insert_commit_thread L elapsed k (ix\<lparr>core := (core ix)\<lparr>commit_tasks := (commit_tasks (core ix))\<lparr>cq_items := rest\<rparr>\<rparr>\<rparr>) cs
      | Some task # rest \<Rightarrow>
          let ix = ix\<lparr>core := (core ix)\<lparr>commit_tasks := (commit_tasks (core ix))\<lparr>cq_items := rest\<rparr>\<rparr>\<rparr>
          in if ct_terminate task then Some (commit_finish L ix cs)
             else let (ix, cs, evs) = commit_task L (elapsed k) task ix cs
                  in bind_run (insert_commit_thread L elapsed (Suc k) ix cs) (\<lambda>(ix, evs'). Some (Inr (ix, evs @ evs'))))"
  by auto
termination
  by (relation "measure (\<lambda>(_, _, _, ix, _). length (cq_items (commit_tasks (core ix))))")
    (auto simp: commit_task_def Let_def split: prod.splits if_splits)

declare insert_commit_thread.simps [simp del]

section \<open>The checkpoint moves over the committed prefix\<close>

lemma Min_below: "q \<noteq> [] \<Longrightarrow> \<forall>x\<in>set q. (c :: nat) \<le> x \<Longrightarrow> c = Min (set q) \<longleftrightarrow> c \<in> set q"
  by (metis Min.coboundedI Min_in List.finite_set antisym set_empty)

lemma pop_prefix_ok:
  assumes "distinct q" "\<forall>x\<in>set q. c \<le> x \<and> x < 2 ^ 32 - 1"
  shows "\<exists>c'. pop_prefix c q ck = (c', filter (\<lambda>x. c' \<le> x) q, ck \<or> c < c')
    \<and> c \<le> c' \<and> {c..<c'} \<subseteq> set q \<and> c' \<notin> set q"
  using assms
proof (induction "length q" arbitrary: c q ck)
  case 0
  then show ?case by (subst pop_prefix.simps) simp
next
  case (Suc n)
  then have q: "q \<noteq> []" by auto
  show ?case
  proof (cases "c \<in> set q")
    case False
    then have "pop_prefix c q ck = (c, q, ck)"
      using q Min_below[OF q, of c] Suc.prems(2) by (subst pop_prefix.simps) (auto simp: Let_def)
    moreover have "filter (\<lambda>x. c \<le> x) q = q" using Suc.prems(2) by (intro filter_True) auto
    ultimately show ?thesis using False by (intro exI[of _ c]) auto
  next
    case True
    let ?r = "remove1 c q"
    have m: "c = Min (set q)" using True q Min_below[OF q, of c] Suc.prems(2) by auto
    have u: "u32 (c + 1) = Suc c" using Suc.prems(2) True by (simp add: u32_def)
    have r: "set ?r = set q - {c}" "distinct ?r" "n = length ?r"
      using Suc.prems(1) Suc.hyps(2) True by (simp_all add: length_remove1)
    have "\<forall>x\<in>set ?r. Suc c \<le> x \<and> x < 2 ^ 32 - 1"
      unfolding r(1) using Suc.prems(2) by (metis DiffE insertI1 le_eq_less_or_eq Suc_leI)
    from Suc.hyps(1)[OF r(3,2) this, of True] obtain c' where c': "pop_prefix (Suc c) ?r True = (c', filter (\<lambda>x. c' \<le> x) ?r, True)"
      "Suc c \<le> c'" "{Suc c..<c'} \<subseteq> set ?r" "c' \<notin> set ?r" by auto
    have "pop_prefix c q ck = (c', filter (\<lambda>x. c' \<le> x) ?r, True)"
      using q c'(1) u m by (subst pop_prefix.simps) (simp add: Let_def)
    moreover have "filter (\<lambda>x. c' \<le> x) ?r = filter (\<lambda>x. c' \<le> x) q"
      using Suc.prems(1) c'(2) by (simp add: distinct_remove1_removeAll removeAll_filter_not_eq) (rule filter_cong; auto)
    moreover have "{c..<c'} \<subseteq> set q"
    proof
      fix x assume "x \<in> {c..<c'}"
      then have "x = c \<or> x \<in> {Suc c..<c'}" by auto
      then show "x \<in> set q" using c'(3) True unfolding r(1) by blast
    qed
    moreover have "c' \<notin> set q" "c < c'" using c'(2,4) unfolding r(1) by auto
    ultimately show ?thesis by (intro exI[of _ c']) simp
  qed
qed

text \<open>
  \<^verbatim>\<open>process_commit_queue\<close> moves the checkpoint to the first id that is not committed, leaves the ids
  beyond it in the queue, and issues a barrier before it stores the checkpoint.
\<close>

lemma process_commit_queue_prefix:
  assumes "distinct q" "\<forall>x\<in>set q. c \<le> x \<and> x < 2 ^ 32 - 1"
  shows "process_commit_queue L c q =
    (let c' = (LEAST n. c \<le> n \<and> n \<notin> set q)
     in (c', filter (\<lambda>x. c' < x) q, if c \<in> set q then [PFence] @ pmem_memcpy_persist L Super_f 0 [c'] else []))"
proof -
  obtain c' where p: "pop_prefix c q False = (c', filter (\<lambda>x. c' \<le> x) q, c < c')"
    "c \<le> c'" "{c..<c'} \<subseteq> set q" "c' \<notin> set q" using pop_prefix_ok[OF assms, of False] by auto
  have l: "(LEAST n. c \<le> n \<and> n \<notin> set q) = c'"
  proof (rule Least_equality)
    show "c' \<le> n" if "c \<le> n \<and> n \<notin> set q" for n using that p(3) by (meson atLeastLessThan_iff not_le subsetD)
  qed (use p in simp)
  have f: "filter (\<lambda>x. c' \<le> x) q = filter (\<lambda>x. c' < x) q" using p(4) by (intro filter_cong) (auto simp: order_less_le)
  have c: "c < c' \<longleftrightarrow> c \<in> set q" using p(2-4) by (cases "c = c'") auto
  have u: "u32 c' = c'" if "c < c'"
  proof -
    have "c' - 1 \<in> set q" using p(3) that by (intro subsetD[OF p(3)]) auto
    then have "c' - 1 < 2 ^ 32 - 1" using assms(2) by blast
    then show ?thesis using that by (intro u32_small) simp
  qed
  show ?thesis using u by (simp add: process_commit_queue_def p(1) l f barrier_dax_def Let_def flip: c)
qed

lemma process_commit_queue_prefix_witness:
  "process_commit_queue ex_pmdk 3 [5, 3, 7, 4] = (6, [7], [PFence] @ pmem_memcpy_persist ex_pmdk Super_f 0 [6])"
proof -
  have "(LEAST n. 3 \<le> n \<and> n \<notin> set [5, 3, 7, 4 :: nat]) = 6"
  proof (rule Least_equality)
    show "6 \<le> n" if "3 \<le> n \<and> n \<notin> set [5, 3, 7, 4]" for n :: nat using that by simp
  qed simp
  then show ?thesis using process_commit_queue_prefix[of "[5, 3, 7, 4]" 3 ex_pmdk] by (simp add: Let_def)
qed

section \<open>What a task makes durable\<close>

definition pq_durable :: "pmem \<Rightarrow> nat \<Rightarrow> nat list \<Rightarrow> bool" where
  "pq_durable m t pq \<longleftrightarrow> (\<forall>k < length pq. durable m (PQ_f, t * length pq + k) (pq ! k))"

text \<open>
  The committed tasks \<open>committed\<close> are those below the checkpoint and those in the queue; their codes are durable.
\<close>

definition commit_inv :: "nat \<Rightarrow> nat \<Rightarrow> (nat \<times> nat list) list \<Rightarrow> iss_index \<Rightarrow> commit_state \<Rightarrow> bool" where
  "commit_inv n c0 committed ix cs \<longleftrightarrow>
     distinct (commit_queue cs) \<and> c0 \<le> ckpt_id ix \<and> (\<forall>x\<in>set (commit_queue cs). ckpt_id ix \<le> x)
     \<and> distinct (map fst committed) \<and> fst ` set committed = {c0..<ckpt_id ix} \<union> set (commit_queue cs)
     \<and> (\<forall>(t, pq)\<in>set committed. length pq = n \<and> t < 2 ^ 32 - 1 \<and> pq_durable (mem (core ix)) t pq)
     \<and> durable (mem (core ix)) (Super_f, 0) (ckpt_id ix)"

lemma process_ok:
  assumes pk: "pmdk_ok L" and q: "distinct q" "\<forall>x\<in>set q. c \<le> x \<and> x < 2 ^ 32 - 1"
    and p: "process_commit_queue L c q = (c', q', evs)"
  shows "c \<le> c'" "{c..<c'} \<subseteq> set q" "q' = filter (\<lambda>x. c' \<le> x) q"
    and "fst d \<noteq> Super_f \<Longrightarrow> untouched d evs"
    and "durable m (Super_f, 0) c \<Longrightarrow> durable (pm_run evs m) (Super_f, 0) c'"
    and "durable m (Super_f, 0) c \<Longrightarrow> crash_image (pm_run (take j evs) m) img \<Longrightarrow> img (Super_f, 0) = c \<or> img (Super_f, 0) = c'"
    and "c \<noteq> c' \<Longrightarrow> PFence \<in> set evs"
proof -
  obtain b where b: "pop_prefix c q False = (b, filter (\<lambda>x. b \<le> x) q, c < b)" "c \<le> b" "{c..<b} \<subseteq> set q"
    using pop_prefix_ok[OF q, of False] by auto
  from p b(1) have c': "c' = b" and q': "q' = filter (\<lambda>x. b \<le> x) q"
    and e: "evs = (if c < b then barrier_dax @ pmem_memcpy_persist L Super_f 0 [u32 b] else [])"
    by (auto simp: process_commit_queue_def)
  show "c \<le> c'" "{c..<c'} \<subseteq> set q" "q' = filter (\<lambda>x. c' \<le> x) q" using b c' q' by simp_all
  show "untouched d evs" if "fst d \<noteq> Super_f" using that by (simp add: e untouched_memcpy[OF pk])
  show "PFence \<in> set evs" if "c \<noteq> c'" using that b(2) by (simp add: e c' barrier_dax_def)
  have u: "u32 b = b" if "c < b"
  proof -
    have "b - 1 \<in> {c..<b}" using that by auto
    then have "b - 1 < 2 ^ 32 - 1" using b(3) q(2) by blast
    then show ?thesis using that by (intro u32_small) simp
  qed
  show "durable (pm_run evs m) (Super_f, 0) c'" if "durable m (Super_f, 0) c"
    using memcpy_persist_durable[OF pk, of 0 "[u32 b]" Super_f 0] that u b(2) by (cases "c < b") (auto simp: e c' pm_run_append)
  show "img (Super_f, 0) = c \<or> img (Super_f, 0) = c'" if "durable m (Super_f, 0) c" "crash_image (pm_run (take j evs) m) img"
  proof (rule crash_values[OF that(1) _ that(2)])
    fix w assume "PStore (fst (Super_f, 0)) (snd (Super_f, 0)) w \<in> set (take j evs)"
    then have w: "PStore Super_f 0 w \<in> set evs" by (auto dest: in_set_takeD)
    then have cb: "c < b" by (auto simp: e split: if_splits)
    obtain x y where xy: "pmem_memcpy_persist L Super_f 0 [u32 b] = x @ y @ [PFence]" "copies Super_f 0 [u32 b] x" "writes_back Super_f 0 1 y"
      using pmdk_persist[OF pk, of Super_f 0 "[u32 b]"] by auto
    have "PStore Super_f 0 w \<in> set x" using w xy(3) cb by (auto simp: e xy(1) barrier_dax_def writes_back_def)
    then have "w = [u32 b] ! (0 - 0)" using xy(2) unfolding copies_def by blast
    then show "w = c'" using u[OF cb] by (simp add: c')
  qed
qed

lemma loc_batch_untouched: "pmdk_ok L \<Longrightarrow> fst d \<noteq> Loc_f \<Longrightarrow> untouched d (loc_batch_events L batch)"
  by (auto simp: loc_batch_events_def untouched_memcpy intro!: untouched_concat)

lemma pq_cells_disjoint: "(t :: nat) \<noteq> t' \<Longrightarrow> k < n \<Longrightarrow> \<not> (t * n \<le> t' * n + k \<and> t' * n + k < t * n + n)"
proof -
  assume "t \<noteq> t'" "k < n"
  then have "t * n + n \<le> t' * n \<or> t' * n + n \<le> t * n"
    by (metis add.commute linorder_neqE_nat mult_Suc mult_le_mono1 Suc_leI)
  then show ?thesis using \<open>k < n\<close> by linarith
qed

lemma commit_task_frame:
  assumes "commit_task L el task ix cs = (ix', cs', evs)"
  shows "mem (core ix') = pm_run evs (mem (core ix))" "commit_tasks (core ix') = commit_tasks (core ix)"
    and "id2loc_map (meta (core ix')) = id2loc_map (meta (core ix))" "cur_id (meta (core ix')) = cur_id (meta (core ix))"
    and "alloc (meta (core ix')) = alloc (meta (core ix))" "vec_locks (core ix') = vec_locks (core ix)"
    "page_locks (core ix') = page_locks (core ix)"
  using assms by (auto simp: commit_task_def Let_def split: prod.splits)

lemma commit_task_parts:
  assumes pk: "pmdk_ok L" and inv: "commit_inv n c0 committed ix cs"
    and t: "t = ct_target_id task" "pq = ct_pq_coords task" "length pq = n" "c0 \<le> t" "t < 2 ^ 32 - 1" "t \<notin> fst ` set committed"
    and run: "commit_task L el task ix cs = (ix', cs', evs)"
  obtains q' ck_evs where "evs = (pmem_memcpy_persist L PQ_f (t * n) pq
        @ loc_batch_events L (fst (pop_entries (id2loc_pm_queue (meta (core ix)))))) @ ck_evs"
    and "commit_queue cs' = q'" "distinct (commit_queue cs @ [t])" "ckpt_id ix \<le> t"
    and "ckpt_id ix \<le> ckpt_id ix'" "{ckpt_id ix..<ckpt_id ix'} \<subseteq> insert t (set (commit_queue cs))"
    and "q' = filter (\<lambda>x. ckpt_id ix' \<le> x) (commit_queue cs @ [t])"
    and "\<And>d. fst d \<noteq> Super_f \<Longrightarrow> untouched d ck_evs"
    and "\<And>m. durable m (Super_f, 0) (ckpt_id ix) \<Longrightarrow> durable (pm_run ck_evs m) (Super_f, 0) (ckpt_id ix')"
    and "\<And>m j img. durable m (Super_f, 0) (ckpt_id ix) \<Longrightarrow> crash_image (pm_run (take j ck_evs) m) img \<Longrightarrow>
           img (Super_f, 0) = ckpt_id ix \<or> img (Super_f, 0) = ckpt_id ix'"
    and "ckpt_id ix \<noteq> ckpt_id ix' \<Longrightarrow> PFence \<in> set ck_evs"
proof -
  let ?q = "commit_queue cs @ [t]" and ?c = "ckpt_id ix"
  have t': "t \<notin> {c0..<?c}" "t \<notin> set (commit_queue cs)" using inv t(6) by (auto simp: commit_inv_def)
  then have ct: "?c \<le> t" using t(4) by auto
  have d: "distinct ?q" using inv t'(2) by (simp add: commit_inv_def)
  have "x < 2 ^ 32 - 1" if "x \<in> set (commit_queue cs)" for x
  proof -
    have "x \<in> fst ` set committed" using inv that by (simp add: commit_inv_def)
    then show ?thesis using inv unfolding commit_inv_def by fastforce
  qed
  then have b: "\<forall>x\<in>set ?q. ?c \<le> x \<and> x < 2 ^ 32 - 1" using inv ct t(5) by (auto simp: commit_inv_def)
  show thesis
  proof (cases "n_tasks cs \<noteq> 0 \<and> n_tasks cs mod COMMIT_INTERVAL = 0")
    case True
    obtain c' q' e where p: "process_commit_queue L ?c ?q = (c', q', e)" by (metis prod_cases3)
    from run True p t(1,2,3) have r: "ckpt_id ix' = c'" "commit_queue cs' = q'"
      "evs = (pmem_memcpy_persist L PQ_f (t * n) pq @ loc_batch_events L (fst (pop_entries (id2loc_pm_queue (meta (core ix)))))) @ e"
      by (auto simp: commit_task_def Let_def split: prod.splits)
    note P = process_ok[OF pk d b p]
    show thesis by (rule that[OF r(3,2) d ct]) (use P r(1) in auto)
  next
    case False
    from run False t(1,2,3) have r: "ckpt_id ix' = ?c" "commit_queue cs' = ?q"
      "evs = (pmem_memcpy_persist L PQ_f (t * n) pq @ loc_batch_events L (fst (pop_entries (id2loc_pm_queue (meta (core ix)))))) @ []"
      by (auto simp: commit_task_def Let_def split: prod.splits if_splits)
    have "filter (\<lambda>x. ?c \<le> x) ?q = ?q" using b by (intro filter_True) blast
    then show thesis by (intro that[OF r(3,2) d ct]) (use r(1) durable_crash in auto)
  qed
qed

lemma prefix_shift:
  assumes "D = {c0..<c} \<union> Q" "c0 \<le> c" "c \<le> c'" "{c..<c'} \<subseteq> Q" "\<forall>x\<in>Q. (c :: nat) \<le> x"
  shows "D = {c0..<c'} \<union> {x \<in> Q. c' \<le> x}"
proof (rule set_eqI)
  fix x
  consider "x < c" | "c \<le> x" "x < c'" | "c' \<le> x" by linarith
  then show "x \<in> D \<longleftrightarrow> x \<in> {c0..<c'} \<union> {x \<in> Q. c' \<le> x}"
  proof cases
    case 2
    then have "x \<in> Q" using assms(4) by auto
    then show ?thesis using 2 assms(1,2) by auto
  qed (use assms(1-3,5) in auto)
qed

lemma prefix_gap:
  assumes "D = {c0..<c} \<union> R" "c0 \<le> c" "\<forall>x\<in>R. (c :: nat) < x" "card D = n"
  shows "D = {c0..<c0 + n} \<longleftrightarrow> R = {}"
proof
  assume e: "D = {c0..<c0 + n}"
  have "x \<notin> R" for x
  proof
    assume x: "x \<in> R"
    then have "c < x" "x \<in> D" using assms(1,3) by auto
    then have "c \<in> D" using e assms(2) by auto
    then show False using assms(1,3) by auto
  qed
  then show "R = {}" by blast
qed (use assms in auto)

text \<open>The code of a committed task is not overwritten, that of the new one is durable once it is written.\<close>

lemma commit_task_codes:
  assumes pk: "pmdk_ok L" and inv: "commit_inv n c0 committed ix cs" and t: "length pq = n" "t \<notin> fst ` set committed"
    and un: "\<And>d. untouched (PQ_f, d) rest" and mem: "(t', pq') \<in> set ((t, pq) # committed)" and k: "k < n"
  shows "durable (pm_run (pmem_memcpy_persist L PQ_f (t * n) pq @ rest) (mem (core ix))) (PQ_f, t' * n + k) (pq' ! k)"
proof (cases "(t', pq') \<in> set committed")
  case True
  then have d: "durable (mem (core ix)) (PQ_f, t' * n + k) (pq' ! k)"
    using inv k unfolding commit_inv_def pq_durable_def by fastforce
  have "t \<noteq> t'" using t(2) True by force
  from pq_cells_disjoint[OF this k] have "untouched (PQ_f, t' * n + k) (pmem_memcpy_persist L PQ_f (t * n) pq @ rest)"
    using t(1) by (simp add: un untouched_memcpy[OF pk])
  then show ?thesis using run_keeps(3) d by blast
next
  case False
  then have "t' = t" "pq' = pq" using mem by auto
  moreover have "durable (pm_run (pmem_memcpy_persist L PQ_f (t * n) pq) (mem (core ix))) (PQ_f, t * n + k) (pq ! k)"
    using memcpy_persist_durable[OF pk, of k pq PQ_f "t * n"] k t(1) by simp
  ultimately show ?thesis using run_keeps(3)[OF un] by (simp add: pm_run_append)
qed

lemma commit_task_inv:
  assumes pk: "pmdk_ok L" and inv: "commit_inv n c0 committed ix cs"
    and t: "t = ct_target_id task" "pq = ct_pq_coords task" "length pq = n" "c0 \<le> t" "t < 2 ^ 32 - 1" "t \<notin> fst ` set committed"
    and run: "commit_task L el task ix cs = (ix', cs', evs)"
  shows "commit_inv n c0 ((t, pq) # committed) ix' cs'"
proof -
  let ?P = "pmem_memcpy_persist L PQ_f (t * n) pq" and ?c = "ckpt_id ix"
  let ?B = "loc_batch_events L (fst (pop_entries (id2loc_pm_queue (meta (core ix)))))"
  obtain q' K where e: "evs = (?P @ ?B) @ K" and q: "commit_queue cs' = q'" "distinct (commit_queue cs @ [t])" "?c \<le> t"
    "?c \<le> ckpt_id ix'" "{?c..<ckpt_id ix'} \<subseteq> insert t (set (commit_queue cs))"
    "q' = filter (\<lambda>x. ckpt_id ix' \<le> x) (commit_queue cs @ [t])"
    and K: "\<And>d. fst d \<noteq> Super_f \<Longrightarrow> untouched d K"
      "\<And>m. durable m (Super_f, 0) ?c \<Longrightarrow> durable (pm_run K m) (Super_f, 0) (ckpt_id ix')"
    by (rule commit_task_parts[OF pk inv t run]) blast
  note I = inv[unfolded commit_inv_def]
  have mem: "mem (core ix') = pm_run evs (mem (core ix))" by (rule commit_task_frame[OF run])
  have "\<forall>x\<in>insert t (set (commit_queue cs)). ?c \<le> x" using I q(3) by blast
  from prefix_shift[OF _ _ q(4,5) this, of "insert t (fst ` set committed)" c0]
  have ids: "fst ` set ((t, pq) # committed) = {c0..<ckpt_id ix'} \<union> set (commit_queue cs')" using I q by auto
  have u: "untouched (Super_f, 0) (?P @ ?B)" by (simp add: untouched_memcpy[OF pk] loc_batch_untouched[OF pk])
  have "durable (mem (core ix)) (Super_f, 0) ?c" using I by blast
  then have sup: "durable (mem (core ix')) (Super_f, 0) (ckpt_id ix')"
    unfolding mem e pm_run_append[of "?P @ ?B"] using K(2)[OF run_keeps(3)[OF u]] by blast
  have "length pq' = n \<and> t' < 2 ^ 32 - 1 \<and> pq_durable (mem (core ix')) t' pq'" if "(t', pq') \<in> set ((t, pq) # committed)" for t' pq'
  proof -
    have "untouched (PQ_f, d) (?B @ K)" for d by (simp add: K(1) loc_batch_untouched[OF pk])
    from commit_task_codes[OF pk inv t(3,6) this that]
    have "durable (mem (core ix')) (PQ_f, t' * n + k) (pq' ! k)" if "k < n" for k using that by (simp add: mem e)
    then show ?thesis using that I t(3,5) by (auto simp: pq_durable_def)
  qed
  then show ?thesis unfolding commit_inv_def using ids sup I q t(6) by auto
qed

text \<open>
  A crash while a task is processed: the checkpoint that is found covers only ids whose codes are there.
\<close>

lemma commit_task_crash:
  assumes pk: "pmdk_ok L" and inv: "commit_inv n c0 committed ix cs"
    and t: "t = ct_target_id task" "pq = ct_pq_coords task" "length pq = n" "c0 \<le> t" "t < 2 ^ 32 - 1" "t \<notin> fst ` set committed"
    and run: "commit_task L el task ix cs = (ix', cs', evs)"
    and img: "crash_image (pm_run (take j evs) (mem (core ix))) img"
  shows "{c0..<img (Super_f, 0)} \<subseteq> fst ` set ((t, pq) # committed)
      \<and> (\<forall>(t', pq')\<in>set ((t, pq) # committed). t' < img (Super_f, 0) \<longrightarrow> (\<forall>k<n. img (PQ_f, t' * n + k) = pq' ! k))"
proof -
  let ?m = "mem (core ix)" and ?P = "pmem_memcpy_persist L PQ_f (t * n) pq" and ?c = "ckpt_id ix"
  let ?B = "loc_batch_events L (fst (pop_entries (id2loc_pm_queue (meta (core ix)))))"
  obtain K where e: "evs = (?P @ ?B) @ K" and q: "?c \<le> t" "?c \<le> ckpt_id ix'" "{?c..<ckpt_id ix'} \<subseteq> insert t (set (commit_queue cs))"
    and K: "\<And>d. fst d \<noteq> Super_f \<Longrightarrow> untouched d K"
      "\<And>m j img. durable m (Super_f, 0) ?c \<Longrightarrow> crash_image (pm_run (take j K) m) img \<Longrightarrow>
           img (Super_f, 0) = ?c \<or> img (Super_f, 0) = ckpt_id ix'"
    by (rule commit_task_parts[OF pk inv t run]) blast
  have old: "fst ` set committed = {c0..<?c} \<union> set (commit_queue cs)" "durable ?m (Super_f, 0) ?c" "c0 \<le> ?c"
    using inv unfolding commit_inv_def by blast+
  have sup: "untouched (Super_f, 0) (?P @ ?B)" by (simp add: untouched_memcpy[OF pk] loc_batch_untouched[OF pk])
  show ?thesis
  proof (cases rule: take_append_cases[of j "?P @ ?B" K])
    case 1
    have s: "img (Super_f, 0) = ?c"
      using durable_crash[OF run_keeps(3)[OF untouched_take[OF sup] old(2)]] img unfolding e 1 by blast
    have "img (PQ_f, t' * n + k) = pq' ! k" if a: "(t', pq') \<in> set ((t, pq) # committed)" "t' < ?c" "k < n" for t' pq' k
    proof -
      have d: "(t', pq') \<in> set committed" "t \<noteq> t'" using a q(1) by auto
      then have "durable ?m (PQ_f, t' * n + k) (pq' ! k)" using inv a(3) unfolding commit_inv_def pq_durable_def by fastforce
      moreover have "untouched (PQ_f, t' * n + k) evs"
        using pq_cells_disjoint[OF d(2) a(3)] t(3) by (simp add: e K(1) untouched_memcpy[OF pk] loc_batch_untouched[OF pk])
      ultimately show ?thesis using durable_crash[OF run_keeps(3)[OF untouched_take] img] by blast
    qed
    then show ?thesis unfolding s using old(1) by auto
  next
    case (2 i)
    have s: "img (Super_f, 0) = ?c \<or> img (Super_f, 0) = ckpt_id ix'"
      using K(2)[OF run_keeps(3)[OF sup old(2)]] img unfolding e 2 pm_run_append[of "?P @ ?B"] by blast
    have "untouched (PQ_f, d) (?B @ take i K)" for d using K(1) untouched_take[of _ K i] by (simp add: loc_batch_untouched[OF pk])
    note codes = durable_crash[OF commit_task_codes[OF pk inv t(3,6) this]]
    have "crash_image (pm_run (?P @ ?B @ take i K) ?m) img" using img unfolding e 2 by simp
    from codes[OF _ _ this]
    have "img (PQ_f, t' * n + k) = pq' ! k" if "(t', pq') \<in> set ((t, pq) # committed)" "k < n" for t' pq' k
      using that by blast
    moreover have "{c0..<img (Super_f, 0)} \<subseteq> insert t (fst ` set committed)"
    proof
      fix x assume "x \<in> {c0..<img (Super_f, 0)}"
      then have "x \<in> {c0..<?c} \<or> x \<in> {?c..<ckpt_id ix'}" using s q(2) by auto
      then show "x \<in> insert t (fst ` set committed)" using q(3) old(1) by blast
    qed
    ultimately show ?thesis by auto
  qed
qed

section \<open>The thread ends with everything committed, or traps on a gap\<close>

abbreviation no_gap :: "nat \<Rightarrow> (nat \<times> nat list) list \<Rightarrow> bool" where
  "no_gap c0 committed \<equiv> fst ` set committed = {c0..<c0 + length committed}"

lemma commit_finish_ok:
  assumes pk: "pmdk_ok L" and inv: "commit_inv n c0 committed ix cs"
  shows "if no_gap c0 committed
    then \<exists>ix' evs. commit_finish L ix cs = Inr (ix', evs) \<and> ckpt_id ix' = c0 + length committed
           \<and> commit_inv n c0 committed ix' \<lparr>commit_queue = [], n_tasks = 0\<rparr>
    else commit_finish L ix cs = Inl Trap"
proof -
  let ?q = "commit_queue cs" and ?c = "ckpt_id ix" and ?D = "fst ` set committed"
  note I = inv[unfolded commit_inv_def]
  have "x < 2 ^ 32 - 1" if "x \<in> ?D" for x using I that by fastforce
  then have b: "\<forall>x\<in>set ?q. ?c \<le> x \<and> x < 2 ^ 32 - 1" using I by blast
  have dq: "distinct ?q" and D: "?D = {c0..<?c} \<union> set ?q" and cc: "c0 \<le> ?c" using I by blast+
  obtain c' q' evs where p: "process_commit_queue L ?c ?q = (c', q', evs)" by (metis prod_cases3)
  note P = process_ok[OF pk dq b p]
  obtain c'' where "pop_prefix ?c ?q False = (c'', filter (\<lambda>x. c'' \<le> x) ?q, ?c < c'')" "c'' \<notin> set ?q"
    using pop_prefix_ok[OF dq b, of False] by auto
  then have c': "c' \<notin> set ?q" using p by (auto simp: process_commit_queue_def)
  have card: "card ?D = length committed" using I distinct_card[of "map fst committed"] by simp
  have "\<forall>x\<in>set ?q. ?c \<le> x" using b by blast
  from prefix_shift[OF D cc P(1,2) this] have D': "?D = {c0..<c'} \<union> set q'" by (simp add: P(3))
  have "\<forall>x\<in>set q'. c' < x" using c' P(3) by (auto simp: order_less_le)
  from prefix_gap[OF D' _ this card] have gap: "no_gap c0 committed \<longleftrightarrow> q' = []" using cc P(1) by simp
  show ?thesis
  proof (cases "q' = []")
    case False
    then show ?thesis using gap p by (simp add: commit_finish_def)
  next
    case True
    let ?ix = "ix\<lparr>core := (core ix)\<lparr>mem := pm_run evs (mem (core ix))\<rparr>, ckpt_id := c'\<rparr>"
    have "c' = c0 + length committed" using True D' card P(1) cc by simp
    moreover have "pq_durable (pm_run evs (mem (core ix))) t pq" if "(t, pq) \<in> set committed" for t pq
    proof -
      have "pq_durable (mem (core ix)) t pq" using I that by blast
      then show ?thesis using run_keeps(3)[OF P(4)] by (simp add: pq_durable_def)
    qed
    then have "commit_inv n c0 committed ?ix \<lparr>commit_queue = [], n_tasks = 0\<rparr>"
      unfolding commit_inv_def using I P(1,5) D' True by auto
    ultimately show ?thesis using True gap p by (simp add: commit_finish_def)
  qed
qed

abbreviation code_of :: "CommitTask \<Rightarrow> nat \<times> nat list" where
  "code_of task \<equiv> (ct_target_id task, ct_pq_coords task)"

definition task_ok :: "nat \<Rightarrow> nat \<Rightarrow> CommitTask \<Rightarrow> bool" where
  "task_ok n c0 task \<longleftrightarrow> \<not> ct_terminate task \<and> length (ct_pq_coords task) = n \<and> c0 \<le> ct_target_id task \<and> ct_target_id task < 2 ^ 32 - 1"

lemma commit_thread_run:
  assumes pk: "pmdk_ok L" and "cq_items (commit_tasks (core ix)) = map Some ts @ [Some stop]" "ct_terminate stop"
    and "commit_inv n c0 committed ix cs" "\<forall>task\<in>set ts. task_ok n c0 task"
    and "distinct (map ct_target_id ts)" "ct_target_id ` set ts \<inter> fst ` set committed = {}"
  shows "let D = rev (map code_of ts) @ committed
    in if no_gap c0 D
       then \<exists>ix' evs. insert_commit_thread L elapsed k ix cs = Some (Inr (ix', evs)) \<and> ckpt_id ix' = c0 + length D
              \<and> commit_inv n c0 D ix' \<lparr>commit_queue = [], n_tasks = 0\<rparr>
       else insert_commit_thread L elapsed k ix cs = Some (Inl Trap)"
  using assms(2-)
proof (induction ts arbitrary: ix cs committed k)
  case Nil
  let ?ix = "ix\<lparr>core := (core ix)\<lparr>commit_tasks := (commit_tasks (core ix))\<lparr>cq_items := []\<rparr>\<rparr>\<rparr>"
  have "commit_inv n c0 committed ?ix cs" using Nil.prems(3) by (simp add: commit_inv_def)
  from commit_finish_ok[OF pk this] show ?case
    using Nil.prems(1,2) by (subst (1 2) insert_commit_thread.simps) (auto simp: Let_def split: if_splits)
next
  case (Cons task ts)
  let ?c = "code_of task"
  let ?ix = "ix\<lparr>core := (core ix)\<lparr>commit_tasks := (commit_tasks (core ix))\<lparr>cq_items := map Some ts @ [Some stop]\<rparr>\<rparr>\<rparr>"
  obtain ix' cs' evs where run: "commit_task L (elapsed k) task ?ix cs = (ix', cs', evs)" by (metis prod_cases3)
  have inv: "commit_inv n c0 committed ?ix cs" using Cons.prems(3) by (simp add: commit_inv_def)
  have ok: "task_ok n c0 task" "ct_target_id task \<notin> fst ` set committed" using Cons.prems(4,6) by auto
  have inv': "commit_inv n c0 (?c # committed) ix' cs'"
    using commit_task_inv[OF pk inv refl refl _ _ _ ok(2) run] ok(1) by (simp add: task_ok_def)
  have it: "cq_items (commit_tasks (core ix')) = map Some ts @ [Some stop]" using commit_task_frame(2)[OF run] by simp
  have dis: "ct_target_id ` set ts \<inter> fst ` set (?c # committed) = {}" using Cons.prems(5,6) by auto
  have "insert_commit_thread L elapsed k ix cs
      = bind_run (insert_commit_thread L elapsed (Suc k) ix' cs') (\<lambda>(ix, evs'). Some (Inr (ix, evs @ evs')))"
    using Cons.prems(1) ok(1) run by (subst insert_commit_thread.simps) (simp add: task_ok_def)
  moreover note Cons.IH[OF it Cons.prems(2) inv' _ _ dis, of "Suc k"]
  ultimately show ?case using Cons.prems(4,5) by (auto simp: Let_def split: if_splits)
qed

lemma commit_finish_map: "commit_finish L ix cs = Inr (ix', evs) \<Longrightarrow> meta (core ix') = meta (core ix)"
  by (auto simp: commit_finish_def Let_def split: prod.splits if_splits)

lemma insert_commit_thread_map:
  "insert_commit_thread L elapsed k ix cs = Some (Inr (ix', evs)) \<Longrightarrow> id2loc_map (meta (core ix')) = id2loc_map (meta (core ix))"
proof (induction L elapsed k ix cs arbitrary: evs rule: insert_commit_thread.induct)
  case (1 L elapsed k ix cs)
  show ?case
  proof (cases "cq_items (commit_tasks (core ix))")
    case Nil
    then show ?thesis using "1.prems" by (subst (asm) insert_commit_thread.simps) simp
  next
    case (Cons x rest)
    let ?ix = "ix\<lparr>core := (core ix)\<lparr>commit_tasks := (commit_tasks (core ix))\<lparr>cq_items := rest\<rparr>\<rparr>\<rparr>"
    show ?thesis
    proof (cases x)
      case None
      then show ?thesis using "1.prems" "1.IH"(1)[OF Cons None] Cons by (subst (asm) insert_commit_thread.simps) simp
    next
      case (Some task)
      show ?thesis
      proof (cases "ct_terminate task")
        case True
        then show ?thesis using "1.prems" Cons Some commit_finish_map by (subst (asm) insert_commit_thread.simps) fastforce
      next
        case False
        obtain ix1 cs1 evs1 where c: "commit_task L (elapsed k) task ?ix cs = (ix1, cs1, evs1)" by (metis prod_cases3)
        then obtain evs2 where "insert_commit_thread L elapsed (Suc k) ix1 cs1 = Some (Inr (ix', evs2))"
          using "1.prems" Cons Some False by (subst (asm) insert_commit_thread.simps) (auto simp: bind_run_eq_Some_Inr)
        then have "id2loc_map (meta (core ix')) = id2loc_map (meta (core ix1))"
          using "1.IH"(2)[OF Cons Some refl False c[symmetric] refl refl] by blast
        then show ?thesis using commit_task_frame(3)[OF c] by simp
      qed
    qed
  qed
qed

text \<open>
  C10. The commit thread returns after the sentinel when the ids of the tasks continue the checkpoint without a
  gap: then the checkpoint in memory and on persistent memory is the number of ids, and the PQ code of every
  task is durable. When an id is missing it traps.
\<close>

theorem insert_commit_thread_complete:
  assumes "pmdk_ok L" "cq_items (commit_tasks (core ix)) = map Some ts @ [Some stop]" "ct_terminate stop"
    and "\<forall>task\<in>set ts. task_ok n (ckpt_id ix) task" "distinct (map ct_target_id ts)"
    and "durable (mem (core ix)) (Super_f, 0) (ckpt_id ix)"
  shows "if ct_target_id ` set ts = {ckpt_id ix..<ckpt_id ix + length ts}
    then \<exists>ix' evs. insert_commit_thread L elapsed 0 ix \<lparr>commit_queue = [], n_tasks = 0\<rparr> = Some (Inr (ix', evs))
           \<and> ckpt_id ix' = ckpt_id ix + length ts \<and> durable (mem (core ix')) (Super_f, 0) (ckpt_id ix + length ts)
           \<and> (\<forall>task\<in>set ts. pq_durable (mem (core ix')) (ct_target_id task) (ct_pq_coords task))
    else insert_commit_thread L elapsed 0 ix \<lparr>commit_queue = [], n_tasks = 0\<rparr> = Some (Inl Trap)"
proof -
  have inv: "commit_inv n (ckpt_id ix) [] ix \<lparr>commit_queue = [], n_tasks = 0\<rparr>" using assms(6) by (simp add: commit_inv_def)
  have ids: "fst ` set (rev (map code_of ts)) = ct_target_id ` set ts" by force
  have codes: "\<forall>task\<in>set ts. pq_durable (mem (core ix')) (ct_target_id task) (ct_pq_coords task)"
    if "commit_inv n (ckpt_id ix) (rev (map code_of ts)) ix' cs'" for ix' cs' using that by (auto simp: commit_inv_def)
  have dur: "durable (mem (core ix')) (Super_f, 0) (ckpt_id ix')"
    if "commit_inv n (ckpt_id ix) (rev (map code_of ts)) ix' cs'" for ix' cs' using that by (simp add: commit_inv_def)
  from commit_thread_run[OF assms(1-3) inv assms(4,5), of elapsed 0] ids codes dur show ?thesis
    by (simp add: Let_def split: if_splits) metis
qed

definition ex_task :: "nat \<Rightarrow> nat list \<Rightarrow> CommitTask" where
  "ex_task t pq = \<lparr>ct_pq_coords = pq, ct_target_id = t, ct_terminate = False, ct_point = None\<rparr>"

definition ex_iss :: iss_index where
  "ex_iss = \<lparr>core = \<lparr>meta = \<lparr>alloc = \<lparr>page_layout = Map.empty, empty_pages = cq_new kInvalidID, cur_loc = 0\<rparr>, id2loc_map = Map.empty,
       tags = Map.empty, id2loc_pm_queue = cq_push (cq_new (kInvalidID, kInvalidID)) (2, 9), cur_id = 7\<rparr>,
     mem = (\<lambda>c. ([], [if c = (Super_f, 0) then 5 else 0])), graph_size = 0, vec_locks = Map.empty, page_locks = Map.empty,
     commit_tasks = \<lparr>cq_items = [Some (ex_task 6 [60, 61]), Some (ex_task 5 [50, 51]), Some (ex_task 0 []\<lparr>ct_terminate := True\<rparr>)],
       null_T = None\<rparr>, insert_thread_count = 0\<rparr>, ckpt_id = 5\<rparr>"

theorem insert_commit_thread_complete_witness:
  "\<exists>ix' evs. insert_commit_thread ex_pmdk (\<lambda>_. False) 0 ex_iss \<lparr>commit_queue = [], n_tasks = 0\<rparr> = Some (Inr (ix', evs))
     \<and> ckpt_id ix' = 7 \<and> pq_durable (mem (core ix')) 5 [50, 51]"
proof -
  have "{6, 5 :: nat} = {5..<7}" by auto
  then show ?thesis
    using insert_commit_thread_complete[OF ex_pmdk_ok, of ex_iss "[ex_task 6 [60, 61], ex_task 5 [50, 51]]" "ex_task 0 []\<lparr>ct_terminate := True\<rparr>" 2 "\<lambda>_. False"]
    by (auto simp: ex_iss_def ex_task_def task_ok_def durable_def)
qed

section \<open>The queued location entries\<close>

lemma pop_entries_ok:
  "(kInvalidID, kInvalidID) \<notin> set (cq_items q) \<Longrightarrow> pop_entries q = (cq_items q, q\<lparr>cq_items := []\<rparr>)"
proof (induction "cq_items q" arbitrary: q)
  case Nil
  then show ?case by (subst pop_entries.simps) (simp add: cq_pop_def)
next
  case (Cons x xs)
  then have "pop_entries (q\<lparr>cq_items := xs\<rparr>) = (xs, q\<lparr>cq_items := []\<rparr>)" by (metis ConcurrentQueue.select_convs(1)
    ConcurrentQueue.simps(5) ConcurrentQueue.surjective ConcurrentQueue.update_convs(1) list.set_intros(2))
  then show ?case using Cons.prems Cons.hyps(2)[symmetric] by (subst pop_entries.simps) (auto simp: cq_pop_Cons)
qed

lemma loc_batch_flushed:
  assumes "pmdk_ok L" "map_of (rev batch) i = Some l"
  shows "flushed (pm_run (loc_batch_events L batch) m) (Loc_f, i) l"
  using assms(2)
proof (induction batch rule: rev_induct)
  case (snoc e batch)
  obtain i' l' where e: "e = (i', l')" by (cases e)
  have s: "loc_batch_events L (batch @ [e]) = loc_batch_events L batch @ pmem_memcpy L Loc_f i' [l'] PMEM_TRANSFER"
    by (simp add: loc_batch_events_def e)
  show ?case
  proof (cases "i' = i")
    case True
    then show ?thesis using memcpy_nodrain_flushed[OF assms(1), of 0 "[l']" Loc_f i'] snoc.prems
      unfolding s pm_run_append by (simp add: e)
  next
    case False
    then have "untouched (Loc_f, i) (pmem_memcpy L Loc_f i' [l'] PMEM_TRANSFER)" by (simp add: untouched_memcpy[OF assms(1)])
    then show ?thesis using run_keeps(2) snoc False unfolding s pm_run_append by (simp add: e)
  qed
qed simp


lemma ex_iss_inv: "commit_inv 2 5 [] ex_iss \<lparr>commit_queue = [], n_tasks = 1000\<rparr>"
  by (simp add: commit_inv_def ex_iss_def durable_def)


end
