(* ===== verification/Insert_Path.thy ===== *)
theory Insert_Path
  imports Soft_Graph Commit_Thread PQ_Table
begin

text \<open>
  The entry points of an insertion in \<^verbatim>\<open>src/update/direct_insert.cpp\<close>: \<^verbatim>\<open>search_phase\<close> takes an id,
  stores the PQ code and selects the neighbours; the insert phase runs at once or, when the machine is not
  saturated, as a task of the thread pool; \<^verbatim>\<open>synchronize_insertions\<close> waits for the pool. The graph search and
  the computation of the PQ code are parameters; the tasks of the pool run one after the other in an
  arbitrary order.
\<close>

datatype SearchMode = BEAM_SEARCH | PAGE_SEARCH | PIPE_SEARCH | CORO_SEARCH | PARA_SEARCH

text \<open>What the closure given to the pool captures.\<close>

record insert_job =
  j_point :: "nat list"
  j_tag :: nat
  j_target_id :: nat
  j_new_nhood :: "nat list"
  j_page_ref :: "nat list"
  j_pq_coords :: "nat list"

record ann_cfg =
  soft :: soft_cfg
  n_chunks :: nat
  num_cpus :: nat
  search_mode :: SearchMode
  has_mem_index :: bool

record ann_index =
  iss :: iss_index
  pq_data :: "nat list"
  insert_pool :: "insert_job list"
  search_thread_count :: nat
  calc_thread_count :: nat
  peak_cpus :: nat

text \<open>
  What the phases depend on: the search functions (mode, number of entry points from the in-memory index), the
  PQ table, the conversion of a vector to \<^verbatim>\<open>float\<close>, the full distance, the threads that hold locks, the random draw.
\<close>

record ann_env =
  do_search :: "SearchMode \<Rightarrow> ann_index \<Rightarrow> nat list \<Rightarrow> nat \<Rightarrow> fl Neighbor list \<times> (nat \<rightharpoonup> nat list) \<times> nat list"
  pq_table :: FixedChunkPQTable
  elem_floats :: "nat list \<Rightarrow> fl list"
  full_dist :: "nat list \<Rightarrow> nat list \<Rightarrow> fl"
  lock_env :: "nat \<Rightarrow> nat \<Rightarrow> nat slt \<Rightarrow> nat slt"
  sampled :: "nat \<Rightarrow> bool"

section \<open>The search phase\<close>

text \<open>\<^verbatim>\<open>while (size < need) resize(1.5 * size)\<close>\<close>

partial_function (option) pq_resize :: "nat \<Rightarrow> nat \<Rightarrow> nat option" where
  "pq_resize need sz = (if sz < need then pq_resize need (3 * sz div 2) else Some sz)"

definition resize_to :: "nat list \<Rightarrow> nat \<Rightarrow> nat list" where
  "resize_to data n = take n data @ replicate (n - length data) 0"

definition store_code :: "nat \<Rightarrow> nat list \<Rightarrow> nat \<Rightarrow> nat list \<Rightarrow> nat list option" where
  "store_code chunks data target_id code =
     (let pq_offset = target_id * chunks
      in case pq_resize (pq_offset + chunks) (length data) of
           None \<Rightarrow> None
         | Some sz \<Rightarrow> Some (patch (resize_to data sz) pq_offset (take chunks code)))"

definition search_phase ::
  "ann_cfg \<Rightarrow> ann_env \<Rightarrow> ann_index \<Rightarrow> nat list \<Rightarrow> (ann_index \<times> nat \<times> nat list \<times> nat list \<times> nat list) run" where
  "search_phase A E ix point =
     (let st = core (iss ix); t = u32 (cur_id (meta st)); code = deflate_vector (pq_table E) (elem_floats E point);
          ix = ix\<lparr>iss := (iss ix)\<lparr>core := st\<lparr>meta := (meta st)\<lparr>cur_id := cur_id (meta st) + 1\<rparr>\<rparr>\<rparr>\<rparr>
      in if length code < n_chunks A then Some (Inl Undefined)
         else case store_code (n_chunks A) (pq_data ix) t code of
           None \<Rightarrow> None
         | Some data \<Rightarrow>
             let ix = ix\<lparr>pq_data := data\<rparr>
             in if search_mode A \<in> {BEAM_SEARCH, PIPE_SEARCH, PARA_SEARCH}
                then let (exp_node_info, coord_map, page_ref) =
                           do_search E (search_mode A) ix point (if has_mem_index A then 10 else 0)
                     in bind_run (prune_neighbors (sprune (soft A)) (full_dist E) coord_map exp_node_info []) (\<lambda>new_nhood.
                          Some (Inr (ix, t, new_nhood, page_ref, code)))
                else Some (Inl Trap))"

section \<open>The insert phase, now or later\<close>

definition run_job :: "ann_cfg \<Rightarrow> ann_env \<Rightarrow> insert_job \<Rightarrow> ann_index \<Rightarrow> (ann_index \<times> pm_event list) run" where
  "run_job A E j ix =
     bind_run (insert_phase_pm (soft A) (lock_env E) (pq_dist_of (pq_table E) (pq_data ix)) (has_mem_index A \<and> sampled E (j_target_id j))
         (core (iss ix)) (j_point j) (j_tag j) (j_target_id j) (j_new_nhood j) (j_page_ref j) (j_pq_coords j)) (\<lambda>(st, evs).
       Some (Inr (ix\<lparr>iss := (iss ix)\<lparr>core := st\<rparr>\<rparr>, evs)))"

definition active_threads :: "ann_index \<Rightarrow> nat" where
  "active_threads ix = search_thread_count ix + insert_thread_count (core (iss ix)) + calc_thread_count ix"

definition should_async :: "ann_cfg \<Rightarrow> ann_index \<Rightarrow> bool" where
  "should_async A ix \<longleftrightarrow> \<not> (active_threads ix \<ge> num_cpus A * 2 \<and> calc_thread_count ix \<le> search_thread_count ix)"

definition async_insert_in_place ::
  "ann_cfg \<Rightarrow> ann_env \<Rightarrow> ann_index \<Rightarrow> nat list \<Rightarrow> nat \<Rightarrow> (ann_index \<times> pm_event list \<times> nat) run" where
  "async_insert_in_place A E ix point tag =
     bind_run (search_phase A E ix point) (\<lambda>(ix, t, new_nhood, page_ref, code).
       let job = \<lparr>j_point = point, j_tag = tag, j_target_id = t, j_new_nhood = new_nhood, j_page_ref = page_ref, j_pq_coords = code\<rparr>;
           ix = (if active_threads ix > peak_cpus ix then ix\<lparr>peak_cpus := active_threads ix\<rparr> else ix)
       in if should_async A ix then Some (Inr (ix\<lparr>insert_pool := insert_pool ix @ [job]\<rparr>, [], t))
          else bind_run (run_job A E job ix) (\<lambda>(ix, evs). Some (Inr (ix, evs, t))))"

definition insert_in_place ::
  "ann_cfg \<Rightarrow> ann_env \<Rightarrow> ann_index \<Rightarrow> nat list \<Rightarrow> nat \<Rightarrow> (ann_index \<times> pm_event list \<times> nat) run" where
  "insert_in_place A E ix point tag =
     bind_run (search_phase A E ix point) (\<lambda>(ix, t, new_nhood, page_ref, code).
       bind_run (run_job A E \<lparr>j_point = point, j_tag = tag, j_target_id = t, j_new_nhood = new_nhood,
           j_page_ref = page_ref, j_pq_coords = code\<rparr> ix) (\<lambda>(ix, evs). Some (Inr (ix, evs, t))))"

text \<open>The pool runs its tasks; \<open>sched k\<close> tells which one comes next.\<close>

definition drop_nth :: "nat \<Rightarrow> 'a list \<Rightarrow> 'a list" where
  "drop_nth i xs = take i xs @ drop (Suc i) xs"

fun wait_pool :: "ann_cfg \<Rightarrow> ann_env \<Rightarrow> (nat \<Rightarrow> nat) \<Rightarrow> nat \<Rightarrow> ann_index \<Rightarrow> (ann_index \<times> pm_event list) run" where
  "wait_pool A E sched 0 ix = Some (Inr (ix, []))"
| "wait_pool A E sched (Suc k) ix =
     (let i = sched k mod Suc k; job = insert_pool ix ! i
      in bind_run (run_job A E job (ix\<lparr>insert_pool := drop_nth i (insert_pool ix)\<rparr>)) (\<lambda>(ix, evs).
         bind_run (wait_pool A E sched k ix) (\<lambda>(ix, evs'). Some (Inr (ix, evs @ evs')))))"

definition synchronize_insertions ::
  "ann_cfg \<Rightarrow> ann_env \<Rightarrow> (nat \<Rightarrow> nat) \<Rightarrow> ann_index \<Rightarrow> (ann_index \<times> pm_event list) run" where
  "synchronize_insertions A E sched ix = wait_pool A E sched (length (insert_pool ix)) ix"

text \<open>\<^verbatim>\<open>~DynamicSSDIndex\<close>: wait for the pool, send the sentinel, join the commit thread.\<close>

definition close_index ::
  "ann_cfg \<Rightarrow> ann_env \<Rightarrow> (nat \<Rightarrow> nat) \<Rightarrow> (nat \<Rightarrow> bool) \<Rightarrow> ann_index \<Rightarrow> commit_state \<Rightarrow> ann_index run" where
  "close_index A E sched elapsed ix cs =
     bind_run (synchronize_insertions A E sched ix) (\<lambda>(ix, _).
       let final_task = \<lparr>ct_pq_coords = [], ct_target_id = 0, ct_terminate = True, ct_point = None\<rparr>;
           st = core (iss ix); st = st\<lparr>commit_tasks := cq_push (commit_tasks st) (Some final_task)\<rparr>
       in bind_run (insert_commit_thread (spmdk (soft A)) elapsed 0 ((iss ix)\<lparr>core := st\<rparr>) cs) (\<lambda>(is, _).
            Some (Inr (ix\<lparr>iss := is\<rparr>))))"

section \<open>The array of PQ codes\<close>

lemma pq_resize_bound:
  assumes "pq_resize need sz = Some r"
  shows "need \<le> r \<and> sz \<le> r \<and> (sz < 2 \<longrightarrow> need \<le> sz)"
proof (rule pq_resize.raw_induct[OF _ assms, where P = "\<lambda>need sz r. need \<le> r \<and> sz \<le> r \<and> (sz < 2 \<longrightarrow> need \<le> sz)"])
  fix rec :: "nat \<Rightarrow> nat \<Rightarrow> nat option" and need sz r :: nat
  assume hyp: "\<And>need sz r. rec need sz = Some r \<Longrightarrow> need \<le> r \<and> sz \<le> r \<and> (sz < 2 \<longrightarrow> need \<le> sz)"
    and e: "(if sz < need then rec need (3 * sz div 2) else Some sz) = Some r"
  show "need \<le> r \<and> sz \<le> r \<and> (sz < 2 \<longrightarrow> need \<le> sz)"
  proof (cases "sz < need")
    case True
    then have "need \<le> r \<and> 3 * sz div 2 \<le> r \<and> (3 * sz div 2 < 2 \<longrightarrow> need \<le> 3 * sz div 2)" using hyp e by simp
    moreover have "sz \<le> 3 * sz div 2" "sz < 2 \<Longrightarrow> 3 * sz div 2 = sz" by linarith+
    ultimately show ?thesis using True by auto
  qed (use e in auto)
qed

lemma pq_resize_some:
  assumes "2 \<le> sz"
  shows "\<exists>r. pq_resize need sz = Some r"
  using assms
proof (induction "need - sz" arbitrary: sz rule: less_induct)
  case less
  show ?case
  proof (cases "sz < need")
    case True
    have "sz < 3 * sz div 2" using less.prems by linarith
    then have "need - 3 * sz div 2 < need - sz" "2 \<le> 3 * sz div 2" using True less.prems by linarith+
    from less.hyps[OF this] show ?thesis using True by (subst pq_resize.simps) simp
  qed (subst pq_resize.simps, simp)
qed

text \<open>
  C34. The loop that grows the array of PQ codes by half of its size ends exactly when the array is already long
  enough or has at least two elements; then the array has the wanted size.
\<close>

theorem pq_resize_returns:
  "(\<exists>r. pq_resize need sz = Some r \<and> need \<le> r \<and> sz \<le> r) \<longleftrightarrow> need \<le> sz \<or> 2 \<le> sz"
proof
  assume "need \<le> sz \<or> 2 \<le> sz"
  then show "\<exists>r. pq_resize need sz = Some r \<and> need \<le> r \<and> sz \<le> r"
  proof
    assume "need \<le> sz"
    then show ?thesis by (subst pq_resize.simps) simp
  next
    assume "2 \<le> sz"
    then show ?thesis using pq_resize_some[of sz need] pq_resize_bound by blast
  qed
qed (use pq_resize_bound in fastforce)

lemma nth_resize_to: "i < length data \<Longrightarrow> length data \<le> n \<Longrightarrow> resize_to data n ! i = data ! i"
  by (simp add: resize_to_def nth_append)

lemma store_code_ok:
  assumes "2 \<le> length data" "chunks \<le> length code"
  shows "\<exists>data'. store_code chunks data t code = Some data' \<and> length data \<le> length data' \<and> t * chunks + chunks \<le> length data'
    \<and> (\<forall>k < chunks. data' ! (t * chunks + k) = code ! k)
    \<and> (\<forall>i < length data. (i < t * chunks \<or> t * chunks + chunks \<le> i) \<longrightarrow> data' ! i = data ! i)"
proof -
  let ?o = "t * chunks"
  obtain r where r: "pq_resize (?o + chunks) (length data) = Some r" "?o + chunks \<le> r" "length data \<le> r"
    using pq_resize_some[OF assms(1)] pq_resize_bound by metis
  let ?d = "resize_to data r"
  have l: "length ?d = r" using r(3) by (simp add: resize_to_def)
  have f: "?o + length (take chunks code) \<le> length ?d" using r(2) assms(2) l by simp
  let ?p = "patch ?d ?o (take chunks code)"
  have "?p ! (?o + k) = code ! k" if "k < chunks" for k
    using that f assms(2) by (simp add: patch_def nth_append)
  moreover have "?p ! i = data ! i" if "i < length data" "i < ?o \<or> ?o + chunks \<le> i" for i
    using nth_patch[OF f, of i] that assms(2) nth_resize_to[OF that(1) r(3)] by auto
  moreover have "store_code chunks data t code = Some ?p" by (simp add: store_code_def r(1) Let_def)
  ultimately show ?thesis using length_patch[OF f] l r(2,3) by auto
qed

section \<open>The invariant of the running index\<close>

text \<open>What the code relies on from the search functions and the PQ encoder.\<close>

definition env_ok :: "ann_cfg \<Rightarrow> ann_env \<Rightarrow> bool" where
  "env_ok A E \<longleftrightarrow>
     (\<forall>mode ix point l cands cm refs. do_search E mode ix point l = (cands, cm, refs) \<longrightarrow>
        distinct (map nid cands) \<and> (\<forall>q\<in>set cands. cm (nid q) \<noteq> None)
        \<and> nid ` set cands \<subseteq> dom (id2loc_map (meta (core (iss ix)))) \<and> (\<forall>p\<in>set refs. p < 2 ^ 32))
     \<and> pq_nchunks (pq_table E) = n_chunks A"

definition ann_cfg_ok :: "ann_cfg \<Rightarrow> bool" where
  "ann_cfg_ok A \<longleftrightarrow> cfg_ok (soft A) \<and> (\<exists>a. alpha (sprune (soft A)) = Fin a \<and> 1 \<le> a)
     \<and> 0 < prange (sprune (soft A)) \<and> prange (sprune (soft A)) < MAX_N_EDGES \<and> 0 < maxc (sprune (soft A))
     \<and> search_mode A \<in> {BEAM_SEARCH, PIPE_SEARCH, PARA_SEARCH}"

definition code_at :: "nat \<Rightarrow> nat list \<Rightarrow> nat \<times> nat list \<Rightarrow> bool" where
  "code_at n data tp \<longleftrightarrow> (case tp of (t, pq) \<Rightarrow> length pq = n \<and> t * n + n \<le> length data \<and> (\<forall>k < n. data ! (t * n + k) = pq ! k))"

definition job_ok :: "ann_cfg \<Rightarrow> meta_state \<Rightarrow> insert_job \<Rightarrow> bool" where
  "job_ok A m j \<longleftrightarrow> distinct (j_new_nhood j) \<and> set (j_new_nhood j) \<subseteq> dom (id2loc_map m) \<and> j_target_id j \<notin> dom (id2loc_map m)
     \<and> length (j_point j) = coords_len (sgeom (soft A)) \<and> length (j_new_nhood j) \<le> prange (sprune (soft A))
     \<and> (\<forall>p\<in>set (j_page_ref j). p < 2 ^ 32)"

text \<open>An upper bound for the locations that the phases of the pool can take.\<close>

definition job_space :: "ann_cfg \<Rightarrow> nat" where
  "job_space A = prange (sprune (soft A)) + 1 + nnodes_per_sector (sgeom (soft A))"

definition space_left :: "ann_cfg \<Rightarrow> ann_index \<Rightarrow> nat \<Rightarrow> bool" where
  "space_left A ix k \<longleftrightarrow> cur_loc (alloc (meta (core (iss ix)))) + (length (insert_pool ix) + k) * job_space A \<le> kInvalidID"

abbreviation job_code :: "insert_job \<Rightarrow> nat \<times> nat list" where
  "job_code j \<equiv> (j_target_id j, j_pq_coords j)"

text \<open>
  Every id from \<open>c0\<close> on that was given out belongs to exactly one task of the pool, one task of the commit
  queue, or one committed insertion.
\<close>

definition ann_inv :: "ann_cfg \<Rightarrow> nat \<Rightarrow> CommitTask list \<Rightarrow> (nat \<times> nat list) list \<Rightarrow> ann_index \<Rightarrow> commit_state \<Rightarrow> bool" where
  "ann_inv A c0 ts committed ix cs \<longleftrightarrow>
     (let st = core (iss ix); m = meta st
      in graph_inv (soft A) m (mem st) \<and> (\<forall>j\<in>set (insert_pool ix). job_ok A m j)
         \<and> (\<forall>k. vec_locks st k = None) \<and> (\<forall>p. page_locks st p = None)
         \<and> dom (id2loc_map m) \<subseteq> {..<cur_id m} \<and> c0 \<le> cur_id m \<and> cur_id m \<le> kAllocatedID
         \<and> mset (map j_target_id (insert_pool ix) @ map ct_target_id ts @ map fst committed) = mset [c0..<cur_id m]
         \<and> (\<forall>tp\<in>set (map job_code (insert_pool ix) @ map code_of ts @ committed). code_at (n_chunks A) (pq_data ix) tp)
         \<and> cq_items (commit_tasks st) = map Some ts \<and> (\<forall>task\<in>set ts. \<not> ct_terminate task)
         \<and> 2 \<le> length (pq_data ix)
         \<and> commit_inv (n_chunks A) c0 committed (iss ix) cs
         \<and> set (map ct_target_id ts @ map fst committed) \<subseteq> dom (id2loc_map m))"

lemma ann_invD:
  assumes "ann_inv A c0 ts committed ix cs"
  shows "graph_inv (soft A) (meta (core (iss ix))) (mem (core (iss ix)))"
    and "\<forall>j\<in>set (insert_pool ix). job_ok A (meta (core (iss ix))) j"
    and "\<forall>k. vec_locks (core (iss ix)) k = None" "\<forall>p. page_locks (core (iss ix)) p = None"
    and "dom (id2loc_map (meta (core (iss ix)))) \<subseteq> {..<cur_id (meta (core (iss ix)))}"
    and "c0 \<le> cur_id (meta (core (iss ix)))" "cur_id (meta (core (iss ix))) \<le> kAllocatedID"
    and "mset (map j_target_id (insert_pool ix) @ map ct_target_id ts @ map fst committed) = mset [c0..<cur_id (meta (core (iss ix)))]"
    and "\<forall>tp\<in>set (map job_code (insert_pool ix) @ map code_of ts @ committed). code_at (n_chunks A) (pq_data ix) tp"
    and "cq_items (commit_tasks (core (iss ix))) = map Some ts" "\<forall>task\<in>set ts. \<not> ct_terminate task"
    and "2 \<le> length (pq_data ix)" "commit_inv (n_chunks A) c0 committed (iss ix) cs"
    and "set (map ct_target_id ts @ map fst committed) \<subseteq> dom (id2loc_map (meta (core (iss ix))))"
  using assms unfolding ann_inv_def Let_def by blast+

lemma ann_inv_ids:
  assumes "ann_inv A c0 ts committed ix cs"
  shows "distinct (map j_target_id (insert_pool ix) @ map ct_target_id ts @ map fst committed)"
    and "set (map j_target_id (insert_pool ix) @ map ct_target_id ts @ map fst committed) = {c0..<cur_id (meta (core (iss ix)))}"
proof -
  note m = ann_invD(8)[OF assms]
  show "distinct (map j_target_id (insert_pool ix) @ map ct_target_id ts @ map fst committed)"
    using mset_eq_imp_distinct_iff[OF m] by simp
  show "set (map j_target_id (insert_pool ix) @ map ct_target_id ts @ map fst committed) = {c0..<cur_id (meta (core (iss ix)))}"
    using mset_eq_setD[OF m] by simp
qed

lemma soft_events_files:
  assumes C: "cfg_ok C" and ver: "new_versions C pq_dist m pm t new_nhood cs ns nh"
    and ls: "length locs = Suc (length new_nhood)" "distinct locs"
    and pt: "length point = coords_len (sgeom C)" "length new_nhood \<le> prange (sprune C)"
    and c: "fst c = PQ_f \<or> fst c = Super_f"
  shows "untouched c (soft_events C t tag point new_nhood locs cs nh)"
proof -
  have pk: "pmdk_ok (spmdk C)" using C by (simp add: cfg_ok_def)
  have W: "fit_nodes (sgeom C) (nbr_nodes new_nhood locs cs nh)" by (rule nbr_nodes_ok[OF C ver ls])
  have T: "fit_nodes (sgeom C) [(locs ! length new_nhood, point, new_nhood)]" using pt node_bytes_fit[OF C pt] by (simp add: fit_nodes_def)
  have "fst c \<noteq> Graph_f" "fst c \<noteq> Loc_f" "fst c \<noteq> Tag_f" using c by auto
  then show ?thesis
    using stores_of_other_file[OF pk W] stores_of_other_file[OF pk T] publish_events_graph[OF pk]
    by (simp add: soft_events_stores Let_def target_events_def untouched_memcpy[OF pk])
qed

lemma commit_inv_keeps:
  assumes "commit_inv n c0 committed is cs" "\<And>c. fst c = PQ_f \<or> fst c = Super_f \<Longrightarrow> untouched c evs" "mem st = pm_run evs (mem (core is))"
  shows "commit_inv n c0 committed (is\<lparr>core := st\<rparr>) cs"
proof -
  have "pq_durable (mem st) t pq" if "pq_durable (mem (core is)) t pq" for t pq
    using that assms(3) run_keeps(3)[OF assms(2)] by (auto simp: pq_durable_def)
  moreover have "durable (mem st) (Super_f, 0) v" if "durable (mem (core is)) (Super_f, 0) v" for v
    using that assms(3) run_keeps(3)[OF assms(2)] by simp
  ultimately show ?thesis using assms(1) by (fastforce simp: commit_inv_def)
qed

lemma drop_nth_mset: "i < length xs \<Longrightarrow> mset xs = add_mset (xs ! i) (mset (drop_nth i xs))"
  by (metis drop_nth_def id_take_nth_drop mset_append mset.simps(2) union_mset_add_mset_right)

lemma drop_nth_length: "i < length xs \<Longrightarrow> length (drop_nth i xs) = length xs - 1"
  by (simp add: drop_nth_def)

lemma drop_nth_set: "i < length xs \<Longrightarrow> set xs = insert (xs ! i) (set (drop_nth i xs))"
  using drop_nth_mset[of i xs] by (metis set_mset_add_mset_insert set_mset_mset)

abbreviation job_task :: "ann_cfg \<Rightarrow> ann_env \<Rightarrow> insert_job \<Rightarrow> CommitTask" where
  "job_task A E j \<equiv> \<lparr>ct_pq_coords = j_pq_coords j, ct_target_id = j_target_id j, ct_terminate = False,
     ct_point = if has_mem_index A \<and> sampled E (j_target_id j) then Some (j_point j) else None\<rparr>"

lemma job_ready:
  assumes A: "ann_cfg_ok A" and inv: "ann_inv A c0 ts committed ix cs" and sp: "space_left A ix 0" and j: "j \<in> set (insert_pool ix)"
  shows "insert_ready (soft A) (core (iss ix)) (j_point j) (j_target_id j) (j_new_nhood j) (j_page_ref j)"
proof -
  let ?g = "sgeom (soft A)" and ?st = "core (iss ix)"
  have ok: "job_ok A (meta ?st) j" using ann_invD(2)[OF inv] j by blast
  have len: "length (j_new_nhood j) \<le> prange (sprune (soft A))" using ok by (simp add: job_ok_def)
  have "j_target_id j \<in> {c0..<cur_id (meta ?st)}" using ann_inv_ids(2)[OF inv] j by auto
  then have t: "j_target_id j < kAllocatedID" using ann_invD(7)[OF inv] by simp
  have "job_space A \<le> length (insert_pool ix) * job_space A" using j by (cases "insert_pool ix") auto
  then have "cur_loc (alloc (meta ?st)) + job_space A \<le> kInvalidID"
    using sp unfolding space_left_def add_0_right by linarith
  then have "cur_loc (alloc (meta ?st)) + (length (j_new_nhood j) + 1) + nnodes_per_sector ?g \<le> kInvalidID"
    using len by (simp add: job_space_def)
  then show ?thesis using ok t len A ann_invD(3,4)[OF inv] unfolding insert_ready_def job_ok_def ann_cfg_ok_def by auto
qed

lemma run_job_ok:
  assumes A: "ann_cfg_ok A" and inv: "ann_inv A c0 ts committed ix cs" and sp: "space_left A ix k" and i: "i < length (insert_pool ix)"
  shows "\<exists>ix' evs. run_job A E (insert_pool ix ! i) (ix\<lparr>insert_pool := drop_nth i (insert_pool ix)\<rparr>) = Some (Inr (ix', evs))
    \<and> ann_inv A c0 (ts @ [job_task A E (insert_pool ix ! i)]) committed ix' cs \<and> space_left A ix' k
    \<and> insert_pool ix' = drop_nth i (insert_pool ix) \<and> pq_data ix' = pq_data ix \<and> ckpt_id (iss ix') = ckpt_id (iss ix)
    \<and> cur_id (meta (core (iss ix'))) = cur_id (meta (core (iss ix)))
    \<and> mem (core (iss ix')) = pm_run evs (mem (core (iss ix)))
    \<and> (\<forall>c. fst c = PQ_f \<or> fst c = Super_f \<longrightarrow> untouched c evs)"
proof -
  let ?j = "insert_pool ix ! i" and ?st = "core (iss ix)" and ?m = "meta (core (iss ix))" and ?P = "drop_nth i (insert_pool ix)"
  have j: "?j \<in> set (insert_pool ix)" using i by simp
  have C: "cfg_ok (soft A)" using A by (simp add: ann_cfg_ok_def)
  have "space_left A ix 0" using sp by (simp add: space_left_def) (meson add_le_mono1 le_add1 le_trans mult_le_mono1 add_left_mono)
  note rdy = job_ready[OF A inv this j]
  note gi = ann_invD(1)[OF inv]
  let ?pqd = "pq_dist_of (pq_table E) (pq_data ix)" and ?smp = "has_mem_index A \<and> sampled E (j_target_id ?j)"
  obtain st' locs ncs ns nh where r: "insert_phase_pm (soft A) (lock_env E) ?pqd ?smp ?st (j_point ?j) (j_tag ?j) (j_target_id ?j)
        (j_new_nhood ?j) (j_page_ref ?j) (j_pq_coords ?j) = Some (Inr (st', soft_events (soft A) (j_target_id ?j) (j_tag ?j) (j_point ?j) (j_new_nhood ?j) locs ncs nh))"
    and mem: "mem st' = pm_run (soft_events (soft A) (j_target_id ?j) (j_tag ?j) (j_point ?j) (j_new_nhood ?j) locs ncs nh) (mem ?st)"
    and ver: "new_versions (soft A) ?pqd ?m (mem ?st) (j_target_id ?j) (j_new_nhood ?j) ncs ns nh"
    and ls: "length locs = Suc (length (j_new_nhood ?j))" "distinct locs"
    and lk: "vec_locks st' = vec_locks ?st" "page_locks st' = page_locks ?st"
    and ct: "commit_tasks st' = cq_push (commit_tasks ?st) (Some (job_task A E ?j))"
    and cl: "cur_loc (alloc (meta st')) < cur_loc (alloc ?m) + (length (j_new_nhood ?j) + 1) + nnodes_per_sector (sgeom (soft A))"
    and ci: "cur_id (meta st') = cur_id ?m"
    using insert_phase_pm_run[OF C gi rdy, of "lock_env E" ?pqd ?smp "j_tag ?j" "j_pq_coords ?j"] by blast
  have g': "graph_inv (soft A) (meta st') (mem st')" and dom: "dom (id2loc_map (meta st')) = insert (j_target_id ?j) (dom (id2loc_map ?m))"
    using insert_phase_pm_ok[OF C gi rdy, of "lock_env E" ?pqd ?smp "j_tag ?j" "j_pq_coords ?j"] unfolding r by auto
  have pt: "length (j_point ?j) = coords_len (sgeom (soft A))" "length (j_new_nhood ?j) \<le> prange (sprune (soft A))"
    using rdy by (simp_all add: insert_ready_def)
  note un = soft_events_files[OF C ver ls pt, of _ "j_tag ?j"]
  let ?ix = "ix\<lparr>insert_pool := ?P, iss := (iss ix)\<lparr>core := st'\<rparr>\<rparr>"
  have run: "run_job A E ?j (ix\<lparr>insert_pool := ?P\<rparr>) = Some (Inr (?ix, soft_events (soft A) (j_target_id ?j) (j_tag ?j) (j_point ?j) (j_new_nhood ?j) locs ncs nh))"
    by (simp add: run_job_def r)
  have ids: "j_target_id ?j \<notin> j_target_id ` set ?P"
    using ann_inv_ids(1)[OF inv] drop_nth_mset[OF i, THEN arg_cong[where f = "image_mset j_target_id"]]
    by (metis (no_types) distinct_append distinct.simps(2) image_set mset_eq_imp_distinct_iff mset_map mset.simps(2) image_mset_add_mset)
  have sel: "core (iss ?ix) = st'" "insert_pool ?ix = ?P" "pq_data ?ix = pq_data ix" "iss ?ix = (iss ix)\<lparr>core := st'\<rparr>"
    "core ((iss ix)\<lparr>core := st'\<rparr>) = st'" by simp_all
  have "ann_inv A c0 (ts @ [job_task A E ?j]) committed ?ix cs"
    unfolding ann_inv_def Let_def sel
  proof (intro conjI)
    show "graph_inv (soft A) (meta st') (mem st')" by (rule g')
    show "\<forall>j\<in>set ?P. job_ok A (meta st') j"
    proof
      fix j assume "j \<in> set ?P"
      then have "job_ok A ?m j" "j_target_id j \<noteq> j_target_id ?j" using ann_invD(2)[OF inv] ids drop_nth_set[OF i] by (blast, metis imageI)
      then show "job_ok A (meta st') j" unfolding job_ok_def dom by blast
    qed
    show "\<forall>k. vec_locks st' k = None" "\<forall>p. page_locks st' p = None" using ann_invD(3,4)[OF inv] lk by simp_all
    show "dom (id2loc_map (meta st')) \<subseteq> {..<cur_id (meta st')}"
      using ann_invD(5)[OF inv] ann_inv_ids(2)[OF inv] j unfolding dom ci by force
    show "c0 \<le> cur_id (meta st')" "cur_id (meta st') \<le> kAllocatedID" using ann_invD(6,7)[OF inv] ci by simp_all
    show "mset (map j_target_id ?P @ map ct_target_id (ts @ [job_task A E ?j]) @ map fst committed) = mset [c0..<cur_id (meta st')]"
      using ann_invD(8)[OF inv] drop_nth_mset[OF i] unfolding ci by simp
    show "\<forall>tp\<in>set (map job_code ?P @ map code_of (ts @ [job_task A E ?j]) @ committed). code_at (n_chunks A) (pq_data ix) tp"
      using ann_invD(9)[OF inv] drop_nth_set[OF i] j by auto
    show "cq_items (commit_tasks st') = map Some (ts @ [job_task A E ?j])" using ann_invD(10)[OF inv] ct by simp
    show "\<forall>task\<in>set (ts @ [job_task A E ?j]). \<not> ct_terminate task" using ann_invD(11)[OF inv] by simp
    show "2 \<le> length (pq_data ix)" by (rule ann_invD(12)[OF inv])
    show "commit_inv (n_chunks A) c0 committed ((iss ix)\<lparr>core := st'\<rparr>) cs"
      by (rule commit_inv_keeps[OF ann_invD(13)[OF inv] un mem])
    show "set (map ct_target_id (ts @ [job_task A E ?j]) @ map fst committed) \<subseteq> dom (id2loc_map (meta st'))"
      using ann_invD(14)[OF inv] unfolding dom by auto
  qed
  moreover have "space_left A ?ix k"
    using sp cl pt(2) i drop_nth_length[OF i] unfolding space_left_def job_space_def
    by (cases "insert_pool ix") (auto simp: algebra_simps)
  ultimately show ?thesis using run mem ci un by (intro exI[of _ ?ix] exI conjI) auto
qed

lemma env_okD:
  assumes "env_ok A E" "do_search E mode ix point l = (cands, cm, refs)"
  shows "distinct (map nid cands)" "\<forall>q\<in>set cands. cm (nid q) \<noteq> None"
    "nid ` set cands \<subseteq> dom (id2loc_map (meta (core (iss ix))))" "\<forall>p\<in>set refs. p < 2 ^ 32"
  using assms unfolding env_ok_def by blast+

lemma select_neighbours:
  assumes A: "ann_cfg_ok A" and "distinct (map nid cands)" "\<forall>q\<in>set cands. cm (nid q) \<noteq> None"
  obtains nh where "prune_neighbors (sprune (soft A)) dist_fn cm cands [] = Some (Inr nh)" "distinct nh"
    "length nh \<le> prange (sprune (soft A))" "set nh \<subseteq> nid ` set cands"
proof (cases "cands = []")
  case True
  then show thesis using that[of "[]"] by (simp add: prune_neighbors_def)
next
  case False
  obtain a where "alpha (sprune (soft A)) = Fin a" "1 \<le> a" "0 < prange (sprune (soft A))" "0 < maxc (sprune (soft A))"
    using A by (auto simp: ann_cfg_ok_def)
  from prune_neighbors_ok[OF this False assms(2,3), of dist_fn "[]"] show thesis using that by blast
qed

lemma code_at_store:
  assumes "code_at n data tp" "length data \<le> length data'" "fst tp < t"
    and "\<forall>i < length data. (i < t * n \<or> t * n + n \<le> i) \<longrightarrow> data' ! i = data ! i"
  shows "code_at n data' tp"
proof -
  obtain u pq where tp: "tp = (u, pq)" by (cases tp)
  have "u * n + n \<le> t * n" using mult_le_mono1[OF Suc_leI[OF assms(3)], of n] by (simp add: tp)
  then have "data' ! (u * n + k) = data ! (u * n + k)" if "k < n" for k
    using that assms(1,4) by (simp add: code_at_def tp)
  then show ?thesis using assms(1,2) by (simp add: code_at_def tp)
qed

text \<open>The search phase leaves a job that the pool can run.\<close>

lemma search_phase_ok:
  assumes A: "ann_cfg_ok A" and E: "env_ok A E" and inv: "ann_inv A c0 ts committed ix cs"
    and t: "cur_id (meta (core (iss ix))) < kAllocatedID" and pt: "length point = coords_len (sgeom (soft A))"
  shows "\<exists>data nh refs. search_phase A E ix point = Some (Inr (ix\<lparr>iss := (iss ix)\<lparr>core := (core (iss ix))\<lparr>meta := (meta (core (iss ix)))
          \<lparr>cur_id := cur_id (meta (core (iss ix))) + 1\<rparr>\<rparr>\<rparr>, pq_data := data\<rparr>, cur_id (meta (core (iss ix))), nh, refs, deflate_vector (pq_table E) (elem_floats E point)))
    \<and> ann_inv A c0 ts committed (ix\<lparr>iss := (iss ix)\<lparr>core := (core (iss ix))\<lparr>meta := (meta (core (iss ix)))
          \<lparr>cur_id := cur_id (meta (core (iss ix))) + 1\<rparr>\<rparr>\<rparr>, pq_data := data, insert_pool := insert_pool ix @ [\<lparr>j_point = point, j_tag = tag, j_target_id = cur_id (meta (core (iss ix))),
          j_new_nhood = nh, j_page_ref = refs, j_pq_coords = deflate_vector (pq_table E) (elem_floats E point)\<rparr>]\<rparr>) cs"
proof -
  let ?st = "core (iss ix)" and ?m = "meta (core (iss ix))" and ?n = "n_chunks A"
  let ?t = "cur_id ?m" and ?code = "deflate_vector (pq_table E) (elem_floats E point)"
  have u: "u32 ?t = ?t" using t by (intro u32_small) (simp add: kAllocatedID_def)
  have lc: "length ?code = ?n" using E by (simp add: env_ok_def length_deflate_vector)
  obtain data where d: "store_code ?n (pq_data ix) ?t ?code = Some data" "length (pq_data ix) \<le> length data" "?t * ?n + ?n \<le> length data"
    "\<forall>k < ?n. data ! (?t * ?n + k) = ?code ! k"
    "\<forall>i < length (pq_data ix). (i < ?t * ?n \<or> ?t * ?n + ?n \<le> i) \<longrightarrow> data ! i = pq_data ix ! i"
    using store_code_ok[OF ann_invD(12)[OF inv], of ?n ?code ?t] lc by auto
  let ?is = "(iss ix)\<lparr>core := ?st\<lparr>meta := ?m\<lparr>cur_id := ?t + 1\<rparr>\<rparr>\<rparr>"
  let ?ix = "ix\<lparr>iss := ?is, pq_data := data\<rparr>"
  obtain cands cm refs where s: "do_search E (search_mode A) ?ix point (if has_mem_index A then 10 else 0) = (cands, cm, refs)"
    by (metis prod_cases3)
  have dm: "id2loc_map (meta (core (iss ?ix))) = id2loc_map ?m" by simp
  note c = env_okD[OF E s, unfolded dm]
  obtain nh where nh: "prune_neighbors (sprune (soft A)) (full_dist E) cm cands [] = Some (Inr nh)" "distinct nh"
    "length nh \<le> prange (sprune (soft A))" "set nh \<subseteq> nid ` set cands" using select_neighbours[OF A c(1,2)] by blast
  have "search_mode A \<in> {BEAM_SEARCH, PIPE_SEARCH, PARA_SEARCH}" using A by (simp add: ann_cfg_ok_def)
  then have run: "search_phase A E ix point = Some (Inr (?ix, ?t, nh, refs, ?code))"
    using s by (simp add: search_phase_def u lc d(1) Let_def nh(1))
  let ?job = "\<lparr>j_point = point, j_tag = tag, j_target_id = ?t, j_new_nhood = nh, j_page_ref = refs, j_pq_coords = ?code\<rparr>"
  have code: "code_at ?n data tp" if tp: "tp \<in> set (map job_code (insert_pool ix) @ map code_of ts @ committed)" for tp
  proof -
    have "fst tp \<in> {c0..<?t}" using tp unfolding ann_inv_ids(2)[OF inv, symmetric] by force
    then show ?thesis using code_at_store[OF _ d(2) _ d(5)] ann_invD(9)[OF inv] tp by auto
  qed
  have new: "code_at ?n data (?t, ?code)" using d(3,4) lc by (simp add: code_at_def)
  have gi: "graph_inv (soft A) (?m\<lparr>cur_id := ?t + 1\<rparr>) (mem ?st)" using ann_invD(1)[OF inv] by (simp add: graph_inv_def map_inv_def)
  have ci: "commit_inv ?n c0 committed ?is cs" using ann_invD(13)[OF inv] by (simp add: commit_inv_def)
  have "set nh \<subseteq> dom (id2loc_map ?m)" "?t \<notin> dom (id2loc_map ?m)" using nh(4) c(3) ann_invD(5)[OF inv] by blast+
  then have jo: "job_ok A (?m\<lparr>cur_id := ?t + 1\<rparr>) ?job" using nh(2,3) c(4) pt by (simp add: job_ok_def)
  have jold: "\<forall>j\<in>set (insert_pool ix). job_ok A (?m\<lparr>cur_id := ?t + 1\<rparr>) j" using ann_invD(2)[OF inv] by (simp add: job_ok_def)
  have dom: "dom (id2loc_map ?m) \<subseteq> {..<Suc ?t}" using ann_invD(5)[OF inv] by auto
  have ms: "mset (map j_target_id (insert_pool ix @ [?job]) @ map ct_target_id ts @ map fst committed) = mset [c0..<Suc ?t]"
    using ann_invD(6,8)[OF inv] by (simp del: mset_upt)
  let ?jx = "?ix\<lparr>insert_pool := insert_pool ix @ [?job]\<rparr>"
  have sel: "iss ?jx = ?is" "insert_pool ?jx = insert_pool ix @ [?job]" "pq_data ?jx = data" "core ?is = ?st\<lparr>meta := ?m\<lparr>cur_id := ?t + 1\<rparr>\<rparr>" by simp_all
  have "ann_inv A c0 ts committed ?jx cs"
    unfolding ann_inv_def Let_def sel
  proof (intro conjI)
    show "\<forall>tp\<in>set (map job_code (insert_pool ix @ [?job]) @ map code_of ts @ committed). code_at ?n data tp" using code new by auto
  qed (use ann_invD(3,4,6,10-12,14)[OF inv] t gi ci jo jold dom d(2) ms in auto)
  then show ?thesis using run by (intro exI[of _ data] exI[of _ nh] exI[of _ refs] conjI) simp_all
qed

section \<open>Asynchronous insertion and closing\<close>

lemma space_left_more: "space_left A ix k \<Longrightarrow> l \<le> k \<Longrightarrow> space_left A ix l"
  unfolding space_left_def by (meson add_left_mono le_trans mult_le_mono1)

text \<open>An insertion appends its job to the pool, and in the synchronous case runs it at once.\<close>

lemma async_insert_cases:
  assumes A: "ann_cfg_ok A" and E: "env_ok A E" and inv: "ann_inv A c0 ts committed ix cs" and sp: "space_left A ix (Suc k)"
    and t: "cur_id (meta (core (iss ix))) < kAllocatedID" and pt: "length point = coords_len (sgeom (soft A))"
  obtains ix2 job b where "insert_pool ix2 = insert_pool ix @ [job]" "j_point job = point" "j_tag job = tag" "j_target_id job = cur_id (meta (core (iss ix)))"
    and "iss ix2 = (iss ix)\<lparr>core := (core (iss ix))\<lparr>meta := (meta (core (iss ix)))\<lparr>cur_id := cur_id (meta (core (iss ix))) + 1\<rparr>\<rparr>\<rparr>"
    and "ann_inv A c0 ts committed ix2 cs" "space_left A ix2 k"
    and "async_insert_in_place A E ix point tag = (if b then Some (Inr (ix2, [], cur_id (meta (core (iss ix)))))
      else bind_run (run_job A E job (ix2\<lparr>insert_pool := drop_nth (length (insert_pool ix)) (insert_pool ix2)\<rparr>))
        (\<lambda>(ix', evs). Some (Inr (ix', evs, cur_id (meta (core (iss ix)))))))"
proof -
  let ?st = "core (iss ix)" and ?m = "meta (core (iss ix))"
  let ?t = "cur_id ?m" and ?code = "deflate_vector (pq_table E) (elem_floats E point)"
  obtain data nh refs where run: "search_phase A E ix point = Some (Inr (ix\<lparr>iss := (iss ix)\<lparr>core := ?st\<lparr>meta := ?m\<lparr>cur_id := ?t + 1\<rparr>\<rparr>\<rparr>,
        pq_data := data\<rparr>, ?t, nh, refs, ?code))"
    and inv': "ann_inv A c0 ts committed (ix\<lparr>iss := (iss ix)\<lparr>core := ?st\<lparr>meta := ?m\<lparr>cur_id := ?t + 1\<rparr>\<rparr>\<rparr>, pq_data := data,
        insert_pool := insert_pool ix @ [\<lparr>j_point = point, j_tag = tag, j_target_id = ?t, j_new_nhood = nh, j_page_ref = refs, j_pq_coords = ?code\<rparr>]\<rparr>) cs"
    using search_phase_ok[OF A E inv t pt, of tag] by blast
  let ?job = "\<lparr>j_point = point, j_tag = tag, j_target_id = ?t, j_new_nhood = nh, j_page_ref = refs, j_pq_coords = ?code\<rparr>"
  let ?ix = "ix\<lparr>iss := (iss ix)\<lparr>core := ?st\<lparr>meta := ?m\<lparr>cur_id := ?t + 1\<rparr>\<rparr>\<rparr>, pq_data := data\<rparr>"
  define ix1 where "ix1 = (if active_threads ?ix > peak_cpus ?ix then ?ix\<lparr>peak_cpus := active_threads ?ix\<rparr> else ?ix)"
  have sel: "iss ix1 = (iss ix)\<lparr>core := ?st\<lparr>meta := ?m\<lparr>cur_id := ?t + 1\<rparr>\<rparr>\<rparr>" "insert_pool ix1 = insert_pool ix" "pq_data ix1 = data"
    by (simp_all add: ix1_def)
  define ix2 where "ix2 = ix1\<lparr>insert_pool := insert_pool ix1 @ [?job]\<rparr>"
  have inv2: "ann_inv A c0 ts committed ix2 cs" using inv' by (simp add: ann_inv_def sel ix2_def)
  have sp2: "space_left A ix2 k" using sp by (simp add: space_left_def sel ix2_def)
  have ix1: "ix2\<lparr>insert_pool := drop_nth (length (insert_pool ix)) (insert_pool ix2)\<rparr> = ix1"
    by (simp add: ix2_def sel drop_nth_def)
  have "async_insert_in_place A E ix point tag = (if should_async A ix1 then Some (Inr (ix2, [], ?t))
      else bind_run (run_job A E ?job ix1) (\<lambda>(ix, evs). Some (Inr (ix, evs, ?t))))"
    unfolding async_insert_in_place_def run bind_run_simps prod.case Let_def ix1_def[symmetric] ix2_def[symmetric] by (rule refl)
  then show ?thesis using inv2 sp2 unfolding ix1[symmetric] by (intro that[of ix2 ?job]) (simp_all add: ix2_def sel)
qed

lemma async_insert_ok:
  assumes A: "ann_cfg_ok A" and E: "env_ok A E" and inv: "ann_inv A c0 ts committed ix cs" and sp: "space_left A ix (Suc k)"
    and t: "cur_id (meta (core (iss ix))) < kAllocatedID" and pt: "length point = coords_len (sgeom (soft A))"
  shows "\<exists>ix' evs ts'. async_insert_in_place A E ix point tag = Some (Inr (ix', evs, cur_id (meta (core (iss ix)))))
    \<and> ann_inv A c0 ts' committed ix' cs \<and> space_left A ix' k
    \<and> cur_id (meta (core (iss ix'))) = Suc (cur_id (meta (core (iss ix)))) \<and> ckpt_id (iss ix') = ckpt_id (iss ix)
    \<and> mem (core (iss ix')) = pm_run evs (mem (core (iss ix)))
    \<and> (\<forall>c. fst c = PQ_f \<or> fst c = Super_f \<longrightarrow> untouched c evs)"
proof -
  obtain ix2 job b where p: "insert_pool ix2 = insert_pool ix @ [job]"
    and i2: "iss ix2 = (iss ix)\<lparr>core := (core (iss ix))\<lparr>meta := (meta (core (iss ix)))\<lparr>cur_id := cur_id (meta (core (iss ix))) + 1\<rparr>\<rparr>\<rparr>"
    and inv2: "ann_inv A c0 ts committed ix2 cs" and sp2: "space_left A ix2 k"
    and as: "async_insert_in_place A E ix point tag = (if b then Some (Inr (ix2, [], cur_id (meta (core (iss ix)))))
      else bind_run (run_job A E job (ix2\<lparr>insert_pool := drop_nth (length (insert_pool ix)) (insert_pool ix2)\<rparr>))
        (\<lambda>(ix', evs). Some (Inr (ix', evs, cur_id (meta (core (iss ix)))))))"
    using async_insert_cases[OF A E inv sp t pt, of tag] by metis
  show ?thesis
  proof (cases b)
    case True
    then show ?thesis using as inv2 sp2 by (intro exI[of _ ix2] exI conjI) (auto simp: i2)
  next
    case False
    have l: "length (insert_pool ix) < length (insert_pool ix2)" "insert_pool ix2 ! length (insert_pool ix) = job"
      by (simp_all add: p)
    obtain ix3 evs where r: "run_job A E job (ix2\<lparr>insert_pool := drop_nth (length (insert_pool ix)) (insert_pool ix2)\<rparr>) = Some (Inr (ix3, evs))"
      "ann_inv A c0 (ts @ [job_task A E job]) committed ix3 cs"
      "space_left A ix3 k" "ckpt_id (iss ix3) = ckpt_id (iss ix2)" "cur_id (meta (core (iss ix3))) = cur_id (meta (core (iss ix2)))"
      "mem (core (iss ix3)) = pm_run evs (mem (core (iss ix2)))" "\<forall>c. fst c = PQ_f \<or> fst c = Super_f \<longrightarrow> untouched c evs"
      using run_job_ok[OF A inv2 sp2 l(1), of E] unfolding l(2) by blast
    then show ?thesis using as False by (intro exI[of _ ix3] exI[of _ evs] exI conjI) (auto simp: i2)
  qed
qed

lemma wait_pool_ok:
  assumes A: "ann_cfg_ok A" and "ann_inv A c0 ts committed ix cs" "space_left A ix k" "n = length (insert_pool ix)"
  shows "\<exists>ix' evs ts'. wait_pool A E sched n ix = Some (Inr (ix', evs)) \<and> ann_inv A c0 ts' committed ix' cs
    \<and> insert_pool ix' = [] \<and> cur_id (meta (core (iss ix'))) = cur_id (meta (core (iss ix))) \<and> space_left A ix' k
    \<and> pq_data ix' = pq_data ix \<and> ckpt_id (iss ix') = ckpt_id (iss ix) \<and> mem (core (iss ix')) = pm_run evs (mem (core (iss ix)))
    \<and> (\<forall>c. fst c = PQ_f \<or> fst c = Super_f \<longrightarrow> untouched c evs)"
  using assms(2-)
proof (induction n arbitrary: ix ts)
  case 0
  then show ?case by (intro exI[of _ ix] exI[of _ "[]"] exI[of _ ts]) simp
next
  case (Suc n)
  let ?i = "sched n mod Suc n"
  have i: "?i < length (insert_pool ix)" using Suc.prems(3) by (metis mod_less_divisor zero_less_Suc)
  obtain ix1 evs where r: "run_job A E (insert_pool ix ! ?i) (ix\<lparr>insert_pool := drop_nth ?i (insert_pool ix)\<rparr>) = Some (Inr (ix1, evs))"
    and i1: "ann_inv A c0 (ts @ [job_task A E (insert_pool ix ! ?i)]) committed ix1 cs" "space_left A ix1 k"
    and p: "insert_pool ix1 = drop_nth ?i (insert_pool ix)" "pq_data ix1 = pq_data ix" "ckpt_id (iss ix1) = ckpt_id (iss ix)"
      "cur_id (meta (core (iss ix1))) = cur_id (meta (core (iss ix)))"
      "mem (core (iss ix1)) = pm_run evs (mem (core (iss ix)))" "\<forall>c. fst c = PQ_f \<or> fst c = Super_f \<longrightarrow> untouched c evs"
    using run_job_ok[OF A Suc.prems(1,2) i, of E] by blast
  have "n = length (insert_pool ix1)" using p(1) drop_nth_length[OF i] Suc.prems(3) by simp
  from Suc.IH[OF i1 this] obtain ix2 evs2 ts' where w: "wait_pool A E sched n ix1 = Some (Inr (ix2, evs2))"
    "ann_inv A c0 ts' committed ix2 cs" "insert_pool ix2 = []" "cur_id (meta (core (iss ix2))) = cur_id (meta (core (iss ix1)))"
    "space_left A ix2 k" "pq_data ix2 = pq_data ix1" "ckpt_id (iss ix2) = ckpt_id (iss ix1)"
    "mem (core (iss ix2)) = pm_run evs2 (mem (core (iss ix1)))" "\<forall>c. fst c = PQ_f \<or> fst c = Super_f \<longrightarrow> untouched c evs2" by blast
  have "wait_pool A E sched (Suc n) ix = Some (Inr (ix2, evs @ evs2))" using r w(1) by (simp add: Let_def)
  then show ?case using w(2-) p by (intro exI[of _ ix2] exI[of _ "evs @ evs2"] exI[of _ ts'] conjI) (auto simp: pm_run_append)
qed

definition pop_task :: "iss_index \<Rightarrow> iss_index" where
  "pop_task is = is\<lparr>core := (core is)\<lparr>commit_tasks := (commit_tasks (core is))\<lparr>cq_items := tl (cq_items (commit_tasks (core is)))\<rparr>\<rparr>\<rparr>"

lemma commit_files:
  assumes pk: "pmdk_ok L" and run: "commit_task L el task is cs = (is', cs', evs)" and c: "fst c = Graph_f \<or> fst c = Tag_f"
  shows "untouched c evs"
proof -
  have "fst c \<noteq> PQ_f" "fst c \<noteq> Super_f" "fst c \<noteq> Loc_f" using c by auto
  then show ?thesis using run
    by (auto simp: commit_task_def process_commit_queue_def Let_def untouched_memcpy[OF pk] loc_batch_untouched[OF pk] split: prod.splits if_splits)
qed

lemma commit_step_ok:
  assumes A: "ann_cfg_ok A" and inv: "ann_inv A c0 (task # ts) committed ix cs"
    and run: "commit_task (spmdk (soft A)) el task (pop_task (iss ix)) cs = (is', cs', evs)"
  shows "ann_inv A c0 ts (code_of task # committed) (ix\<lparr>iss := is'\<rparr>) cs'"
    and "crash_image (pm_run (take j evs) (mem (core (iss ix)))) img \<Longrightarrow>
      {c0..<img (Super_f, 0)} \<subseteq> fst ` set (code_of task # committed)
      \<and> (\<forall>(t', pq')\<in>set (code_of task # committed). t' < img (Super_f, 0) \<longrightarrow> (\<forall>k<n_chunks A. img (PQ_f, t' * n_chunks A + k) = pq' ! k))"
proof -
  have pk: "pmdk_ok (spmdk (soft A))" using A by (simp add: ann_cfg_ok_def cfg_ok_def)
  let ?n = "n_chunks A" and ?is = "pop_task (iss ix)"
  have sel: "mem (core ?is) = mem (core (iss ix))" "ckpt_id ?is = ckpt_id (iss ix)" "meta (core ?is) = meta (core (iss ix))"
    "vec_locks (core ?is) = vec_locks (core (iss ix))" "page_locks (core ?is) = page_locks (core (iss ix))"
    "cq_items (commit_tasks (core ?is)) = map Some ts"
    using ann_invD(10)[OF inv] by (simp_all add: pop_task_def)
  have ci: "commit_inv ?n c0 committed ?is cs" using ann_invD(13)[OF inv] by (simp add: commit_inv_def sel)
  have code: "code_at ?n (pq_data ix) (code_of task)" using ann_invD(9)[OF inv] by simp
  have id: "ct_target_id task \<in> {c0..<cur_id (meta (core (iss ix)))}" unfolding ann_inv_ids(2)[OF inv, symmetric] by simp
  have nd: "ct_target_id task \<notin> fst ` set committed" using ann_inv_ids(1)[OF inv] by auto
  have t: "length (ct_pq_coords task) = ?n" "c0 \<le> ct_target_id task" "ct_target_id task < 2 ^ 32 - 1"
    using code id ann_invD(7)[OF inv] by (auto simp: code_at_def kAllocatedID_def)
  have ci': "commit_inv ?n c0 (code_of task # committed) is' cs'" by (rule commit_task_inv[OF pk ci refl refl t nd run])
  note f = commit_task_frame[OF run]
  have "graph_bytes (mem (core is')) = graph_bytes (mem (core (iss ix)))"
    using untouched_visible[OF _ commit_files[OF pk run]] ann_invD(1)[OF inv] by (simp add: f(1) sel graph_inv_def)
  then have gi: "graph_inv (soft A) (meta (core is')) (mem (core is'))"
    using ann_invD(1)[OF inv] f pm_wf_run unfolding graph_inv_def map_inv_def sel by simp
  show "ann_inv A c0 ts (code_of task # committed) (ix\<lparr>iss := is'\<rparr>) cs'"
  proof -
    let ?jx = "ix\<lparr>iss := is'\<rparr>"
    have s: "iss ?jx = is'" "insert_pool ?jx = insert_pool ix" "pq_data ?jx = pq_data ix" by simp_all
    have jo: "job_ok A (meta (core is')) j \<longleftrightarrow> job_ok A (meta (core (iss ix))) j" for j by (simp add: job_ok_def f sel)
    show ?thesis
      unfolding ann_inv_def Let_def s jo
    proof (intro conjI)
      show "mset (map j_target_id (insert_pool ix) @ map ct_target_id ts @ map fst (code_of task # committed)) = mset [c0..<cur_id (meta (core is'))]"
        using ann_invD(8)[OF inv] by (simp add: f sel del: mset_upt)
    qed (use ann_invD(2-7,9,11,12,14)[OF inv] ci' gi f sel in auto)
  qed
  assume "crash_image (pm_run (take j evs) (mem (core (iss ix)))) img"
  then show "{c0..<img (Super_f, 0)} \<subseteq> fst ` set (code_of task # committed)
      \<and> (\<forall>(t', pq')\<in>set (code_of task # committed). t' < img (Super_f, 0) \<longrightarrow> (\<forall>k<?n. img (PQ_f, t' * ?n + k) = pq' ! k))"
    using commit_task_crash[OF pk ci refl refl t nd run] unfolding sel by blast
qed

end
