(* ===== verification/Iss_System.thy ===== *)
theory Iss_System
  imports Insert_Path
begin

text \<open>
  The running index: calls of \<^verbatim>\<open>async_insert_in_place\<close>, the tasks of the thread pool and the commit thread
  interleave in any order. The insert phases finish out of order, the checkpoint follows the ids without a gap.
  A crash is placed after any event of any step.
\<close>

inductive ann_step :: "ann_cfg \<Rightarrow> ann_env \<Rightarrow> ann_index \<times> commit_state \<Rightarrow> pm_event list \<Rightarrow> ann_index \<times> commit_state \<Rightarrow> bool"
  for A :: ann_cfg and E :: ann_env where
  Insert: "length point = coords_len (sgeom (soft A)) \<Longrightarrow> cur_id (meta (core (iss ix))) < kAllocatedID \<Longrightarrow> space_left A ix 1 \<Longrightarrow>
     async_insert_in_place A E ix point tag = Some (Inr (ix', evs, t)) \<Longrightarrow> ann_step A E (ix, cs) evs (ix', cs)"
| Job: "i < length (insert_pool ix) \<Longrightarrow>
     run_job A E (insert_pool ix ! i) (ix\<lparr>insert_pool := drop_nth i (insert_pool ix)\<rparr>) = Some (Inr (ix', evs)) \<Longrightarrow>
     ann_step A E (ix, cs) evs (ix', cs)"
| Commit: "cq_items (commit_tasks (core (iss ix))) = Some task # rest \<Longrightarrow> \<not> ct_terminate task \<Longrightarrow>
     commit_task (spmdk (soft A)) elapsed task (pop_task (iss ix)) cs = (is', cs', evs) \<Longrightarrow>
     ann_step A E (ix, cs) evs (ix\<lparr>iss := is'\<rparr>, cs')"

inductive ann_reach :: "ann_cfg \<Rightarrow> ann_env \<Rightarrow> ann_index \<times> commit_state \<Rightarrow> ann_index \<times> commit_state \<Rightarrow> bool"
  for A :: ann_cfg and E :: ann_env and s0 :: "ann_index \<times> commit_state" where
  start: "ann_reach A E s0 s0"
| step: "ann_reach A E s0 s \<Longrightarrow> ann_step A E s evs s' \<Longrightarrow> ann_reach A E s0 s'"

text \<open>The index after loading: nothing in the pool, nothing to commit, the checkpoint at the next id.\<close>

definition ann_start :: "ann_cfg \<Rightarrow> nat \<Rightarrow> ann_index \<times> commit_state \<Rightarrow> bool" where
  "ann_start A c0 s \<longleftrightarrow> ann_inv A c0 [] [] (fst s) (snd s) \<and> space_left A (fst s) 0"

definition sys_inv :: "ann_cfg \<Rightarrow> nat \<Rightarrow> ann_index \<times> commit_state \<Rightarrow> bool" where
  "sys_inv A c0 s \<longleftrightarrow> (\<exists>ts committed. ann_inv A c0 ts committed (fst s) (snd s)) \<and> space_left A (fst s) 0"

lemma step_inv:
  assumes A: "ann_cfg_ok A" "env_ok A E" and st: "ann_step A E s evs s'" and inv: "sys_inv A c0 s"
  shows "sys_inv A c0 s'"
  using st
proof cases
  case (Insert point ix tag ix' t cs)
  obtain ts committed where i: "ann_inv A c0 ts committed ix cs" using inv Insert(1) by (auto simp: sys_inv_def)
  from async_insert_ok[OF A i _ Insert(4,3), of 0 tag] Insert show ?thesis by (auto simp: sys_inv_def)
next
  case (Job i ix ix' cs)
  obtain ts committed where inv': "ann_inv A c0 ts committed ix cs" "space_left A ix 0" using inv Job(1) by (auto simp: sys_inv_def)
  from run_job_ok[OF A(1) inv' Job(3), of E] Job show ?thesis by (auto simp: sys_inv_def)
next
  case (Commit ix task rest elapsed cs is' cs')
  obtain ts committed where inv': "ann_inv A c0 ts committed ix cs" "space_left A ix 0" using inv Commit(1) by (auto simp: sys_inv_def)
  then obtain ts' where ts: "ts = task # ts'" using Commit(3) ann_invD(10)[OF inv'(1)] by (cases ts) auto
  from commit_step_ok(1)[OF A(1) inv'(1)[unfolded ts] Commit(5)] have "ann_inv A c0 ts' (code_of task # committed) (ix\<lparr>iss := is'\<rparr>) cs'" .
  moreover have "space_left A (ix\<lparr>iss := is'\<rparr>) 0"
    using inv'(2) commit_task_frame(5)[OF Commit(5)] by (simp add: space_left_def pop_task_def)
  ultimately show ?thesis using Commit(2) by (auto simp: sys_inv_def)
qed

lemma reach_inv:
  assumes A: "ann_cfg_ok A" "env_ok A E" and r: "ann_reach A E s0 s" and s0: "ann_start A c0 s0"
  shows "sys_inv A c0 s"
  using r
proof (induction rule: ann_reach.induct)
  case start
  then show ?case using s0 unfolding ann_start_def sys_inv_def by blast
next
  case (step s evs s')
  then show ?case using step_inv[OF A] by blast
qed

text \<open>
  The codes that a crash image must have, in a state whose tasks are accounted for: a step of an insertion
  does not touch the files of the commit thread.
\<close>

lemma quiet_crash:
  assumes inv: "ann_inv A c0 ts committed ix cs"
    and un: "\<forall>c. fst c = PQ_f \<or> fst c = Super_f \<longrightarrow> untouched c evs" and img: "crash_image (pm_run (take j evs) (mem (core (iss ix)))) img"
  shows "img (Super_f, 0) = ckpt_id (iss ix)"
    and "(t, pq) \<in> set committed \<Longrightarrow> k < n_chunks A \<Longrightarrow> img (PQ_f, t * n_chunks A + k) = pq ! k"
proof -
  note ci = ann_invD(13)[OF inv]
  have keep: "img c = v" if "fst c = PQ_f \<or> fst c = Super_f" "durable (mem (core (iss ix))) c v" for c v
    using durable_crash[OF run_keeps(3)[OF untouched_take that(2)] img] un that(1) by blast
  show "img (Super_f, 0) = ckpt_id (iss ix)" using ci by (intro keep) (simp_all add: commit_inv_def)
  show "img (PQ_f, t * n_chunks A + k) = pq ! k" if "(t, pq) \<in> set committed" "k < n_chunks A"
  proof (rule keep)
    have "length pq = n_chunks A" "pq_durable (mem (core (iss ix))) t pq" using ci that(1) unfolding commit_inv_def by blast+
    then show "durable (mem (core (iss ix))) (PQ_f, t * n_chunks A + k) (pq ! k)" using that(2) by (simp add: pq_durable_def)
  qed simp
qed

lemma committed_below:
  assumes "ann_inv A c0 ts committed ix cs"
  shows "{c0..<ckpt_id (iss ix)} \<subseteq> fst ` set committed"
  using ann_invD(13)[OF assms] by (auto simp: commit_inv_def)

lemma step_crash:
  assumes A: "ann_cfg_ok A" "env_ok A E" and st: "ann_step A E s evs s'" and inv: "sys_inv A c0 s"
    and img: "crash_image (pm_run (take j evs) (mem (core (iss (fst s))))) img"
  shows "\<exists>D. {c0..<img (Super_f, 0)} \<subseteq> fst ` set D \<and> (\<forall>tp\<in>set D. code_at (n_chunks A) (pq_data (fst s')) tp)
    \<and> (\<forall>(t, pq)\<in>set D. t < img (Super_f, 0) \<longrightarrow> (\<forall>k < n_chunks A. img (PQ_f, t * n_chunks A + k) = pq ! k))"
proof -
  have quiet: ?thesis if i: "ann_inv A c0 ts committed ix cs" "ann_inv A c0 ts' committed ix' cs" "s = (ix, cs)" "s' = (ix', cs)"
    and un: "\<forall>c. fst c = PQ_f \<or> fst c = Super_f \<longrightarrow> untouched c evs" for ix cs ix' ts ts' committed
  proof -
    have img': "crash_image (pm_run (take j evs) (mem (core (iss ix)))) img" using img i(3) by simp
    note q = quiet_crash[OF i(1) un img']
    show ?thesis using committed_below[OF i(1)] q ann_invD(9)[OF i(2)] unfolding i(4) by (intro exI[of _ committed]) auto
  qed
  show ?thesis
    using st
  proof cases
    case (Insert point ix tag ix' t cs)
    obtain ts committed where i: "ann_inv A c0 ts committed ix cs" using inv Insert(1) by (auto simp: sys_inv_def)
    have sp: "space_left A ix (Suc 0)" using Insert(5) by simp
    obtain ts' where "ann_inv A c0 ts' committed ix' cs" "\<forall>c. fst c = PQ_f \<or> fst c = Super_f \<longrightarrow> untouched c evs"
      using async_insert_ok[OF A i sp Insert(4,3), of tag] Insert(6) by auto
    from quiet[OF i this(1) Insert(1,2) this(2)] show ?thesis .
  next
    case (Job n ix ix' cs)
    obtain ts committed where inv': "ann_inv A c0 ts committed ix cs" "space_left A ix 0" using inv Job(1) by (auto simp: sys_inv_def)
    obtain ts' where "ann_inv A c0 ts' committed ix' cs" "\<forall>c. fst c = PQ_f \<or> fst c = Super_f \<longrightarrow> untouched c evs"
      using run_job_ok[OF A(1) inv' Job(3), of E] Job(4) by auto
    from quiet[OF inv'(1) this(1) Job(1,2) this(2)] show ?thesis .
  next
    case (Commit ix task rest elapsed cs is' cs')
    obtain ts committed where inv': "ann_inv A c0 ts committed ix cs" using inv Commit(1) by (auto simp: sys_inv_def)
    then obtain ts' where ts: "ts = task # ts'" using Commit(3) ann_invD(10)[OF inv'] by (cases ts) auto
    note C = commit_step_ok[OF A(1) inv'[unfolded ts] Commit(5)]
    have "crash_image (pm_run (take j evs) (mem (core (iss ix)))) img" using img Commit(1) by simp
    from C(2)[OF this] ann_invD(9)[OF C(1)] show ?thesis unfolding Commit(2)
      by (intro exI[of _ "code_of task # committed"]) auto
  qed
qed


lemma empty_pool_ids:
  assumes inv: "ann_inv A c0 ts committed ix cs" and p: "insert_pool ix = []"
  shows "fst ` set (rev (map code_of ts) @ committed) = {c0..<cur_id (meta (core (iss ix)))}"
    and "c0 + length (rev (map code_of ts) @ committed) = cur_id (meta (core (iss ix)))"
    and "distinct (map ct_target_id ts)" "ct_target_id ` set ts \<inter> fst ` set committed = {}"
    and "\<forall>task\<in>set ts. task_ok (n_chunks A) c0 task"
proof -
  let ?cur = "cur_id (meta (core (iss ix)))" and ?D = "rev (map code_of ts) @ committed"
  note I = ann_invD[OF inv] and d = ann_inv_ids[OF inv, unfolded p list.map append_Nil]
  show fD: "fst ` set ?D = {c0..<?cur}" unfolding d(2)[symmetric] by (simp add: image_Un image_image)
  have "mset (map ct_target_id ts @ map fst committed) = mset [c0..<?cur]" using I(8) p by simp
  from arg_cong[OF this, of size] show "c0 + length ?D = ?cur" using I(6) by simp
  show "distinct (map ct_target_id ts)" "ct_target_id ` set ts \<inter> fst ` set committed = {}" using d(1) by simp_all
  show "\<forall>task\<in>set ts. task_ok (n_chunks A) c0 task"
  proof
    fix task assume a: "task \<in> set ts"
    then have "code_at (n_chunks A) (pq_data ix) (code_of task)" "ct_target_id task \<in> set (map ct_target_id ts @ map fst committed)" "\<not> ct_terminate task"
      using I(9,11) by auto
    then show "task_ok (n_chunks A) c0 task" using I(7) unfolding d(2) by (auto simp: task_ok_def code_at_def kAllocatedID_def)
  qed
qed

text \<open>
  C8. In every reachable state the tasks of the pool run to their end, in whatever order, and closing the index
  returns: the commit thread finds no gap, the checkpoint is the number of ids that were given out, and every id
  given out since the start is in the location map, with a durable PQ code.
\<close>

theorem close_index_complete:
  assumes "ann_cfg_ok A" "env_ok A E" "ann_start A c0 s0" "ann_reach A E s0 (ix, cs)"
  shows "\<exists>ix'. close_index A E sched elapsed ix cs = Some (Inr ix')
    \<and> ckpt_id (iss ix') = cur_id (meta (core (iss ix)))
    \<and> durable (mem (core (iss ix'))) (Super_f, 0) (cur_id (meta (core (iss ix))))
    \<and> (\<forall>t. c0 \<le> t \<longrightarrow> t < cur_id (meta (core (iss ix))) \<longrightarrow> t \<in> dom (id2loc_map (meta (core (iss ix'))))
         \<and> (\<forall>k < n_chunks A. durable (mem (core (iss ix'))) (PQ_f, t * n_chunks A + k) (pq_data ix ! (t * n_chunks A + k))))"
proof -
  let ?cur = "cur_id (meta (core (iss ix)))" and ?n = "n_chunks A"
  obtain ts committed where inv: "ann_inv A c0 ts committed ix cs" "space_left A ix 0"
    using reach_inv[OF assms(1,2,4,3)] by (auto simp: sys_inv_def)
  obtain ix1 evs ts1 where w: "wait_pool A E sched (length (insert_pool ix)) ix = Some (Inr (ix1, evs))" "ann_inv A c0 ts1 committed ix1 cs"
    "insert_pool ix1 = []" "cur_id (meta (core (iss ix1))) = ?cur" "pq_data ix1 = pq_data ix"
    using wait_pool_ok[OF assms(1) inv refl, of E sched] by blast
  note I = ann_invD[OF w(2)]
  define stop where "stop = \<lparr>ct_pq_coords = [], ct_target_id = 0, ct_terminate = True, ct_point = None\<rparr>"
  define st where "st = (core (iss ix1))\<lparr>commit_tasks := cq_push (commit_tasks (core (iss ix1))) (Some stop)\<rparr>"
  have pk: "pmdk_ok (spmdk (soft A))" using assms(1) by (simp add: ann_cfg_ok_def cfg_ok_def)
  have it: "cq_items (commit_tasks (core ((iss ix1)\<lparr>core := st\<rparr>))) = map Some ts1 @ [Some stop]" using I(10) by (simp add: st_def)
  have ci: "commit_inv ?n c0 committed ((iss ix1)\<lparr>core := st\<rparr>) cs" using I(13) by (simp add: commit_inv_def st_def)
  note e = empty_pool_ids[OF w(2,3), unfolded w(4)]
  let ?D = "rev (map code_of ts1) @ committed"
  obtain is2 evs2 where c: "insert_commit_thread (spmdk (soft A)) elapsed 0 ((iss ix1)\<lparr>core := st\<rparr>) cs = Some (Inr (is2, evs2))"
    "ckpt_id is2 = ?cur" "commit_inv ?n c0 ?D is2 \<lparr>commit_queue = [], n_tasks = 0\<rparr>"
    using commit_thread_run[OF pk it _ ci e(5,3,4), of elapsed 0] e(1,2) unfolding Let_def by (auto simp: stop_def)
  have map: "id2loc_map (meta (core is2)) = id2loc_map (meta (core (iss ix1)))"
    using insert_commit_thread_map[OF c(1)] by (simp add: st_def)
  have dur: "durable (mem (core is2)) (PQ_f, t * ?n + k) (pq_data ix ! (t * ?n + k))" if "c0 \<le> t" "t < ?cur" "k < ?n" for t k
  proof -
    have "t \<in> fst ` set ?D" using that unfolding e(1) by simp
    then obtain pq where "(t, pq) \<in> set ?D" by force
    then have "pq_durable (mem (core is2)) t pq" "code_at ?n (pq_data ix1) (t, pq)" using c(3) I(9) unfolding commit_inv_def by auto
    then show ?thesis using that(3) by (auto simp: pq_durable_def code_at_def w(5))
  qed
  have "t \<in> dom (id2loc_map (meta (core is2)))" if "c0 \<le> t" "t < ?cur" for t
  proof -
    have "t \<in> fst ` set ?D" unfolding e(1) using that by simp
    then have "t \<in> set (map ct_target_id ts1 @ map fst committed)" by auto
    then show ?thesis using I(14) unfolding map by blast
  qed
  moreover have "close_index A E sched elapsed ix cs = Some (Inr (ix1\<lparr>iss := is2\<rparr>))"
    using w(1) c(1) by (simp add: close_index_def synchronize_insertions_def Let_def st_def stop_def)
  ultimately show ?thesis using c(2,3) dur by (intro exI[of _ "ix1\<lparr>iss := is2\<rparr>"]) (simp add: commit_inv_def)
qed

section \<open>A small index\<close>

definition ex_acfg :: ann_cfg where
  "ex_acfg = \<lparr>soft = ex_cfg, n_chunks = 2, num_cpus = 4, search_mode = PIPE_SEARCH, has_mem_index = False\<rparr>"

text \<open>The search finds node 0 when it is there; the table has two chunks of fifty dimensions.\<close>

definition ex_pq2 :: FixedChunkPQTable where
  "ex_pq2 = post_load_pq_table \<lparr>tables = replicate 25600 (Fin 0), centroid = replicate 100 (Fin 0), ndims = 100, pq_nchunks = 2,
     chunk_offsets = [0, 50, 100], rearrangement = [0..<100], tables_T = [], all_to_all_dists = []\<rparr>"

lemma ex_pq2_chunks: "pq_nchunks ex_pq2 = 2"
  by (simp add: ex_pq2_def)

definition ex_env :: ann_env where
  "ex_env = \<lparr>do_search = (\<lambda>mode ix point l. if id2loc_map (meta (core (iss ix))) 0 = None then ([], Map.empty, [])
       else ([mk_Neighbor 0 (Fin 1) True], [0 \<mapsto> replicate 100 0], [1])),
     pq_table = ex_pq2, elem_floats = map (\<lambda>b. Fin (of_nat b)), full_dist = (\<lambda>_ _. Fin 1),
     lock_env = (\<lambda>_ _ t. t), sampled = (\<lambda>_. False)\<rparr>"

definition ex_ann :: ann_index where
  "ex_ann = \<lparr>iss = \<lparr>core = ex_index\<lparr>mem := (\<lambda>c. ([], [if c = (Super_f, 0) then 5 else 0]))\<rparr>, ckpt_id = 5\<rparr>,
     pq_data = replicate 10 0, insert_pool = [], search_thread_count = 0, calc_thread_count = 0, peak_cpus = 0\<rparr>"

abbreviation ex_cs :: commit_state where
  "ex_cs \<equiv> \<lparr>commit_queue = [], n_tasks = 0\<rparr>"

lemma ex_acfg_ok: "ann_cfg_ok ex_acfg"
proof -
  have "\<exists>a. Fin (6 / 5) = Fin a \<and> 1 \<le> a" by (intro exI[of _ "6 / 5"]) simp
  then show ?thesis using ex_cfg_ok by (simp add: ann_cfg_ok_def ex_acfg_def) (simp add: ex_cfg_def MAX_N_EDGES_def)
qed

lemma ex_env_ok: "env_ok ex_acfg ex_env"
  unfolding env_ok_def by (auto simp: ex_acfg_def ex_env_def mk_Neighbor_def dom_def ex_pq2_chunks split: if_splits)

lemma ex_start: "ann_start ex_acfg 5 (ex_ann, ex_cs)"
proof -
  let ?m = "\<lambda>c. ([], [if c = (Super_f, 0) then 5 else 0]) :: pcell"
  have "graph_bytes ?m = graph_bytes (mem ex_index)" by (simp add: ex_index_def pm_visible_def fun_eq_iff)
  moreover have "pm_wf ?m" by (simp add: pm_wf_def)
  ultimately have "graph_inv ex_cfg (meta ex_index) ?m" using ex_graph_inv by (simp add: graph_inv_def)
  moreover have "meta ex_index = ex_meta" "commit_tasks ex_index = cq_new None" "vec_locks ex_index = Map.empty" "page_locks ex_index = Map.empty"
    by (simp_all add: ex_index_def)
  moreover have "dom (id2loc_map ex_meta) \<subseteq> {..<5}" "cur_id ex_meta = 5" "alloc ex_meta = ex_alloc" by (auto simp: ex_meta_def)
  moreover have "cur_loc ex_alloc = 8" by (simp add: ex_alloc_def)
  ultimately show ?thesis
    by (simp add: ann_start_def ann_inv_def ex_ann_def ex_acfg_def space_left_def commit_inv_def durable_def cq_new_def
        kAllocatedID_def kInvalidID_def job_space_def)
qed

lemma ex_insert_step:
  "\<exists>ix' evs. ann_step ex_acfg ex_env (ex_ann, ex_cs) evs (ix', ex_cs) \<and> cur_id (meta (core (iss ix'))) = 6"
proof -
  have i: "ann_inv ex_acfg 5 [] [] ex_ann ex_cs" "space_left ex_acfg ex_ann (Suc 0)"
    using ex_start by (simp_all add: ann_start_def space_left_def)
      (simp add: ex_ann_def ex_acfg_def job_space_def ex_index_def ex_meta_def ex_alloc_def ex_cfg_def ex_geom_def kInvalidID_def)
  have c: "cur_id (meta (core (iss ex_ann))) = 5" by (simp add: ex_ann_def ex_index_def ex_meta_def)
  have p: "length (replicate 100 1) = coords_len (sgeom (soft ex_acfg))" by (simp add: ex_acfg_def ex_cfg_def ex_geom_def coords_len_def)
  have t: "cur_id (meta (core (iss ex_ann))) < kAllocatedID" by (simp add: c kAllocatedID_def)
  obtain ix' evs where "async_insert_in_place ex_acfg ex_env ex_ann (replicate 100 1) 77 = Some (Inr (ix', evs, 5))"
    "cur_id (meta (core (iss ix'))) = 6"
    using async_insert_ok[OF ex_acfg_ok ex_env_ok i t p, of 77] unfolding c by auto
  then show ?thesis using ann_step.Insert[OF p t _, of ex_env 77 ix' evs 5 ex_cs] i(2) by auto
qed


theorem close_index_complete_witness:
  "\<exists>ix ix'. ann_reach ex_acfg ex_env (ex_ann, ex_cs) (ix, ex_cs) \<and> close_index ex_acfg ex_env (\<lambda>_. 0) (\<lambda>_. False) ix ex_cs = Some (Inr ix')
     \<and> ckpt_id (iss ix') = 6 \<and> 5 \<in> dom (id2loc_map (meta (core (iss ix'))))"
proof -
  obtain ix evs where st: "ann_step ex_acfg ex_env (ex_ann, ex_cs) evs (ix, ex_cs)" "cur_id (meta (core (iss ix))) = 6"
    using ex_insert_step by blast
  have r: "ann_reach ex_acfg ex_env (ex_ann, ex_cs) (ix, ex_cs)" by (rule ann_reach.step[OF ann_reach.start st(1)])
  from close_index_complete[OF ex_acfg_ok ex_env_ok ex_start r, of "\<lambda>_. 0" "\<lambda>_. False"] show ?thesis using r st(2) by auto
qed

section \<open>Synchronous insertion\<close>



section \<open>The array of codes is well-typed\<close>

definition bytes_only :: "nat list \<Rightarrow> bool" where
  "bytes_only data \<longleftrightarrow> (\<forall>x\<in>set data. x < 256)"

lemma store_code_bytes:
  assumes "bytes_only data" "bytes_only code" "store_code n data t code = Some data'"
  shows "bytes_only data'"
proof -
  obtain sz where d: "data' = patch (resize_to data sz) (t * n) (take n code)"
    using assms(3) by (auto simp: store_code_def Let_def split: option.splits)
  have "set (patch xs k ys) \<subseteq> set xs \<union> set ys" for xs ys :: "nat list" and k
    by (auto simp: patch_def dest: in_set_takeD in_set_dropD)
  moreover have "set (resize_to data sz) \<subseteq> set data \<union> {0}" by (auto simp: resize_to_def dest: in_set_takeD)
  moreover have "set (take n code) \<subseteq> set code" by (rule set_take_subset)
  ultimately have "set data' \<subseteq> set data \<union> {0} \<union> set code" unfolding d by blast
  then show ?thesis using assms(1,2) by (auto simp: bytes_only_def)
qed

lemma search_phase_bytes:
  assumes "bytes_only (pq_data ix)" "search_phase A E ix point = Some (Inr (ix', t, nh, refs, code))"
  shows "bytes_only (pq_data ix')"
proof -
  let ?code = "deflate_vector (pq_table E) (elem_floats E point)"
  have "bytes_only ?code" using deflate_vector_bytes by (auto simp: bytes_only_def)
  moreover obtain data where "store_code (n_chunks A) (pq_data ix) (u32 (cur_id (meta (core (iss ix))))) ?code = Some data" "pq_data ix' = data"
    using assms(2) by (auto simp: search_phase_def Let_def bind_run_eq_Some_Inr split: if_splits option.splits prod.splits)
  ultimately show ?thesis using store_code_bytes[OF assms(1)] by blast
qed

lemma run_job_data: "run_job A E j ix = Some (Inr (ix', evs)) \<Longrightarrow> pq_data ix' = pq_data ix"
  by (auto simp: run_job_def bind_run_eq_Some_Inr)

lemma step_bytes:
  assumes "ann_step A E s evs s'" "bytes_only (pq_data (fst s))"
  shows "bytes_only (pq_data (fst s'))"
  using assms(1)
proof cases
  case (Insert point ix tag ix' t cs)
  then obtain ix1 t1 nh refs code where s: "search_phase A E ix point = Some (Inr (ix1, t1, nh, refs, code))"
    by (auto simp: async_insert_in_place_def bind_run_eq_Some_Inr)
  then have "pq_data ix' = pq_data ix1"
    using Insert(6) run_job_data by (fastforce simp: async_insert_in_place_def Let_def bind_run_eq_Some_Inr split: if_splits)
  then show ?thesis using search_phase_bytes[OF _ s] assms(2) Insert(1,2) by simp
next
  case (Job i ix ix' cs)
  then show ?thesis using run_job_data[OF Job(4)] assms(2) by simp
qed (use assms(2) in simp)

lemma reach_bytes: "ann_reach A E s0 s \<Longrightarrow> bytes_only (pq_data (fst s0)) \<Longrightarrow> bytes_only (pq_data (fst s))"
  by (induction rule: ann_reach.induct) (auto intro: step_bytes)

text \<open>
  C25. In every reachable state each id that was given out has an entry of \<^verbatim>\<open>n_chunks\<close> bytes in the array of PQ
  codes: the distance functions never index outside of the array or of the table of centre distances.
\<close>

theorem pq_codes_well_typed:
  assumes "ann_cfg_ok A" "env_ok A E" "ann_start A c0 s0" "ann_reach A E s0 s" "\<forall>x\<in>set (pq_data (fst s0)). x < 256"
    and "c0 \<le> t" "t < cur_id (meta (core (iss (fst s))))"
  shows "codes_ok (pq_table E) (pq_data (fst s)) t"
proof -
  obtain ts committed where inv: "ann_inv A c0 ts committed (fst s) (snd s)"
    using reach_inv[OF assms(1,2,4,3)] by (auto simp: sys_inv_def)
  let ?L = "map job_code (insert_pool (fst s)) @ map code_of ts @ committed"
  have "t \<in> set (map j_target_id (insert_pool (fst s)) @ map ct_target_id ts @ map fst committed)"
    unfolding ann_inv_ids(2)[OF inv] using assms(6,7) by simp
  then have "t \<in> set (map fst ?L)" unfolding map_append map_map comp_def fst_conv .
  then obtain tp where tp: "tp \<in> set ?L" "fst tp = t" by (simp only: set_map image_iff) blast
  have "code_at (n_chunks A) (pq_data (fst s)) tp" using ann_invD(9)[OF inv] tp(1) by blast
  then have "t * n_chunks A + n_chunks A \<le> length (pq_data (fst s))" using tp(2) by (auto simp: code_at_def split: prod.splits)
  moreover have "bytes_only (pq_data (fst s))" using reach_bytes[OF assms(4)] assms(5) by (simp add: bytes_only_def)
  moreover have "pq_nchunks (pq_table E) = n_chunks A" using assms(2) by (simp add: env_ok_def)
  ultimately show ?thesis by (simp add: codes_ok_def bytes_only_def)
qed

theorem pq_codes_well_typed_witness:
  "\<exists>ix. ann_reach ex_acfg ex_env (ex_ann, ex_cs) (ix, ex_cs) \<and> codes_ok (pq_table ex_env) (pq_data ix) 5"
proof -
  obtain ix evs where st: "ann_step ex_acfg ex_env (ex_ann, ex_cs) evs (ix, ex_cs)" "cur_id (meta (core (iss ix))) = 6"
    using ex_insert_step by blast
  have r: "ann_reach ex_acfg ex_env (ex_ann, ex_cs) (ix, ex_cs)" by (rule ann_reach.step[OF ann_reach.start st(1)])
  have "\<forall>x\<in>set (pq_data (fst (ex_ann, ex_cs))). x < 256" by (simp add: ex_ann_def)
  from pq_codes_well_typed[OF ex_acfg_ok ex_env_ok ex_start r this, of 5] show ?thesis using r st(2) by auto
qed

end
