(* ===== verification/Vector_Store.thy ===== *)
theory Vector_Store
  imports Iss_System Recovery
begin

text \<open>
  What the index promises its caller, apart from the quality of the search: a store of vectors under ids that are
  given out in order. An insertion takes the next id and its vector and tag become visible at once or later, in any
  order; nothing else changes a stored vector. The running index refines this store, and so does recovery, which
  moves records about but changes no vector.
\<close>

section \<open>The abstract store\<close>

record vector_store =
  vs_vecs :: "nat \<rightharpoonup> nat list"
  vs_tags :: "nat \<rightharpoonup> nat"
  vs_pending :: "(nat \<times> nat list \<times> nat) multiset"
  vs_next :: nat

inductive store_step :: "vector_store \<Rightarrow> vector_store \<Rightarrow> bool" where
  Reserve: "store_step s (s\<lparr>vs_pending := add_mset (vs_next s, v, tag) (vs_pending s), vs_next := vs_next s + 1\<rparr>)"
| Apply: "vs_pending s = add_mset (i, v, tag) P \<Longrightarrow>
    store_step s (s\<lparr>vs_vecs := (vs_vecs s)(i \<mapsto> v), vs_tags := (vs_tags s)(i \<mapsto> tag), vs_pending := P\<rparr>)"

inductive_cases store_stepE: "store_step s s'"

text \<open>Every pending id is its own, below the next one, and not yet visible.\<close>

definition store_ok :: "vector_store \<Rightarrow> bool" where
  "store_ok s \<longleftrightarrow> (\<forall>i. count (image_mset fst (vs_pending s)) i \<le> 1) \<and> (\<forall>p\<in>#vs_pending s. fst p < vs_next s \<and> fst p \<notin> dom (vs_vecs s))
     \<and> dom (vs_vecs s) \<subseteq> {..<vs_next s}"

lemma store_step_keeps:
  assumes "store_step s s'" "store_ok s"
  shows "store_ok s' \<and> vs_vecs s \<subseteq>\<^sub>m vs_vecs s'"
  using assms(1)
proof cases
  case (Reserve v tag)
  have "vs_next s \<notin># image_mset fst (vs_pending s)" using assms(2) by (auto simp: store_ok_def)
  then have "count (image_mset fst (vs_pending s')) i \<le> 1" for i
    using assms(2) by (auto simp: Reserve store_ok_def not_in_iff)
  then show ?thesis using assms(2) by (auto simp: Reserve store_ok_def less_Suc_eq)
next
  case (Apply i v tag P)
  have c: "count (add_mset i (image_mset fst P)) k \<le> 1" for k using Apply(2) assms(2) by (simp add: store_ok_def)
  have "count (image_mset fst P) i = 0" using c[of i] by simp
  then have "i \<notin># image_mset fst P" by (simp only: not_in_iff)
  moreover have "i \<notin> dom (vs_vecs s)" "i < vs_next s" using Apply(2) assms(2) by (simp_all add: store_ok_def)
  moreover have "count (image_mset fst P) k \<le> 1" for k using c[of k] by (simp split: if_splits)
  ultimately show ?thesis using Apply assms(2) by (auto simp: store_ok_def map_le_def)
qed

lemma store_steps_keep:
  assumes "store_step\<^sup>*\<^sup>* s s'" "store_ok s"
  shows "store_ok s' \<and> vs_vecs s \<subseteq>\<^sub>m vs_vecs s'"
  using assms by (induction rule: rtranclp_induct) (auto dest: store_step_keeps intro: map_le_trans)

section \<open>Forward simulation\<close>

locale forward_simulation =
  fixes inv :: "'s \<Rightarrow> bool" and cstep :: "'s \<Rightarrow> 's \<Rightarrow> bool" and abst :: "'s \<Rightarrow> 'a" and astep :: "'a \<Rightarrow> 'a \<Rightarrow> bool"
  assumes inv_step: "inv s \<Longrightarrow> cstep s s' \<Longrightarrow> inv s'"
    and sim_step: "inv s \<Longrightarrow> cstep s s' \<Longrightarrow> astep\<^sup>*\<^sup>* (abst s) (abst s')"
begin

lemma simulation:
  assumes "cstep\<^sup>*\<^sup>* s s'" "inv s"
  shows "inv s' \<and> astep\<^sup>*\<^sup>* (abst s) (abst s')"
  using assms by (induction rule: rtranclp_induct) (auto intro: inv_step dest: sim_step)

end

section \<open>The vectors of the index\<close>

text \<open>The coordinates of the record that a live id points to.\<close>

definition vec_of :: "geom \<Rightarrow> meta_state \<Rightarrow> pmem \<Rightarrow> (nat \<rightharpoonup> nat list)" where
  "vec_of g m pm i = map_option (\<lambda>l. coords (mk_DiskNode g (graph_bytes pm) i (u_loc_offset g l))) (id2loc_map m i)"

lemma vec_of_node: "id2loc_map m i = Some l \<Longrightarrow> node_at g (graph_bytes pm) l cs ns \<Longrightarrow> vec_of g m pm i = Some cs"
  using node_read_back[of g cs ns "graph_bytes pm" "u_loc_offset g l" i] by (simp add: vec_of_def node_at_def)

lemma vec_of_frame:
  assumes "node_at g (graph_bytes pm) l cs ns" "\<forall>j < max_node_len g. graph_bytes pm' (u_loc_offset g l + j) = graph_bytes pm (u_loc_offset g l + j)"
  shows "node_at g (graph_bytes pm') l cs ns"
  using assms by (simp add: node_at_def bytes_at_def)

text \<open>\<^verbatim>\<open>get_vector_by_id\<close> reads a page of the file; past its end the buffer stays zero. -1 is \<open>None\<close>.\<close>

definition get_vector_by_id :: "soft_cfg \<Rightarrow> pm_index \<Rightarrow> nat \<Rightarrow> nat list option outcome" where
  "get_vector_by_id C st i =
     (let g = sgeom C
      in if \<not> enable_tags C then Inr None
         else and_then (node_sector_no g (meta st) i) (\<lambda>sector.
              let buf = map (\<lambda>j. let p = SECTOR_LEN * sector + j in if p < graph_size st then graph_bytes (mem st) p else 0) [0..<size_per_io g]
              in and_then (offset_to_node g (meta st) 0 i) (\<lambda>off.
                   if size_per_io g < off + coords_len g then Inl Undefined
                   else Inr (Some (map (\<lambda>j. buf ! (off + j)) [0..<coords_len g])))))"

lemma get_vector_by_id_ok:
  assumes C: "cfg_ok C" "enable_tags C" and inv: "graph_inv C (meta st) (mem st)" and mp: "all_mapped (sgeom C) (meta st) (graph_size st)"
    and i: "i \<in> dom (id2loc_map (meta st))"
  shows "get_vector_by_id C st i = Inr (vec_of (sgeom C) (meta st) (mem st) i)"
proof -
  let ?g = "sgeom C"
  have g: "geom_paged ?g" using C by (simp add: cfg_ok_def)
  obtain l where l: "id2loc_map (meta st) i = Some l" using i by blast
  then obtain cs ns where n: "node_at ?g (graph_bytes (mem st)) l cs ns" using inv unfolding graph_inv_def by blast
  have len: "length cs = coords_len ?g" by (rule node_at_length[OF n])
  have fit: "length (node_bytes cs ns) \<le> max_node_len ?g"
    and b: "bytes_at (graph_bytes (mem st)) (u_loc_offset ?g l) (node_bytes cs ns)" using n by (simp_all add: node_at_def)
  have off: "offset_to_loc ?g 0 l + max_node_len ?g \<le> size_per_io ?g" by (rule slot_in_page[OF g])
  have sz: "size_per_io ?g = SECTOR_LEN" using g by (simp add: size_per_io_def geom_paged_def)
  have gs: "loc_sector_no ?g l * SECTOR_LEN + SECTOR_LEN \<le> graph_size st" using mp l by (simp add: all_mapped_def)
  have byte: "graph_bytes (mem st) (SECTOR_LEN * loc_sector_no ?g l + (offset_to_loc ?g 0 l + j)) = cs ! j"
    "offset_to_loc ?g 0 l + j < SECTOR_LEN" "SECTOR_LEN * loc_sector_no ?g l + (offset_to_loc ?g 0 l + j) < graph_size st" if "j < coords_len ?g" for j
  proof -
    have "graph_bytes (mem st) (u_loc_offset ?g l + j) = node_bytes cs ns ! j" using b that len by (simp add: bytes_at_def)
    then show "graph_bytes (mem st) (SECTOR_LEN * loc_sector_no ?g l + (offset_to_loc ?g 0 l + j)) = cs ! j"
      using that len by (simp add: u_loc_offset_split node_bytes_def nth_append mult.commute add.assoc)
    show "offset_to_loc ?g 0 l + j < SECTOR_LEN" using off fit that len sz by simp
    then show "SECTOR_LEN * loc_sector_no ?g l + (offset_to_loc ?g 0 l + j) < graph_size st" using gs by (simp add: mult.commute)
  qed
  define buf where "buf = map (\<lambda>j. let p = SECTOR_LEN * loc_sector_no ?g l + j in if p < graph_size st then graph_bytes (mem st) p else 0) [0..<size_per_io ?g]"
  have "buf ! (offset_to_loc ?g 0 l + j) = cs ! j" if "j < coords_len ?g" for j
    using byte[OF that] unfolding buf_def by (simp add: sz Let_def)
  then have "map (\<lambda>j. buf ! (offset_to_loc ?g 0 l + j)) [0..<coords_len ?g] = cs"
    using len by (intro nth_equalityI) simp_all
  moreover have "\<not> size_per_io ?g < offset_to_loc ?g 0 l + coords_len ?g" using off fit len by simp
  moreover have "node_sector_no ?g (meta st) i = Inr (loc_sector_no ?g l)" "offset_to_node ?g (meta st) 0 i = Inr (offset_to_loc ?g 0 l)"
    using l by (simp_all add: node_sector_no_def offset_to_node_def id2loc_def)
  ultimately show ?thesis unfolding get_vector_by_id_def Let_def vec_of_node[OF l n] using C(2)
    by (simp add: buf_def Let_def)
qed

lemma commit_task_tags: "commit_task L el task ix cs = (ix', cs', evs) \<Longrightarrow> tags (meta (core ix')) = tags (meta (core ix))"
  by (auto simp: commit_task_def Let_def split: prod.splits)

section \<open>The running index refines the store\<close>

definition abs_job :: "insert_job \<Rightarrow> nat \<times> nat list \<times> nat" where
  "abs_job j = (j_target_id j, j_point j, j_tag j)"

definition abs_index :: "ann_cfg \<Rightarrow> ann_index \<Rightarrow> vector_store" where
  "abs_index A ix = (let st = core (iss ix)
     in \<lparr>vs_vecs = vec_of (sgeom (soft A)) (meta st) (mem st), vs_tags = tags (meta st),
         vs_pending = image_mset abs_job (mset (insert_pool ix)), vs_next = cur_id (meta st)\<rparr>)"

lemma insert_phase_vecs:
  assumes C: "cfg_ok C" "graph_inv C (meta st) (mem st)" "insert_ready C st point t new_nhood page_ref"
    and run: "insert_phase_pm C env pq_dist sample st point tag t new_nhood page_ref pq = Some (Inr (st', evs))"
  shows "vec_of (sgeom C) (meta st') (mem st') = (vec_of (sgeom C) (meta st) (mem st))(t \<mapsto> point)"
    and "tags (meta st') = (tags (meta st))(t \<mapsto> tag)" and "cur_id (meta st') = cur_id (meta st)"
proof -
  let ?g = "sgeom C"
  obtain locs need a where "publish ?g ((meta st)\<lparr>alloc := a, tags := (tags (meta st))(t \<mapsto> tag)\<rparr>) t new_nhood locs = Inr (meta st')"
    using insert_phase_pm_run[OF C, of env pq_dist sample tag pq] run by auto
  from publish_frame[OF this] show "tags (meta st') = (tags (meta st))(t \<mapsto> tag)" "cur_id (meta st') = cur_id (meta st)" by simp_all
  note ok = insert_phase_pm_ok[OF C, of env pq_dist sample tag pq, unfolded run]
  have dom: "dom (id2loc_map (meta st')) = insert t (dom (id2loc_map (meta st)))" using ok by auto
  show "vec_of ?g (meta st') (mem st') = (vec_of ?g (meta st) (mem st))(t \<mapsto> point)"
  proof
    fix i
    consider "i = t" | "i \<noteq> t" "i \<in> set new_nhood" | l where "i \<noteq> t" "i \<notin> set new_nhood" "id2loc_map (meta st) i = Some l"
      | "i \<noteq> t" "id2loc_map (meta st) i = None" by fastforce
    then show "vec_of ?g (meta st') (mem st') i = ((vec_of ?g (meta st) (mem st))(t \<mapsto> point)) i"
    proof cases
      case 1
      obtain l where "id2loc_map (meta st') t = Some l" "node_at ?g (graph_bytes (mem st')) l point new_nhood" using ok by auto
      then show ?thesis using vec_of_node 1 by simp
    next
      case 2
      obtain l cs ns l' nh where "id2loc_map (meta st) i = Some l" "node_at ?g (graph_bytes (mem st)) l cs ns"
        "id2loc_map (meta st') i = Some l'" "node_at ?g (graph_bytes (mem st')) l' cs nh" using ok 2(2) by blast
      then show ?thesis using 2(1) by (simp add: vec_of_node)
    next
      case 3
      obtain cs ns where n: "node_at ?g (graph_bytes (mem st)) l cs ns" using C(2) 3(3) unfolding graph_inv_def by blast
      have "id2loc_map (meta st') i = Some l" "\<forall>j < max_node_len ?g. graph_bytes (mem st') (u_loc_offset ?g l + j) = graph_bytes (mem st) (u_loc_offset ?g l + j)"
        using ok 3(2,3) by auto
      then show ?thesis using vec_of_node[OF 3(3) n] vec_of_node[OF _ vec_of_frame[OF n]] 3(1) by simp
    next
      case 4
      have "id2loc_map (meta st') i = None" using dom 4 by (metis domIff insert_iff)
      then show ?thesis using 4 by (simp add: vec_of_def)
    qed
  qed
qed

lemma run_job_apply:
  assumes A: "ann_cfg_ok A" and inv: "ann_inv A c0 ts committed ix cs" and sp: "space_left A ix 0" and i: "i < length (insert_pool ix)"
    and run: "run_job A E (insert_pool ix ! i) (ix\<lparr>insert_pool := drop_nth i (insert_pool ix)\<rparr>) = Some (Inr (ix', evs))"
  shows "store_step (abs_index A ix) (abs_index A ix')"
proof -
  let ?j = "insert_pool ix ! i"
  have C: "cfg_ok (soft A)" using A by (simp add: ann_cfg_ok_def)
  have rdy: "insert_ready (soft A) (core (iss ix)) (j_point ?j) (j_target_id ?j) (j_new_nhood ?j) (j_page_ref ?j)"
    by (rule job_ready[OF A inv sp nth_mem[OF i]])
  obtain st' where st: "insert_phase_pm (soft A) (lock_env E) (pq_dist_of (pq_table E) (pq_data ix)) (has_mem_index A \<and> sampled E (j_target_id ?j))
      (core (iss ix)) (j_point ?j) (j_tag ?j) (j_target_id ?j) (j_new_nhood ?j) (j_page_ref ?j) (j_pq_coords ?j) = Some (Inr (st', evs))"
    and ix': "ix' = ix\<lparr>insert_pool := drop_nth i (insert_pool ix), iss := (iss ix)\<lparr>core := st'\<rparr>\<rparr>"
    using run by (auto simp: run_job_def bind_run_eq_Some_Inr)
  note v = insert_phase_vecs[OF C ann_invD(1)[OF inv] rdy st]
  have p: "vs_pending (abs_index A ix) = add_mset (j_target_id ?j, j_point ?j, j_tag ?j) (image_mset abs_job (mset (drop_nth i (insert_pool ix))))"
    using drop_nth_mset[OF i] by (simp add: abs_index_def abs_job_def Let_def)
  have "abs_index A ix' = (abs_index A ix)\<lparr>vs_vecs := (vs_vecs (abs_index A ix))(j_target_id ?j \<mapsto> j_point ?j),
      vs_tags := (vs_tags (abs_index A ix))(j_target_id ?j \<mapsto> j_tag ?j), vs_pending := image_mset abs_job (mset (drop_nth i (insert_pool ix)))\<rparr>"
    by (simp add: abs_index_def Let_def ix' v)
  then show ?thesis using store_step.Apply[OF p] by simp
qed

lemma index_step_sim:
  assumes A: "ann_cfg_ok A" "env_ok A E" and inv: "sys_inv A c0 s" and st: "ann_step A E s evs s'"
  shows "store_step\<^sup>*\<^sup>* (abs_index A (fst s)) (abs_index A (fst s'))"
  using st
proof cases
  case (Insert point ix tag ix' t cs)
  obtain ts committed where i: "ann_inv A c0 ts committed ix cs" using inv Insert(1) by (auto simp: sys_inv_def)
  have sp: "space_left A ix (Suc 0)" using Insert(5) by simp
  obtain ix2 job b where p: "insert_pool ix2 = insert_pool ix @ [job]"
    and j: "j_point job = point" "j_tag job = tag" "j_target_id job = cur_id (meta (core (iss ix)))"
    and i2: "iss ix2 = (iss ix)\<lparr>core := (core (iss ix))\<lparr>meta := (meta (core (iss ix)))\<lparr>cur_id := cur_id (meta (core (iss ix))) + 1\<rparr>\<rparr>\<rparr>"
    and inv2: "ann_inv A c0 ts committed ix2 cs" "space_left A ix2 0"
    and as: "async_insert_in_place A E ix point tag = (if b then Some (Inr (ix2, [], cur_id (meta (core (iss ix)))))
      else bind_run (run_job A E job (ix2\<lparr>insert_pool := drop_nth (length (insert_pool ix)) (insert_pool ix2)\<rparr>))
        (\<lambda>(ix', evs). Some (Inr (ix', evs, cur_id (meta (core (iss ix)))))))"
    using async_insert_cases[OF A i sp Insert(4,3), of tag] by metis
  let ?a = "abs_index A ix"
  have "vec_of g (m\<lparr>cur_id := c\<rparr>) pm = vec_of g m pm" for g m c pm by (simp add: vec_of_def fun_eq_iff)
  then have "abs_index A ix2 = ?a\<lparr>vs_pending := add_mset (vs_next ?a, point, tag) (vs_pending ?a), vs_next := vs_next ?a + 1\<rparr>"
    by (simp add: abs_index_def Let_def p i2 j abs_job_def)
  then have r: "store_step ?a (abs_index A ix2)" using store_step.Reserve[of ?a point tag] by simp
  show ?thesis
  proof (cases b)
    case True
    then show ?thesis using r as Insert by auto
  next
    case False
    have l: "length (insert_pool ix) < length (insert_pool ix2)" "insert_pool ix2 ! length (insert_pool ix) = job" by (simp_all add: p)
    have "bind_run (run_job A E job (ix2\<lparr>insert_pool := drop_nth (length (insert_pool ix)) (insert_pool ix2)\<rparr>))
        (\<lambda>(ix', evs). Some (Inr (ix', evs, cur_id (meta (core (iss ix)))))) = Some (Inr (ix', evs, t))"
      using as False Insert(6) by simp
    then have "run_job A E job (ix2\<lparr>insert_pool := drop_nth (length (insert_pool ix)) (insert_pool ix2)\<rparr>) = Some (Inr (ix', evs))"
      by (auto simp: bind_run_eq_Some_Inr)
    then have "store_step (abs_index A ix2) (abs_index A ix')"
      using run_job_apply[OF A(1) inv2 l(1)] unfolding l(2) by blast
    then show ?thesis using r Insert(1,2) by auto
  qed
next
  case (Job i ix ix' cs)
  obtain ts committed where inv': "ann_inv A c0 ts committed ix cs" "space_left A ix 0" using inv Job(1) by (auto simp: sys_inv_def)
  from run_job_apply[OF A(1) inv' Job(3,4)] show ?thesis using Job(1,2) by auto
next
  case (Commit ix task rest elapsed cs is' cs')
  have pk: "pmdk_ok (spmdk (soft A))" using A by (simp add: ann_cfg_ok_def cfg_ok_def)
  obtain ts committed where inv': "ann_inv A c0 ts committed ix cs" using inv Commit(1) by (auto simp: sys_inv_def)
  note f = commit_task_frame[OF Commit(5)] commit_task_tags[OF Commit(5)]
  have s: "mem (core (pop_task (iss ix))) = mem (core (iss ix))" "meta (core (pop_task (iss ix))) = meta (core (iss ix))" by (simp_all add: pop_task_def)
  have "graph_bytes (mem (core is')) = graph_bytes (mem (core (iss ix)))"
    using untouched_visible[OF _ commit_files[OF pk Commit(5)]] ann_invD(1)[OF inv'] by (simp add: f(1) s graph_inv_def)
  then have "abs_index A (ix\<lparr>iss := is'\<rparr>) = abs_index A ix" by (simp add: abs_index_def Let_def vec_of_def fun_eq_iff f s)
  then show ?thesis using Commit(1,2) by simp
qed

interpretation index_sim: forward_simulation "sys_inv A c0" "\<lambda>s s'. ann_cfg_ok A \<and> env_ok A E \<and> (\<exists>evs. ann_step A E s evs s')"
    "\<lambda>s. abs_index A (fst s)" store_step for A E c0
  by unfold_locales (blast intro: step_inv, blast intro: index_step_sim)

lemma reach_steps:
  assumes "ann_cfg_ok A" "env_ok A E" "ann_reach A E s s'"
  shows "(\<lambda>s s'. ann_cfg_ok A \<and> env_ok A E \<and> (\<exists>evs. ann_step A E s evs s'))\<^sup>*\<^sup>* s s'"
  using assms(3)
proof (induction rule: ann_reach.induct)
  case (step s1 evs s2)
  then show ?case using assms(1,2) by (intro rtranclp.rtrancl_into_rtrancl[OF step.IH]) blast
qed simp

lemma dom_vec_of: "dom (vec_of g m pm) = dom (id2loc_map m)"
  by (auto simp: vec_of_def dom_def)

lemma abs_index_ok:
  assumes "ann_inv A c0 ts committed ix cs"
  shows "store_ok (abs_index A ix)"
proof -
  have d: "distinct (map j_target_id (insert_pool ix))" using ann_inv_ids(1)[OF assms] by simp
  have "image_mset fst (image_mset abs_job (mset (insert_pool ix))) = mset (map j_target_id (insert_pool ix))"
    by (simp add: abs_job_def multiset.map_comp comp_def)
  then have "count (image_mset fst (vs_pending (abs_index A ix))) i \<le> 1" for i
    using d by (simp add: abs_index_def Let_def distinct_count_atmost_1 del: mset_map)
  moreover have "j_target_id j < cur_id (meta (core (iss ix))) \<and> j_target_id j \<notin> dom (id2loc_map (meta (core (iss ix))))"
    if "j \<in> set (insert_pool ix)" for j
    using that ann_inv_ids(2)[OF assms] ann_invD(2)[OF assms] by (auto simp: job_ok_def)
  ultimately show ?thesis using ann_invD(5)[OF assms]
    by (auto simp: store_ok_def dom_vec_of abs_index_def Let_def abs_job_def simp del: domIff)
qed



section \<open>Recovery refines the store\<close>

lemma same_coords_vec:
  assumes "graph_inv C (meta st) (mem st)" "same_coords (sgeom C) st st'" "dom (id2loc_map (meta st')) = dom (id2loc_map (meta st))"
  shows "vec_of (sgeom C) (meta st') (mem st') = vec_of (sgeom C) (meta st) (mem st)"
proof
  fix i
  show "vec_of (sgeom C) (meta st') (mem st') i = vec_of (sgeom C) (meta st) (mem st) i"
  proof (cases "id2loc_map (meta st) i")
    case None
    then have "id2loc_map (meta st') i = None" using assms(3) by blast
    then show ?thesis using None by (simp add: vec_of_def)
  next
    case (Some l)
    then obtain cs ns where n: "node_at (sgeom C) (graph_bytes (mem st)) l cs ns" using assms(1) unfolding graph_inv_def by blast
    then obtain l' ns' where "id2loc_map (meta st') i = Some l'" "node_at (sgeom C) (graph_bytes (mem st')) l' cs ns'"
      using assms(2) Some unfolding same_coords_def by blast
    then show ?thesis using vec_of_node Some n by metis
  qed
qed

interpretation recovery_sim: forward_simulation "\<lambda>s. recov_inv C (fst s) (snd s)"
    "\<lambda>s s'. cfg_ok C \<and> svariant C = BATCH_PRUNING \<and> codes_loaded E (dom (id2loc_map (meta (fst s))))
       \<and> cur_loc (alloc (meta (fst s))) + (prange (sprune C) + nnodes_per_sector (sgeom C)) \<le> kInvalidID
       \<and> (\<exists>i\<in>dom (id2loc_map (meta (fst s))). fix_node C E (fst s) (snd s) i = Some (Inr s'))"
    "\<lambda>s. vec_of (sgeom C) (meta (fst s)) (mem (fst s))" "\<lambda>_ _. False" for C E
proof unfold_locales
  fix s s' assume inv: "recov_inv C (fst s) (snd s)" and st: "cfg_ok C \<and> svariant C = BATCH_PRUNING \<and> codes_loaded E (dom (id2loc_map (meta (fst s))))
       \<and> cur_loc (alloc (meta (fst s))) + (prange (sprune C) + nnodes_per_sector (sgeom C)) \<le> kInvalidID
       \<and> (\<exists>i\<in>dom (id2loc_map (meta (fst s))). fix_node C E (fst s) (snd s) i = Some (Inr s'))"
  then obtain i where i: "i \<in> dom (id2loc_map (meta (fst s)))" "fix_node C E (fst s) (snd s) i = Some (Inr s')" by blast
  obtain st1 h1 where f1: "fix_node C E (fst s) (snd s) i = Some (Inr (st1, h1))" "recov_inv C st1 h1"
    "dom (id2loc_map (meta st1)) = dom (id2loc_map (meta (fst s)))" "same_coords (sgeom C) (fst s) st1"
    using fix_step[of C "fst s" "snd s" E i] inv st i(1) by blast
  have "s' = (st1, h1)" using i(2) f1(1) by simp
  then have f: "recov_inv C (fst s') (snd s')" "dom (id2loc_map (meta (fst s'))) = dom (id2loc_map (meta (fst s)))"
    "same_coords (sgeom C) (fst s) (fst s')" using f1(2-) by simp_all
  show "recov_inv C (fst s') (snd s')" by (rule f(1))
  have "graph_inv C (meta (fst s)) (mem (fst s))" using inv by (simp add: recov_inv_def)
  from same_coords_vec[OF this f(3,2)]
  show "(\<lambda>_ _. False)\<^sup>*\<^sup>* (vec_of (sgeom C) (meta (fst s)) (mem (fst s))) (vec_of (sgeom C) (meta (fst s')) (mem (fst s')))" by simp
qed

text \<open>Any sequence of repair steps leaves the vectors alone.\<close>

lemmas repair_keeps_vectors = recovery_sim.simulation



end
