(* ===== verification/Spec2Isabelle.thy ===== *)
theory Spec2Isabelle
  imports Soft_Crash PQ_Pivots Recovery_Crash Vector_Store
begin

text \<open>
  A verification library for CCANN, an approximate nearest-neighbour index (a Vamana graph) whose nodes
  live on persistent memory or on an SSD and which accepts insertions while it is searched.

  \<^bold>\<open>The program.\<close> \<^verbatim>\<open>SSDIndex\<close> (\<^verbatim>\<open>include/ssd_index.h\<close>, \<^verbatim>\<open>src/ssd_index.cpp\<close>) keeps the graph file, a
  table from ids to locations with its inverse page layout, and the PQ codes of all vectors. An insertion
  (\<^verbatim>\<open>src/update/direct_insert.cpp\<close>) takes the next id, searches the graph for candidates, prunes them to a
  neighbour list, encodes the vector and hands the job to a pool thread. \<^verbatim>\<open>insert_phase_pm\<close> then locks the
  new node and its neighbours, takes free locations from the allocator, writes the new node and a new
  version of each neighbour with the back edge, flushes them, and switches the ids to the new locations.
  The location entries of the neighbours and the PQ code go to the commit thread, which persists them and
  advances a checkpoint. After a crash the \<^verbatim>\<open>PM_RECOVERY\<close> part of \<^verbatim>\<open>load\<close> rebuilds the tables from the
  location file and repairs every node from the checkpoint on.

  \<^bold>\<open>The theories\<close>, each with the source it translates.

  \<^item> \<open>CCANN_Prelude\<close>: faults (\<open>fault\<close>, \<open>outcome\<close>, \<open>run\<close>), 32-bit truncation, the rounding macros of
    \<^verbatim>\<open>include/utils.h\<close>, shared list and map lemmas.
  \<^item> \<open>Cuckoo_Map\<close>: the operations of \<^verbatim>\<open>libcuckoo::cuckoohash_map\<close> as atomic steps on a partial map.
  \<^item> \<open>Lock_Table\<close>, \<open>Lock_Order\<close>: \<^verbatim>\<open>v2/lock_table.h\<close> and the ordered multi-key locking of \<^verbatim>\<open>ssd_index.h\<close>;
    mutual exclusion, no leaked entry, no deadlock.
  \<^item> \<open>Conc_Queue\<close>: \<^verbatim>\<open>concurrent_queue.h\<close>.
  \<^item> \<open>Disk_Layout\<close>, \<open>Node_Codec\<close>: offsets of nodes in the graph file and the bytes of a node; records are
    disjoint, reading gives back what was written.
  \<^item> \<open>Allocator\<close>, \<open>Alloc_Compact\<close>: \<^verbatim>\<open>alloc_loc\<close> and \<^verbatim>\<open>alloc_loc_compact\<close>; one contract (locale
    \<open>slot_allocator\<close>), interpreted for both.
  \<^item> \<open>Id_Map\<close>: \<^verbatim>\<open>id2loc\<close>, \<^verbatim>\<open>loc2id\<close> and the location switch; the two maps stay inverse to each other.
  \<^item> \<open>Float32\<close>, \<open>Neighbor_Pool\<close>, \<open>Prune\<close>: binary32 arithmetic, \<^verbatim>\<open>neighbor.h\<close>, and the pruning of
    neighbour lists (\<^verbatim>\<open>prune_neighbors.cpp\<close> and the batch pruning of the insert path).
  \<^item> \<open>PMem\<close>: stores, cache-line flushes and fences with all crash images, over a libpmem parameter.
  \<^item> \<open>Soft_Insert\<close>, \<open>Soft_Graph\<close>, \<open>Soft_Crash\<close>: \<^verbatim>\<open>insert_phase_pm\<close>, its effect on the graph, and what a
    crash at any point leaves behind.
  \<^item> \<open>Commit_Thread\<close>: the commit thread, its checkpoint, and the order of what it persists.
  \<^item> \<open>Insert_Path\<close>, \<open>Iss_System\<close>: the insert entry points, the thread pool, and every interleaving of
    insertions, pool jobs and the commit thread as a step relation.
  \<^item> \<open>Bin_File\<close>, \<open>PQ_Table\<close>, \<open>PQ_Pivots\<close>: the \<^verbatim>\<open>.bin\<close> format, \<^verbatim>\<open>pq_table.h\<close>, and the pivot generation of
    \<^verbatim>\<open>partition_and_pq.cpp\<close>.
  \<^item> \<open>Recovery\<close>, \<open>Recovery_Crash\<close>: the recovery branch of \<^verbatim>\<open>SSDIndex::load\<close>.
  \<^item> \<open>Vector_Store\<close>: the contract of the whole index, a store of vectors by id, which the running index and
    recovery refine (locale \<open>forward_simulation\<close>).

  \<^bold>\<open>Conventions.\<close> A call returns \<open>Inr\<close> of its result and new state, or \<open>Inl\<close> of the fault that ends the
  program. A loop that may run for ever is a \<^theory_text>\<open>partial_function\<close> with value \<^term>\<open>None\<close> in that case; the
  theorems about it show that it returns. Loops with a bound in the code are structurally recursive or have
  a termination proof; no definition uses fuel. Identifiers, counts and offsets are natural numbers; where
  the code stores one in 32 bits the model truncates it, and overflow of 64-bit sums is not modelled. Sets
  and maps of the standard library are sets and partial maps. Code outside the repository (libpmem, BLAS,
  random numbers, vector distances with SIMD) is a parameter; what is relied on is a named hypothesis
  (\<open>pmdk_ok\<close> for libpmem), with an instance in a witness. The default build is modelled (soft insert on
  persistent memory with asynchronous commit), and the recovery build in \<open>Recovery\<close>.

  \<^bold>\<open>Not modelled.\<close> The search variants under \<^verbatim>\<open>src/search\<close> (coroutines, io_uring and timing; the insert
  path takes their result as a parameter with a stated contract); \<^verbatim>\<open>linux_aligned_file_reader.cpp\<close> apart
  from the persistent-memory flush; the SSD insert phase and the page cache; the journal build; the
  internals of the hash tables (\<^verbatim>\<open>libcuckoo\<close>, \<^verbatim>\<open>tsl\<close>, \<^verbatim>\<open>mpmc.h\<close>), which are vendored libraries and enter
  through their interface; SIMD distance kernels; k-means and BLAS; command-line drivers, Python bindings,
  logging and statistics.
\<close>

end
